(* ===== verification/Prelude.thy ===== *)
theory Prelude
  imports Main "HOL-Library.Word"
begin

text \<open>
  Shared vocabulary of the development: the widths the C++ code computes with, the
  \<open>named_theorems\<close> collections the component proofs feed to the simplifier, and the generic
  lemmas on machine words that more than one component uses.
\<close>

unbundle bit_operations_syntax

subsection \<open>Machine integers of the source\<close>

text \<open>\<open>unsigned int\<close> / \<open>uint32_t\<close> and \<open>unsigned long long\<close> / \<open>uint64_t\<close>.\<close>

type_synonym u32 = "32 word"
type_synonym u64 = "64 word"

named_theorems unat_arith_simps
  \<open>the value on the naturals of the machine operations the code uses\<close>

subsection \<open>Splitting and joining 64-bit words\<close>

text \<open>The low and the high 32 bits of a 64-bit value: the casts
  \<open>(unsigned int)v\<close> and \<open>(unsigned int)(v >> 32)\<close>.\<close>

definition lo32 :: "u64 \<Rightarrow> u32" where
  "lo32 v = ucast v"

definition hi32 :: "u64 \<Rightarrow> u32" where
  "hi32 v = ucast (drop_bit 32 v)"

text \<open>\<open>(unsigned long long)lo | ((unsigned long long)hi << 32)\<close>.\<close>

definition join64 :: "u32 \<Rightarrow> u32 \<Rightarrow> u64" where
  "join64 lo hi = ucast lo OR push_bit 32 (ucast hi)"

lemma unat_u32_less [simp]: "unat (x :: u32) < 4294967296"
proof -
  have "unat x < 2 ^ LENGTH(32)" by (rule unsigned_less)
  then show ?thesis by simp
qed

lemma unat_u64_less [simp]: "unat (x :: u64) < 18446744073709551616"
proof -
  have "unat x < 2 ^ LENGTH(64)" by (rule unsigned_less)
  then show ?thesis by simp
qed

lemma unat_u32_le: "unat (x :: u32) \<le> 4294967295"
  using unat_u32_less [of x] by linarith

lemma unat_u64_le: "unat (x :: u64) \<le> 18446744073709551615"
  using unat_u64_less [of x] by linarith

lemma unat_minus_one_u64: "unat (- 1 :: u64) = 18446744073709551615"
  by (simp add: unsigned_minus_1_eq_mask mask_eq_exp_minus_1)

lemma unat_ucast_u64 [simp]: "unat (ucast (x :: u32) :: u64) = unat x"
  by (simp add: unsigned_ucast_eq take_bit_nat_eq_self_iff less_trans [OF unat_u32_less])

lemma unat_ucast_u32 [unat_arith_simps]: "unat (ucast (x :: u64) :: u32) = unat x mod 2 ^ 32"
  by (simp add: unsigned_ucast_eq take_bit_eq_mod)

lemma unat_drop_bit_div [unat_arith_simps]: "unat (drop_bit n (x :: u64)) = unat x div 2 ^ n"
proof -
  have "take_bit LENGTH(64) (unat x) = unat x"
    by (rule take_bit_nat_eq_self) (rule unsigned_less)
  then show ?thesis
    unfolding unsigned_drop_bit_eq by (simp only: drop_bit_eq_div)
qed

lemma unat_drop_bit_div32 [unat_arith_simps]: "unat (drop_bit n (x :: u32)) = unat x div 2 ^ n"
proof -
  have "take_bit LENGTH(32) (unat x) = unat x"
    by (rule take_bit_nat_eq_self) (rule unsigned_less)
  then show ?thesis
    unfolding unsigned_drop_bit_eq by (simp only: drop_bit_eq_div)
qed

lemma unat_lo32 [unat_arith_simps]: "unat (lo32 v) = unat v mod 2 ^ 32"
  by (simp add: lo32_def unat_ucast_u32)

lemma unat_hi32 [unat_arith_simps]: "unat (hi32 v) = unat v div 2 ^ 32"
proof -
  have "unat v div 2 ^ 32 < 2 ^ 32"
    using unat_u64_less [of v] by (simp add: less_mult_imp_div_less)
  then show ?thesis
    unfolding hi32_def unat_ucast_u32 unat_drop_bit_div by (rule mod_less)
qed

lemma unat_join64 [unat_arith_simps]: "unat (join64 lo hi) = unat lo + 2 ^ 32 * unat hi"
proof -
  have "unat (push_bit 32 (ucast hi :: u64)) = take_bit 64 (push_bit 32 (unat hi))"
    by (simp only: unsigned_push_bit_eq unat_ucast_u64) simp
  also have "\<dots> = 2 ^ 32 * unat hi"
    using unat_u32_less [of hi]
    by (subst take_bit_nat_eq_self) (simp_all add: push_bit_eq_mult mult.commute)
  finally have hi: "unat (push_bit 32 (ucast hi :: u64)) = 2 ^ 32 * unat hi" .
  have "unat (join64 lo hi) = unat lo OR 2 ^ 32 * unat hi"
    by (simp only: join64_def unsigned_or_eq hi unat_ucast_u64)
  also have "\<dots> = unat lo + 2 ^ 32 * unat hi"
  proof (rule disjunctive_add [symmetric])
    fix n
    have "take_bit 32 (unat lo) = unat lo"
      by (rule take_bit_nat_eq_self) simp
    then have "bit (unat lo) n \<Longrightarrow> n < 32"
      by (metis bit_take_bit_iff)
    moreover have "2 ^ 32 * unat hi = push_bit 32 (unat hi)"
      by (simp add: push_bit_eq_mult)
    then have "bit (2 ^ 32 * unat hi) n \<Longrightarrow> 32 \<le> n"
      by (metis bit_push_bit_iff)
    ultimately show "\<not> bit (unat lo) n \<or> \<not> bit (2 ^ 32 * unat hi) n"
      by linarith
  qed
  finally show ?thesis .
qed

lemma unat_inject: "unat x = unat y \<Longrightarrow> x = y"
  by (rule unsigned_word_eqI)

lemma lo32_join64 [simp]: "lo32 (join64 lo hi) = lo"
  by (rule unat_inject) (simp add: unat_arith_simps)

lemma hi32_join64 [simp]: "hi32 (join64 lo hi) = hi"
  by (rule unat_inject) (simp add: unat_arith_simps)

lemma join64_lo32_hi32 [simp]: "join64 (lo32 v) (hi32 v) = v"
  by (rule unat_inject) (simp add: unat_arith_simps)

lemma of_nat_unat_add: "of_nat (unat (x :: u32) + 4294967296 * n) = x"
proof -
  have "take_bit LENGTH(32) (unat x + 4294967296 * n) = unat x"
    by (simp add: take_bit_eq_mod)
  then have "unat (of_nat (unat x + 4294967296 * n) :: u32) = unat x"
    by (simp only: unsigned_of_nat of_nat_id)
  then show ?thesis by (rule unat_inject)
qed

lemma div_2_32: "(a :: nat) \<le> 4294967295 \<Longrightarrow> (a + 4294967296 * b) div 4294967296 = b"
  by simp

text \<open>\<open>++x\<close> on an unsigned word, seen on the naturals.\<close>

lemma unat_succ: "unat ((x :: 'a::len word) + 1) = (if x + 1 = 0 then 0 else Suc (unat x))"
  using unatSuc [of x] by (simp add: add.commute)

text \<open>\<open>v & 3\<close>: the value modulo four, as the counters and indices of the code use it.\<close>

lemma unat_and_3 [unat_arith_simps]: "unat ((x :: 'a::len word) AND 3) = unat x mod 4"
proof -
  have "x AND 3 = take_bit 2 x"
    by (simp add: take_bit_eq_mask mask_eq_exp_minus_1)
  then have "unat (x AND 3) = take_bit 2 (unat x)"
    by (simp only: unsigned_take_bit_eq)
  then show ?thesis by (simp add: take_bit_eq_mod)
qed

lemma unat_add_small:
  "unat (x :: 'a::len word) + unat y < 2 ^ LENGTH('a) \<Longrightarrow> unat (x + y) = unat x + unat y"
  by (simp add: unat_word_ariths)

subsection \<open>Repeating a state-passing operation\<close>

text \<open>\<open>for (i = 0; i < n; i++) out[i] = step(&st);\<close>\<close>

fun repeat_step :: "('s \<Rightarrow> 'o \<times> 's) \<Rightarrow> nat \<Rightarrow> 's \<Rightarrow> 'o list \<times> 's" where
  "repeat_step step 0 s = ([], s)"
| "repeat_step step (Suc n) s =
     (let (r, s) = step s; (rs, s) = repeat_step step n s in (r # rs, s))"

lemma map_shift_upt: "map (\<lambda>i. f (Suc i)) [0..<n] = map f [Suc 0..<Suc n]"
  by (simp only: map_Suc_upt [symmetric] map_map o_def)

lemma fold_grow:
  assumes "I X s" and "\<And>c X s. I X s \<Longrightarrow> I (insert c X) (f c s)"
  shows "I (set cs \<union> X) (fold f cs s)"
  using assms(1)
proof (induction cs arbitrary: X s)
  case (Cons c cs)
  have "I (insert c X) (f c s)" by (rule assms(2) [OF Cons.prems])
  from Cons.IH [OF this] show ?case by simp
qed simp

end
