(* ===== verification/Philox.thy ===== *)
theory Philox
  imports Prelude
begin

text \<open>
  The cuRAND device API for Philox4_32_10 (\<open>include/curand_kernel.h\<close>) and the host fill that
  uses it (\<open>cpp/mvcc-metal/curand_host.cpp\<close>): the block function, the 128-bit block counter with
  its carries, \<open>skipahead\<close>, \<open>skipahead_sequence\<close>, \<open>curand_init\<close>, \<open>curand\<close>, \<open>curand4\<close>.
  The specification is a position in the output stream of the key, a number below \<open>2 ^ 130\<close>;
  every operation is shown to move that position exactly as cuRAND documents.
\<close>

subsection \<open>The state and the block function\<close>

record uint2 =
  key_x :: u32
  key_y :: u32

record uint4 =
  ux :: u32
  uy :: u32
  uz :: u32
  uw :: u32

text \<open>\<open>boxmuller_extra\<close> is a \<open>float\<close>; its type is a parameter of the record.\<close>

record 'f philox_state =
  ctr :: uint4
  output4 :: uint4
  key :: uint2
  STATE :: u32
  boxmuller_flag :: int
  boxmuller_extra :: 'f

definition MVCC_PHILOX_M0 :: u32 where "MVCC_PHILOX_M0 = 0xD2511F53"
definition MVCC_PHILOX_M1 :: u32 where "MVCC_PHILOX_M1 = 0xCD9E8D57"
definition MVCC_PHILOX_W0 :: u32 where "MVCC_PHILOX_W0 = 0x9E3779B9"
definition MVCC_PHILOX_W1 :: u32 where "MVCC_PHILOX_W1 = 0xBB67AE85"

text \<open>One iteration of the loop of \<open>mvcc_philox4x32_10\<close>.\<close>

definition philox_round :: "uint4 \<times> uint2 \<Rightarrow> uint4 \<times> uint2" where
  "philox_round = (\<lambda>(c, k).
     let p0 = (ucast MVCC_PHILOX_M0 :: u64) * ucast (ux c);
         p1 = (ucast MVCC_PHILOX_M1 :: u64) * ucast (uz c)
     in (\<lparr>ux = hi32 p1 XOR uy c XOR key_x k,
          uy = lo32 p1,
          uz = hi32 p0 XOR uw c XOR key_y k,
          uw = lo32 p0\<rparr>,
         \<lparr>key_x = key_x k + MVCC_PHILOX_W0, key_y = key_y k + MVCC_PHILOX_W1\<rparr>))"

fun philox_loop :: "nat \<Rightarrow> uint4 \<times> uint2 \<Rightarrow> uint4 \<times> uint2" where
  "philox_loop 0 ck = ck"
| "philox_loop (Suc n) ck = philox_loop n (philox_round ck)"

definition mvcc_philox4x32_10 :: "uint4 \<Rightarrow> uint2 \<Rightarrow> uint4" where
  "mvcc_philox4x32_10 c k = fst (philox_loop 10 (c, k))"

subsection \<open>The block counter\<close>

definition mvcc_philox_bump :: "uint4 \<Rightarrow> uint4" where
  "mvcc_philox_bump c =
     (let c = c\<lparr>ux := ux c + 1\<rparr> in if ux c \<noteq> 0 then c else
      let c = c\<lparr>uy := uy c + 1\<rparr> in if uy c \<noteq> 0 then c else
      let c = c\<lparr>uz := uz c + 1\<rparr> in if uz c \<noteq> 0 then c else
      c\<lparr>uw := uw c + 1\<rparr>)"

text \<open>\<open>make_uint4((unsigned)lo, (unsigned)(lo >> 32), (unsigned)hi, (unsigned)(hi >> 32))\<close>.\<close>

definition block_of :: "u64 \<Rightarrow> u64 \<Rightarrow> uint4" where
  "block_of blo bhi = \<lparr>ux = lo32 blo, uy = hi32 blo, uz = lo32 bhi, uw = hi32 bhi\<rparr>"

definition mvcc_philox_load :: "'f philox_state \<Rightarrow> u64 \<times> u64 \<times> u32" where
  "mvcc_philox_load s =
     (let w = STATE s AND 3;
          lo = join64 (ux (ctr s)) (uy (ctr s));
          hi = join64 (uz (ctr s)) (uw (ctr s))
      in if w \<noteq> 0 then (lo - 1, hi - (if lo = 0 then 1 else 0), w) else (lo, hi, w))"

definition mvcc_philox_store :: "'f philox_state \<Rightarrow> u64 \<Rightarrow> u64 \<Rightarrow> u32 \<Rightarrow> 'f philox_state" where
  "mvcc_philox_store s blo bhi word =
     (let s = s\<lparr>boxmuller_flag := 0\<rparr> in
      if word = 0 then s\<lparr>ctr := block_of blo bhi, STATE := 0\<rparr>
      else
        let s = s\<lparr>output4 := mvcc_philox4x32_10 (block_of blo bhi) (key s)\<rparr>;
            nlo = blo + 1;
            bhi = (if nlo = 0 then bhi + 1 else bhi)
        in s\<lparr>ctr := block_of nlo bhi, STATE := word\<rparr>)"

subsection \<open>The operations\<close>

definition skipahead :: "u64 \<Rightarrow> 'f philox_state \<Rightarrow> 'f philox_state" where
  "skipahead n s =
     (if n = 0 then s else
      let (blo, bhi, word) = mvcc_philox_load s;
          blocks = drop_bit 2 n;
          sum = word + ucast (n AND 3);
          blocks = blocks + ucast (drop_bit 2 sum);
          nlo = blo + blocks;
          bhi = bhi + (if nlo < blo then 1 else 0)
      in mvcc_philox_store s nlo bhi (sum AND 3))"

definition skipahead_sequence :: "u64 \<Rightarrow> 'f philox_state \<Rightarrow> 'f philox_state" where
  "skipahead_sequence n s =
     (if n = 0 then s else
      let (blo, bhi, word) = mvcc_philox_load s
      in mvcc_philox_store s blo (bhi + n) word)"

text \<open>\<open>zf\<close> is the \<open>float\<close> constant \<open>0.f\<close>; every field is written, so the incoming state is
  only the memory that is overwritten.\<close>

definition curand_init :: "'f \<Rightarrow> u64 \<Rightarrow> u64 \<Rightarrow> u64 \<Rightarrow> 'f philox_state" where
  "curand_init zf seed subsequence off =
     skipahead off (skipahead_sequence subsequence
       \<lparr>ctr = \<lparr>ux = 0, uy = 0, uz = 0, uw = 0\<rparr>,
        output4 = \<lparr>ux = 0, uy = 0, uz = 0, uw = 0\<rparr>,
        key = \<lparr>key_x = lo32 seed, key_y = hi32 seed\<rparr>,
        STATE = 0, boxmuller_flag = 0, boxmuller_extra = zf\<rparr>)"

definition curand :: "'f philox_state \<Rightarrow> u32 \<times> 'f philox_state" where
  "curand s =
     (let word = STATE s AND 3;
          s = (if word = 0
               then s\<lparr>output4 := mvcc_philox4x32_10 (ctr s) (key s), ctr := mvcc_philox_bump (ctr s)\<rparr>
               else s);
          r = (if word = 0 then ux (output4 s)
               else if word = 1 then uy (output4 s)
               else if word = 2 then uz (output4 s)
               else uw (output4 s))
      in (r, s\<lparr>STATE := (word + 1) AND 3\<rparr>))"

definition curand4 :: "'f philox_state \<Rightarrow> uint4 \<times> 'f philox_state" where
  "curand4 s =
     (if STATE s AND 3 = 0
      then (mvcc_philox4x32_10 (ctr s) (key s), s\<lparr>ctr := mvcc_philox_bump (ctr s)\<rparr>)
      else
        let (a, s) = curand s;
            (b, s) = curand s;
            (c, s) = curand s;
            (d, s) = curand s
        in (\<lparr>ux = a, uy = b, uz = c, uw = d\<rparr>, s))"

text \<open>The host fill: \<open>n\<close> draws of a freshly initialised state.\<close>

definition mvcc_philox_fill :: "'f \<Rightarrow> u64 \<Rightarrow> u64 \<Rightarrow> u64 \<Rightarrow> u32 list" where
  "mvcc_philox_fill zf seed off n = fst (repeat_step curand (unat n) (curand_init zf seed 0 off))"

subsection \<open>The specification: a position in the output stream\<close>

text \<open>The 128-bit block counter as a number, and the counter of a number.\<close>

definition ctr_nat :: "uint4 \<Rightarrow> nat" where
  "ctr_nat c = unat (ux c) + 2 ^ 32 * unat (uy c) + 2 ^ 64 * unat (uz c) + 2 ^ 96 * unat (uw c)"

definition nat_ctr :: "nat \<Rightarrow> uint4" where
  "nat_ctr n = \<lparr>ux = of_nat n, uy = of_nat (n div 2 ^ 32),
                uz = of_nat (n div 2 ^ 64), uw = of_nat (n div 2 ^ 96)\<rparr>"

text \<open>Output number \<open>n\<close> of the key: word \<open>n mod 4\<close> of block \<open>n div 4\<close>.\<close>

definition out_at :: "uint2 \<Rightarrow> nat \<Rightarrow> u32" where
  "out_at k n =
     (let b = mvcc_philox4x32_10 (nat_ctr (n div 4)) k
      in [ux b, uy b, uz b, uw b] ! (n mod 4))"

text \<open>The block the state reads from, the stream position of a state, and what every
  operation keeps of it: the buffered block is the block of the position.\<close>

definition cur_block :: "'f philox_state \<Rightarrow> nat" where
  "cur_block s =
     (if STATE s = 0 then ctr_nat (ctr s) else (ctr_nat (ctr s) + (2 ^ 128 - 1)) mod 2 ^ 128)"

definition rng_pos :: "'f philox_state \<Rightarrow> nat" where
  "rng_pos s = 4 * cur_block s + unat (STATE s)"

definition rng_inv :: "'f philox_state \<Rightarrow> bool" where
  "rng_inv s \<longleftrightarrow> STATE s < 4 \<and>
     (STATE s \<noteq> 0 \<longrightarrow> output4 s = mvcc_philox4x32_10 (nat_ctr (cur_block s)) (key s))"

lemma ctr_nat_less: "ctr_nat c < 2 ^ 128"
  using unat_u32_le [of "ux c"] unat_u32_le [of "uy c"] unat_u32_le [of "uz c"]
    unat_u32_le [of "uw c"]
  by (simp add: ctr_nat_def)

lemma nat_ctr_ctr_nat [simp]: "nat_ctr (ctr_nat c) = c"
proof -
  define d2 where "d2 = unat (uz c) + 4294967296 * unat (uw c)"
  define d1 where "d1 = unat (uy c) + 4294967296 * d2"
  have n: "ctr_nat c = unat (ux c) + 4294967296 * d1"
    by (simp add: ctr_nat_def d1_def d2_def)
  have q1: "ctr_nat c div 2 ^ 32 = d1"
    using div_2_32 [OF unat_u32_le [of "ux c"], of d1] by (simp only: n) simp
  have "ctr_nat c div 2 ^ 64 = ctr_nat c div 2 ^ 32 div 2 ^ 32"
    by (simp add: div_mult2_eq [symmetric])
  then have q2: "ctr_nat c div 2 ^ 64 = d2"
    using div_2_32 [OF unat_u32_le [of "uy c"], of d2] by (simp only: q1 d1_def) simp
  have "ctr_nat c div 2 ^ 96 = ctr_nat c div 2 ^ 64 div 2 ^ 32"
    by (simp add: div_mult2_eq [symmetric])
  then have q3: "ctr_nat c div 2 ^ 96 = unat (uw c) + 4294967296 * 0"
    using div_2_32 [OF unat_u32_le [of "uz c"], of "unat (uw c)"]
    by (simp only: q2 d2_def) simp
  have "of_nat (ctr_nat c) = ux c" "of_nat d1 = uy c" "of_nat d2 = uz c"
    unfolding n d1_def d2_def by (rule of_nat_unat_add)+
  then show ?thesis
    by (simp only: nat_ctr_def q1 q2 q3 of_nat_unat_add) simp
qed

lemma ctr_nat_block_of: "ctr_nat (block_of lo hi) = unat lo + 2 ^ 64 * unat hi"
proof -
  define a b c d where "a = unat lo mod 4294967296" and "b = unat lo div 4294967296"
    and "c = unat hi mod 4294967296" and "d = unat hi div 4294967296"
  have "unat lo = a + 4294967296 * b" and "unat hi = c + 4294967296 * d"
    by (simp_all add: a_def b_def c_def d_def)
  moreover have "ctr_nat (block_of lo hi)
      = a + 4294967296 * b + 18446744073709551616 * c + 79228162514264337593543950336 * d"
    by (simp add: ctr_nat_def block_of_def unat_arith_simps a_def b_def c_def d_def)
  ultimately show ?thesis by simp
qed

lemma ctr_nat_join64:
  "ctr_nat c = unat (join64 (ux c) (uy c)) + 2 ^ 64 * unat (join64 (uz c) (uw c))"
  by (simp add: ctr_nat_def unat_join64)

text \<open>The carry chain of \<open>mvcc_philox_bump\<close> is an increment modulo \<open>2 ^ 128\<close>.\<close>

lemma succ_zero_iff: "(x :: u32) + 1 = 0 \<longleftrightarrow> unat x = 4294967295"
proof
  assume "x + 1 = 0"
  then have "x = - 1" by (simp add: eq_neg_iff_add_eq_0)
  then show "unat x = 4294967295" by (simp add: unsigned_minus_1_eq_mask mask_eq_exp_minus_1)
next
  assume "unat x = 4294967295"
  then have "x = - 1"
    by (intro unat_inject) (simp add: unsigned_minus_1_eq_mask mask_eq_exp_minus_1)
  then show "x + 1 = 0" by simp
qed

lemma bump_carry:
  "ctr_nat (mvcc_philox_bump c) = (if ctr_nat c = 2 ^ 128 - 1 then 0 else ctr_nat c + 1)"
  using unat_u32_le [of "ux c"] unat_u32_le [of "uy c"] unat_u32_le [of "uz c"]
    unat_u32_le [of "uw c"]
  by (auto simp: mvcc_philox_bump_def Let_def ctr_nat_def unat_succ succ_zero_iff)

lemma ctr_nat_bump: "ctr_nat (mvcc_philox_bump c) = (ctr_nat c + 1) mod 2 ^ 128"
  using ctr_nat_less [of c] by (auto simp: bump_carry)

subsection \<open>Every operation moves the position as documented\<close>

lemma cur_block_less: "cur_block s < 2 ^ 128"
  using ctr_nat_less [of "ctr s"] by (simp add: cur_block_def)

lemma cur_block_step: "(ctr_nat c + (2 ^ 128 - 1)) mod 2 ^ 128 = (if ctr_nat c = 0 then 2 ^ 128 - 1 else ctr_nat c - 1)"
  using ctr_nat_less [of c] by (auto simp: mod_if)

lemma STATE_and_3: "STATE s < 4 \<Longrightarrow> STATE s AND 3 = STATE s"
  by (rule unat_inject) (simp add: unat_and_3 word_less_nat_alt)

lemma STATE_cases:
  assumes "STATE s < (4 :: u32)"
  obtains "STATE s = 0" | "STATE s = 1" | "STATE s = 2" | "STATE s = 3"
proof -
  have "unat (STATE s) < 4" using assms by (simp add: word_less_nat_alt)
  then have "unat (STATE s) = 0 \<or> unat (STATE s) = 1 \<or> unat (STATE s) = 2 \<or> unat (STATE s) = 3"
    by linarith
  then have "STATE s = 0 \<or> STATE s = 1 \<or> STATE s = 2 \<or> STATE s = 3"
    by (auto intro: unat_inject)
  then show ?thesis using that by blast
qed

lemma out_at_block:
  "out_at k (4 * b) = ux (mvcc_philox4x32_10 (nat_ctr b) k)"
  "out_at k (4 * b + 1) = uy (mvcc_philox4x32_10 (nat_ctr b) k)"
  "out_at k (4 * b + 2) = uz (mvcc_philox4x32_10 (nat_ctr b) k)"
  "out_at k (4 * b + 3) = uw (mvcc_philox4x32_10 (nat_ctr b) k)"
proof -
  have "(4 * b + w) div 4 = b" and "(4 * b + w) mod 4 = w" if "w < 4" for w :: nat
    using that by simp_all
  from this [of 0] this [of 1] this [of 2] this [of 3]
  show "out_at k (4 * b) = ux (mvcc_philox4x32_10 (nat_ctr b) k)"
    "out_at k (4 * b + 1) = uy (mvcc_philox4x32_10 (nat_ctr b) k)"
    "out_at k (4 * b + 2) = uz (mvcc_philox4x32_10 (nat_ctr b) k)"
    "out_at k (4 * b + 3) = uw (mvcc_philox4x32_10 (nat_ctr b) k)"
    by (simp_all only: out_at_def Let_def) simp_all
qed

lemma cur_block_buffered:
  "STATE s \<noteq> 0 \<Longrightarrow> w \<noteq> 0 \<Longrightarrow> cur_block (s\<lparr>STATE := w\<rparr>) = cur_block s"
  by (simp add: cur_block_def)

text \<open>Reading: the word at the position, and one step forward modulo \<open>2 ^ 130\<close>.\<close>

lemma curand_fresh:
  "STATE s = 0 \<Longrightarrow> curand s =
     (ux (mvcc_philox4x32_10 (ctr s) (key s)),
      s\<lparr>output4 := mvcc_philox4x32_10 (ctr s) (key s), ctr := mvcc_philox_bump (ctr s), STATE := 1\<rparr>)"
  by (simp add: curand_def)

lemma curand_buffered:
  "STATE s = 1 \<Longrightarrow> curand s = (uy (output4 s), s\<lparr>STATE := 2\<rparr>)"
  "STATE s = 2 \<Longrightarrow> curand s = (uz (output4 s), s\<lparr>STATE := 3\<rparr>)"
  "STATE s = 3 \<Longrightarrow> curand s = (uw (output4 s), s\<lparr>STATE := 0\<rparr>)"
  by (simp_all add: curand_def)

lemma pos_step: "b < 2 ^ 128 \<Longrightarrow> w < 3 \<Longrightarrow> (4 * b + w + 1) mod 2 ^ 130 = 4 * b + (w + 1 :: nat)"
  by simp

lemma pos_wrap: "(4 + 4 * b :: nat) mod 2 ^ 130 = 4 * ((b + 1) mod 2 ^ 128)"
proof -
  have "4 * ((b + 1) mod 2 ^ 128) = (4 * (b + 1)) mod (4 * 2 ^ 128)"
    by (rule mult_mod_right)
  then show ?thesis by simp
qed

lemma prev_succ_mod: "n < m \<Longrightarrow> ((n + (m - 1)) mod m + 1) mod m = (n :: nat)"
  by (simp add: mod_simps)

lemma succ_prev_mod: "n < m \<Longrightarrow> ((n + 1) mod m + (m - 1)) mod m = (n :: nat)"
proof -
  assume "n < m"
  then have "(n + 1) + (m - 1) = n + m" by linarith
  then have "((n + 1) mod m + (m - 1)) mod m = (n + m) mod m"
    by (metis mod_add_left_eq)
  with \<open>n < m\<close> show ?thesis by simp
qed

definition curand_ok :: "'f philox_state \<Rightarrow> u32 \<times> 'f philox_state \<Rightarrow> bool" where
  "curand_ok s = (\<lambda>(r, s'). r = out_at (key s) (rng_pos s) \<and> rng_inv s' \<and> key s' = key s \<and>
     rng_pos s' = (rng_pos s + 1) mod 2 ^ 130)"

lemma curand_ok: "rng_inv s \<Longrightarrow> curand_ok s (curand s)"
proof -
  assume inv: "rng_inv s"
  let ?b = "cur_block s"
  have b: "?b < 2 ^ 128" by (rule cur_block_less)
  from inv have lt: "STATE s < 4" by (simp add: rng_inv_def)
  show ?thesis
  proof (cases rule: STATE_cases [OF lt])
    case 1
    then have c: "?b = ctr_nat (ctr s)" by (simp add: cur_block_def)
    from 1 show ?thesis
      using pos_step [OF b, of 0] succ_prev_mod [OF b]
      by (simp only: curand_fresh curand_ok_def prod.case)
        (simp add: rng_pos_def rng_inv_def c out_at_block cur_block_def [of "_ \<lparr>STATE := 1\<rparr>"] ctr_nat_bump)
  next
    case 2
    then have "cur_block (s\<lparr>STATE := 2\<rparr>) = ?b" by (simp add: cur_block_buffered)
    with 2 inv show ?thesis
      using pos_step [OF b, of 1] out_at_block(2) [of "key s" ?b]
      by (simp only: curand_buffered curand_ok_def prod.case) (simp add: rng_pos_def rng_inv_def)
  next
    case 3
    then have "cur_block (s\<lparr>STATE := 3\<rparr>) = ?b" by (simp add: cur_block_buffered)
    with 3 inv show ?thesis
      using pos_step [OF b, of 2] out_at_block(3) [of "key s" ?b]
      by (simp only: curand_buffered curand_ok_def prod.case) (simp add: rng_pos_def rng_inv_def)
  next
    case 4
    have "(?b + 1) mod 2 ^ 128 = ctr_nat (ctr s)"
      using 4 prev_succ_mod [OF ctr_nat_less [of "ctr s"]] by (simp only: cur_block_def) simp
    then have "cur_block (s\<lparr>STATE := 0\<rparr>) = (?b + 1) mod 2 ^ 128" by (simp add: cur_block_def)
    with 4 inv show ?thesis
      using pos_wrap [of ?b] out_at_block(4) [of "key s" ?b]
      by (simp only: curand_buffered curand_ok_def prod.case) (simp add: rng_pos_def rng_inv_def)
  qed
qed

text \<open>The pair of 64-bit words the skips compute with, as one 128-bit block number.\<close>

definition big :: "u64 \<Rightarrow> u64 \<Rightarrow> nat" where
  "big lo hi = unat lo + 18446744073709551616 * unat hi"

lemma big_less: "big lo hi < 2 ^ 128"
  using unat_u64_le [of lo] unat_u64_le [of hi] by (simp add: big_def)

lemma ctr_nat_big: "ctr_nat (block_of lo hi) = big lo hi"
  by (simp add: ctr_nat_block_of big_def)

lemma unat_add_u64: "unat (x + y :: u64) = (unat x + unat y) mod 18446744073709551616"
  by (simp add: unat_word_ariths)

lemma add_carry_u64: "(x :: u64) + k < x \<longleftrightarrow> 18446744073709551616 \<le> unat x + unat k"
  using unat_u64_le [of x] unat_u64_le [of k]
  by (auto simp: word_less_nat_alt unat_add_u64 mod_if)

lemma big_add:
  "big (lo + k) (hi + (if lo + k < lo then 1 else 0)) = (big lo hi + unat k) mod 2 ^ 128"
proof (cases "lo + k < lo")
  case False
  then have "unat lo + unat k < 18446744073709551616" by (simp add: add_carry_u64)
  moreover have "unat hi \<le> 18446744073709551615" by (rule unat_u64_le)
  ultimately show ?thesis by (simp add: False big_def unat_add_u64)
next
  case True
  then have c: "18446744073709551616 \<le> unat lo + unat k" by (simp add: add_carry_u64)
  have b: "unat hi \<le> 18446744073709551615" "unat lo \<le> 18446744073709551615"
    "unat k \<le> 18446744073709551615" by (rule unat_u64_le)+
  define l where "l = unat lo + unat k - 18446744073709551616"
  have l: "unat lo + unat k = l + 18446744073709551616" "l \<le> 18446744073709551614"
    using b c by (auto simp: l_def)
  have lo: "unat (lo + k) = l" using l by (simp add: unat_add_u64)
  have "big (lo + k) (hi + 1) = l + 18446744073709551616 * ((unat hi + 1) mod 18446744073709551616)"
    by (simp add: big_def lo unat_add_u64 [of hi 1])
  also have "\<dots> = (l + 18446744073709551616 * (unat hi + 1)) mod 2 ^ 128"
    using b(1) l(2) by (cases "unat hi = 18446744073709551615") auto
  also have "l + 18446744073709551616 * (unat hi + 1) = big lo hi + unat k"
    using l(1) by (simp add: big_def)
  finally show ?thesis using True by simp
qed

lemma big_succ: "big (lo + 1) (if lo + 1 = 0 then hi + 1 else hi) = (big lo hi + 1) mod 2 ^ 128"
proof -
  have "lo + 1 = 0 \<longleftrightarrow> lo + 1 < lo"
  proof -
    have "lo + 1 = 0 \<longleftrightarrow> lo = - 1" by (simp add: eq_neg_iff_add_eq_0)
    moreover have "lo = - 1 \<longleftrightarrow> unat lo = 18446744073709551615"
      by (metis unat_inject unat_minus_one_u64)
    ultimately show ?thesis
      using unat_u64_le [of lo] by (auto simp: add_carry_u64)
  qed
  then show ?thesis using big_add [of lo 1 hi] by (auto split: if_splits)
qed

lemma digit_mod: "l < m \<Longrightarrow> (l + m * x) mod (m * n) = l + m * (x mod n :: nat)"
  by (simp add: mod_mult2_eq)

lemma big_hi: "big lo (hi + n) = (big lo hi + 18446744073709551616 * unat n) mod 2 ^ 128"
proof -
  have "big lo hi + 18446744073709551616 * unat n
      = unat lo + 18446744073709551616 * (unat hi + unat n)"
    by (simp add: big_def)
  also have "\<dots> mod (18446744073709551616 * 18446744073709551616)
      = unat lo + 18446744073709551616 * ((unat hi + unat n) mod 18446744073709551616)"
    by (rule digit_mod) (rule unat_u64_less)
  also have "\<dots> = big lo (hi + n)" by (simp add: big_def unat_add_u64)
  finally show ?thesis by simp
qed

text \<open>Decomposing the state for a skip, and rebuilding it at another block and word.\<close>

lemma load_spec:
  assumes inv: "rng_inv s" and l: "mvcc_philox_load s = (lo, hi, w)"
  shows "w = STATE s" and "big lo hi = cur_block s"
proof -
  let ?lo = "join64 (ux (ctr s)) (uy (ctr s))" and ?hi = "join64 (uz (ctr s)) (uw (ctr s))"
  from inv have w: "STATE s AND 3 = STATE s" by (simp add: rng_inv_def STATE_and_3)
  show "w = STATE s" using l w by (auto simp: mvcc_philox_load_def Let_def split: if_splits)
  have c: "ctr_nat (ctr s) = big ?lo ?hi" by (simp add: ctr_nat_join64 big_def)
  show "big lo hi = cur_block s"
  proof (cases "STATE s = 0")
    case True
    with l w c show ?thesis by (simp add: mvcc_philox_load_def Let_def cur_block_def)
  next
    case False
    then have lohi: "lo = ?lo - 1" "hi = (if lo + 1 = 0 then ?hi - 1 else ?hi)"
      using l w by (auto simp: mvcc_philox_load_def Let_def)
    then have "big ?lo ?hi = big (lo + 1) (if lo + 1 = 0 then hi + 1 else hi)" by simp
    then have "ctr_nat (ctr s) = (big lo hi + 1) mod 2 ^ 128" by (simp only: c big_succ)
    then have "cur_block s = ((big lo hi + 1) mod 2 ^ 128 + (2 ^ 128 - 1)) mod 2 ^ 128"
      using False by (simp only: cur_block_def if_False)
    then show ?thesis using succ_prev_mod [OF big_less [of lo hi]] by simp
  qed
qed

lemma store_spec:
  assumes "w < 4"
  shows "rng_inv (mvcc_philox_store s lo hi w)"
    and "rng_pos (mvcc_philox_store s lo hi w) = 4 * big lo hi + unat w"
    and "key (mvcc_philox_store s lo hi w) = key s"
    and "boxmuller_flag (mvcc_philox_store s lo hi w) = 0"
proof -
  let ?s = "mvcc_philox_store s lo hi w"
  have w: "STATE ?s = w" by (simp add: mvcc_philox_store_def Let_def)
  have "ctr_nat (ctr ?s) = (if w = 0 then big lo hi else (big lo hi + 1) mod 2 ^ 128)"
    by (simp add: mvcc_philox_store_def Let_def ctr_nat_big big_succ del: One_nat_def)
  then have c: "cur_block ?s = big lo hi"
    using succ_prev_mod [OF big_less [of lo hi]] w
    by (cases "w = 0") (simp_all only: cur_block_def w if_True if_False simp_thms)
  have "nat_ctr (big lo hi) = block_of lo hi"
    by (simp only: ctr_nat_big [symmetric] nat_ctr_ctr_nat)
  moreover have "w \<noteq> 0 \<Longrightarrow> output4 ?s = mvcc_philox4x32_10 (block_of lo hi) (key ?s)"
    by (simp add: mvcc_philox_store_def Let_def)
  ultimately show "rng_inv ?s" using \<open>w < 4\<close> by (simp add: rng_inv_def c w)
  show "rng_pos ?s = 4 * big lo hi + unat w" by (simp add: rng_pos_def c w)
  show "key ?s = key s" and "boxmuller_flag ?s = 0"
    by (simp_all add: mvcc_philox_store_def Let_def)
qed

text \<open>The arithmetic of a skip: blocks and words of \<open>n\<close>, with the carry of the word index.\<close>

lemma div_4_add: "(m + k) div 4 = m div 4 + (k + m mod 4) div (4 :: nat)"
  by presburger

lemma skip_blocks:
  fixes n :: u64 and w :: u32
  assumes "w < 4"
  shows "unat (drop_bit 2 n + ucast (drop_bit 2 (w + ucast (n AND 3)))) = (unat n + unat w) div 4"
    and "unat ((w + ucast (n AND 3)) AND 3) = (unat n + unat w) mod 4"
proof -
  have w: "unat w < 4" using assms by (simp add: word_less_nat_alt)
  have n3: "unat (ucast (n AND 3) :: u32) = unat n mod 4"
    by (simp add: unat_ucast_u32 unat_and_3)
  have "unat w + unat n mod 4 < 2 ^ LENGTH(32)" using w by simp
  then have sum: "unat (w + ucast (n AND 3)) = unat w + unat n mod 4"
    by (simp only: n3 [symmetric] unat_add_small)
  have "(unat w + unat n mod 4) div 4 \<le> 1" using w by linarith
  then have bnd: "unat n div 4 + (unat w + unat n mod 4) div 4 < 18446744073709551616"
    using unat_u64_le [of n] by linarith
  have "unat (drop_bit 2 n + ucast (drop_bit 2 (w + ucast (n AND 3))))
      = (unat n div 4 + (unat w + unat n mod 4) div 4) mod 18446744073709551616"
    by (simp only: unat_add_u64 unat_ucast_u64 unat_drop_bit_div unat_drop_bit_div32 sum
        power2_eq_square mult_2 numeral_Bit0 [symmetric])
  also have "\<dots> = (unat n + unat w) div 4"
    by (subst mod_less [OF bnd]) (rule div_4_add [symmetric])
  finally show "unat (drop_bit 2 n + ucast (drop_bit 2 (w + ucast (n AND 3)))) = (unat n + unat w) div 4" .
  show "unat ((w + ucast (n AND 3)) AND 3) = (unat n + unat w) mod 4"
    by (simp only: unat_and_3 sum) presburger
qed

lemma skipahead_ok:
  assumes inv: "rng_inv s"
  shows "rng_inv (skipahead n s)" and "key (skipahead n s) = key s"
    and "rng_pos (skipahead n s) = (rng_pos s + unat n) mod 2 ^ 130"
proof -
  obtain lo hi w where l: "mvcc_philox_load s = (lo, hi, w)" by (metis prod_cases3)
  note w = load_spec(1) [OF inv l] and B = load_spec(2) [OF inv l]
  from inv have w4: "w < 4" by (simp add: w rng_inv_def)
  define blocks where "blocks = drop_bit 2 n + ucast (drop_bit 2 (w + ucast (n AND 3)))"
  define wd where "wd = (w + ucast (n AND 3)) AND 3"
  have run: "skipahead n s = (if n = 0 then s else
      mvcc_philox_store s (lo + blocks) (hi + (if lo + blocks < lo then 1 else 0)) wd)"
    by (simp add: skipahead_def l Let_def blocks_def wd_def add.assoc)
  have wd: "unat wd = (unat n + unat w) mod 4" and bl: "unat blocks = (unat n + unat w) div 4"
    using skip_blocks [OF w4, of n] by (simp_all add: wd_def blocks_def)
  then have "wd < 4" by (simp add: word_less_nat_alt)
  note st = store_spec [OF this]
  have pos: "rng_pos s = 4 * big lo hi + unat w" by (simp add: rng_pos_def B w)
  have pos_less: "rng_pos s < 2 ^ 130"
    using inv cur_block_less [of s] by (simp add: rng_pos_def rng_inv_def word_less_nat_alt)
  show "rng_inv (skipahead n s)" and "key (skipahead n s) = key s"
    using inv by (simp_all add: run st)
  show "rng_pos (skipahead n s) = (rng_pos s + unat n) mod 2 ^ 130"
  proof (cases "n = 0")
    case True
    then show ?thesis using pos_less by (simp add: skipahead_def)
  next
    case False
    then have "rng_pos (skipahead n s) = 4 * ((big lo hi + unat blocks) mod 2 ^ 128) + unat wd"
      by (simp only: run if_False st(2) big_add)
    also have "\<dots> = (unat wd + 4 * (big lo hi + unat blocks)) mod (4 * 2 ^ 128)"
      using wd by (subst digit_mod) simp_all
    also have "unat wd + 4 * (big lo hi + unat blocks) = rng_pos s + unat n"
      unfolding pos wd bl by (simp add: distrib_left)
    finally show ?thesis by simp
  qed
qed

lemma skipahead_sequence_ok:
  assumes inv: "rng_inv s"
  shows "rng_inv (skipahead_sequence n s)" and "key (skipahead_sequence n s) = key s"
    and "rng_pos (skipahead_sequence n s) = (rng_pos s + 2 ^ 66 * unat n) mod 2 ^ 130"
proof -
  obtain lo hi w where l: "mvcc_philox_load s = (lo, hi, w)" by (metis prod_cases3)
  note w = load_spec(1) [OF inv l] and B = load_spec(2) [OF inv l]
  from inv have w4: "w < 4" by (simp add: w rng_inv_def)
  note st = store_spec [OF w4]
  have run: "skipahead_sequence n s = (if n = 0 then s else mvcc_philox_store s lo (hi + n) w)"
    by (simp add: skipahead_sequence_def l)
  have pos: "rng_pos s = 4 * big lo hi + unat w" by (simp add: rng_pos_def B w)
  have pos_less: "rng_pos s < 2 ^ 130"
    using inv cur_block_less [of s] by (simp add: rng_pos_def rng_inv_def word_less_nat_alt)
  show "rng_inv (skipahead_sequence n s)" and "key (skipahead_sequence n s) = key s"
    using inv by (simp_all add: run st)
  show "rng_pos (skipahead_sequence n s) = (rng_pos s + 2 ^ 66 * unat n) mod 2 ^ 130"
  proof (cases "n = 0")
    case True
    then show ?thesis using pos_less by (simp add: skipahead_sequence_def)
  next
    case False
    then have "rng_pos (skipahead_sequence n s)
        = unat w + 4 * ((big lo hi + 18446744073709551616 * unat n) mod 2 ^ 128)"
      by (simp only: run if_False st(2) big_hi)
    also have "\<dots> = (unat w + 4 * (big lo hi + 18446744073709551616 * unat n)) mod (4 * 2 ^ 128)"
      using w4 by (subst digit_mod) (simp_all add: word_less_nat_alt)
    also have "unat w + 4 * (big lo hi + 18446744073709551616 * unat n) = rng_pos s + 2 ^ 66 * unat n"
      by (simp add: pos)
    finally show ?thesis by simp
  qed
qed

subsection \<open>The interface: a positioned stream\<close>

text \<open>
  What a caller of the generator relies on: every draw returns the value at the position and
  moves one step, a skip only moves. Consuming \<open>n\<close> values, and skipping instead of consuming,
  are proved from the laws alone.
\<close>

locale positioned_stream =
  fixes draw :: "'s \<Rightarrow> 'o \<times> 's"
    and skip :: "nat \<Rightarrow> 's \<Rightarrow> 's"
    and pos :: "'s \<Rightarrow> nat"
    and seed_of :: "'s \<Rightarrow> 'k"
    and val :: "'k \<Rightarrow> nat \<Rightarrow> 'o"
    and ok :: "'s \<Rightarrow> bool"
    and period :: nat
    and max_skip :: nat
  assumes draw_val: "ok s \<Longrightarrow> draw s = (r, s') \<Longrightarrow> r = val (seed_of s) (pos s)"
    and draw_ok: "ok s \<Longrightarrow> draw s = (r, s') \<Longrightarrow> ok s'"
    and draw_seed: "ok s \<Longrightarrow> draw s = (r, s') \<Longrightarrow> seed_of s' = seed_of s"
    and draw_pos: "ok s \<Longrightarrow> draw s = (r, s') \<Longrightarrow> pos s' = (pos s + 1) mod period"
    and skip_ok: "ok s \<Longrightarrow> n < max_skip \<Longrightarrow> ok (skip n s)"
    and skip_seed: "ok s \<Longrightarrow> n < max_skip \<Longrightarrow> seed_of (skip n s) = seed_of s"
    and skip_pos: "ok s \<Longrightarrow> n < max_skip \<Longrightarrow> pos (skip n s) = (pos s + n) mod period"
    and pos_less: "ok s \<Longrightarrow> pos s < period"
begin

lemma draws_spec:
  "ok s \<Longrightarrow> ok (snd (repeat_step draw n s)) \<and> seed_of (snd (repeat_step draw n s)) = seed_of s
     \<and> pos (snd (repeat_step draw n s)) = (pos s + n) mod period
     \<and> fst (repeat_step draw n s) = map (\<lambda>i. val (seed_of s) ((pos s + i) mod period)) [0..<n]"
proof (induction n arbitrary: s)
  case 0
  then show ?case using pos_less by simp
next
  case (Suc n)
  obtain r t where d: "draw s = (r, t)" by fastforce
  note t = draw_val [OF Suc.prems d] draw_ok [OF Suc.prems d] draw_seed [OF Suc.prems d]
    draw_pos [OF Suc.prems d]
  from Suc.IH [OF t(2)] have
    IH: "ok (snd (repeat_step draw n t))" "seed_of (snd (repeat_step draw n t)) = seed_of s"
      "pos (snd (repeat_step draw n t)) = (pos s + Suc n) mod period"
      "fst (repeat_step draw n t) = map (\<lambda>i. val (seed_of s) ((pos s + Suc i) mod period)) [0..<n]"
    by (simp_all add: t mod_simps)
  have "fst (repeat_step draw n t) = map (\<lambda>i. val (seed_of s) ((pos s + i) mod period)) [Suc 0..<Suc n]"
    unfolding IH(4) by (rule map_shift_upt)
  moreover have "[0..<Suc n] = 0 # [Suc 0..<Suc n]" by (simp add: upt_conv_Cons)
  moreover have "pos s mod period = pos s" using pos_less [OF Suc.prems] by simp
  ultimately show ?case using IH(1-3) t(1) by (simp add: d case_prod_beta)
qed

lemma skip_then_draws:
  assumes "ok s" and "n < max_skip"
  shows "fst (repeat_step draw m (skip n s)) = drop n (fst (repeat_step draw (n + m) s))"
proof -
  have shift: "((pos s + n) mod period + i) mod period = (pos s + (n + i)) mod period" for i
    by (simp add: mod_simps add.assoc)
  have skip: "fst (repeat_step draw m (skip n s))
      = map (\<lambda>i. val (seed_of s) ((pos s + (n + i)) mod period)) [0..<m]"
    using draws_spec [OF skip_ok [OF assms], of m]
    by (simp only: skip_seed [OF assms] skip_pos [OF assms] shift)
  have all: "fst (repeat_step draw (n + m) s) = map (\<lambda>i. val (seed_of s) ((pos s + i) mod period)) [0..<n + m]"
    using draws_spec [OF assms(1), of "n + m"] by blast
  show ?thesis
    unfolding skip all by (rule nth_equalityI) simp_all
qed

end

text \<open>The generator of the source provides the interface: a skip of the model takes the
  64-bit argument of \<open>skipahead\<close>.\<close>

lemma rng_pos_less: "rng_inv s \<Longrightarrow> rng_pos s < 2 ^ 130"
  using cur_block_less [of s] by (simp add: rng_pos_def rng_inv_def word_less_nat_alt)

interpretation philox: positioned_stream
  curand "\<lambda>n. skipahead (of_nat n)" rng_pos key out_at rng_inv "2 ^ 130" "2 ^ 64"
proof unfold_locales
  fix s s' :: "'f philox_state" and r
  assume inv: "rng_inv s" and run: "curand s = (r, s')"
  from curand_ok [OF inv] run have "curand_ok s (r, s')" by simp
  then show "r = out_at (key s) (rng_pos s)" and "rng_inv s'" and "key s' = key s"
    and "rng_pos s' = (rng_pos s + 1) mod 2 ^ 130"
    by (simp_all add: curand_ok_def)
next
  fix s :: "'f philox_state" and n :: nat
  assume inv: "rng_inv s" and n: "n < 2 ^ 64"
  have "unat (of_nat n :: u64) = n"
    using n by (simp add: unsigned_of_nat take_bit_nat_eq_self)
  then show "rng_inv (skipahead (of_nat n) s)" and "key (skipahead (of_nat n) s) = key s"
    and "rng_pos (skipahead (of_nat n) s) = (rng_pos s + n) mod 2 ^ 130"
    using skipahead_ok [OF inv, of "of_nat n"] by simp_all
qed (rule rng_pos_less)

subsection \<open>Theorems about the generator\<close>

text \<open>C13: on a state that satisfies the buffer invariant, \<open>n\<close> draws of \<open>curand\<close> return the
  outputs of the key at the current position and the \<open>n - 1\<close> after it, keep the invariant and the
  key, and move the position \<open>n\<close> steps, modulo the period \<open>2 ^ 130\<close>, wherever in a block of four
  words the draws start and however many blocks they take.\<close>

theorem curand_reads_stream:
  assumes "rng_inv s" and "repeat_step curand n s = (rs, s')"
  shows "rs = map (\<lambda>i. out_at (key s) ((rng_pos s + i) mod 2 ^ 130)) [0..<n] \<and> rng_inv s' \<and> key s' = key s
    \<and> rng_pos s' = (rng_pos s + n) mod 2 ^ 130"
  using philox.draws_spec [OF assms(1), of n] by (simp add: assms(2))

text \<open>The state of \<open>curand_init\<close> is one.\<close>

lemma curand_init_ok:
  "rng_inv (curand_init zf seed sub off)"
  "key (curand_init zf seed sub off) = \<lparr>key_x = lo32 seed, key_y = hi32 seed\<rparr>"
  "rng_pos (curand_init zf seed sub off) = (2 ^ 66 * unat sub + unat off) mod 2 ^ 130"
proof -
  let ?s = "\<lparr>ctr = \<lparr>ux = 0, uy = 0, uz = 0, uw = 0\<rparr>,
        output4 = \<lparr>ux = 0, uy = 0, uz = 0, uw = 0\<rparr>,
        key = \<lparr>key_x = lo32 seed, key_y = hi32 seed\<rparr>,
        STATE = 0, boxmuller_flag = 0, boxmuller_extra = zf\<rparr>"
  have inv: "rng_inv ?s" and pos: "rng_pos ?s = 0"
    by (simp_all add: rng_inv_def rng_pos_def cur_block_def ctr_nat_def)
  note seq = skipahead_sequence_ok [OF inv, of sub]
  note sk = skipahead_ok [OF seq(1), of off]
  show "rng_inv (curand_init zf seed sub off)"
    by (simp only: curand_init_def sk)
  show "key (curand_init zf seed sub off) = \<lparr>key_x = lo32 seed, key_y = hi32 seed\<rparr>"
    by (simp add: curand_init_def sk seq)
  show "rng_pos (curand_init zf seed sub off) = (2 ^ 66 * unat sub + unat off) mod 2 ^ 130"
    by (simp only: curand_init_def sk seq pos mod_add_left_eq add_0)
qed

theorem curand_reads_stream_witness:
  "\<exists>rs s'. repeat_step curand 5 (curand_init (0 :: nat) 7 1 6) = (rs, s') \<and> length rs = 5 \<and>
     rs ! 4 = out_at \<lparr>key_x = 7, key_y = 0\<rparr> (2 ^ 66 + 10) \<and> rng_inv s' \<and> rng_pos s' = 2 ^ 66 + 11"
proof -
  obtain rs s' where run: "repeat_step curand 5 (curand_init (0 :: nat) 7 1 6) = (rs, s')" by fastforce
  have "key (curand_init (0 :: nat) 7 1 6) = \<lparr>key_x = 7, key_y = 0\<rparr>"
    unfolding curand_init_ok(2) by (simp add: lo32_def hi32_def)
  with curand_reads_stream [OF curand_init_ok(1) run] run show ?thesis
    by (simp add: curand_init_ok(3))
qed

text \<open>C15: \<open>skipahead n\<close> is equivalent to discarding \<open>n\<close> outputs: the draws that follow it are
  those of the unskipped state with the first \<open>n\<close> dropped, across block and counter-word
  boundaries alike.\<close>

theorem skipahead_discards:
  assumes "rng_inv s"
  shows "fst (repeat_step curand m (skipahead n s))
    = drop (unat n) (fst (repeat_step curand (unat n + m) s))"
proof -
  have "unat n < 2 ^ 64" by simp
  from philox.skip_then_draws [OF assms this, of m] show ?thesis by simp
qed

theorem skipahead_discards_witness:
  "fst (repeat_step curand 3 (skipahead 5 (curand_init (0 :: nat) 7 1 6)))
    = drop 5 (fst (repeat_step curand (5 + 3) (curand_init (0 :: nat) 7 1 6)))"
  using skipahead_discards [OF curand_init_ok(1), of 3 5 0 7 1 6] by simp

text \<open>\<open>curand_init\<close> leaves a state that satisfies the invariant, positioned at output
  \<open>offset\<close> of subsequence number \<open>subsequence\<close>, each subsequence being \<open>2 ^ 66\<close> outputs, with the
  seed split into the two key words.\<close>

lemma curand_init_position:
  "rng_inv (curand_init zf seed sub off)
    \<and> rng_pos (curand_init zf seed sub off) = (2 ^ 66 * unat sub + unat off) mod 2 ^ 130
    \<and> join64 (key_x (key (curand_init zf seed sub off))) (key_y (key (curand_init zf seed sub off)))
      = seed"
  by (simp add: curand_init_ok)

text \<open>The host fill writes exactly the outputs \<open>offset, offset + 1, \<dots>\<close> of the seed's first
  subsequence; no wrap-around can occur, since \<open>offset + n < 2 ^ 65\<close>.\<close>

lemma mvcc_philox_fill_stream:
  "mvcc_philox_fill zf seed off n
    = map (\<lambda>i. out_at \<lparr>key_x = lo32 seed, key_y = hi32 seed\<rparr> (unat off + i)) [0..<unat n]"
proof -
  have small: "unat off + i < 2 ^ 130" if "i < unat n" for i
    using that unat_u64_le [of off] unat_u64_le [of n] by simp
  have pos: "rng_pos (curand_init zf seed 0 off) = unat off"
    using unat_u64_le [of off] by (simp add: curand_init_ok(3))
  have "fst (repeat_step curand (unat n) (curand_init zf seed 0 off))
      = map (\<lambda>i. out_at (key (curand_init zf seed 0 off)) ((unat off + i) mod 2 ^ 130)) [0..<unat n]"
    using philox.draws_spec [OF curand_init_ok(1), of "unat n" zf seed 0 off] by (simp only: pos)
  also have "\<dots> = map (\<lambda>i. out_at \<lparr>key_x = lo32 seed, key_y = hi32 seed\<rparr> (unat off + i)) [0..<unat n]"
    by (rule map_cong) (use small in \<open>simp_all add: curand_init_ok(2)\<close>)
  finally show ?thesis by (simp add: mvcc_philox_fill_def)
qed

text \<open>\<open>curand4\<close> returns the next four outputs in order and leaves the stream where four
  draws leave it, on the aligned path (a whole block, nothing buffered) and on the other.\<close>

lemma curand4_four_draws:
  assumes "rng_inv s" and "curand4 s = (b, s')"
  shows "[ux b, uy b, uz b, uw b] = fst (repeat_step curand 4 s) \<and> rng_inv s'
    \<and> key s' = key s \<and> rng_pos s' = rng_pos (snd (repeat_step curand 4 s))"
proof (cases "STATE s AND 3 = 0")
  case True
  have S: "STATE s = 0" using True assms(1) by (simp add: rng_inv_def STATE_and_3)
  let ?p = "mvcc_philox4x32_10 (ctr s) (key s)"
  from True assms(2) have b: "b = ?p" and s': "s' = s\<lparr>ctr := mvcc_philox_bump (ctr s)\<rparr>"
    by (simp_all add: curand4_def)
  have four: "repeat_step curand 4 s = ([ux ?p, uy ?p, uz ?p, uw ?p],
      s\<lparr>output4 := ?p, ctr := mvcc_philox_bump (ctr s), STATE := 0\<rparr>)"
    by (simp add: numeral_eq_Suc curand_fresh [OF S] curand_buffered)
  show ?thesis
    by (simp only: four) (simp add: b s' S rng_inv_def rng_pos_def cur_block_def)
next
  case False
  have run: "repeat_step curand 4 s = ([ux b, uy b, uz b, uw b], s')"
    using False assms(2)
    by (simp add: curand4_def numeral_eq_Suc case_prod_beta Let_def) auto
  from philox.draws_spec [OF assms(1), of 4] show ?thesis by (simp only: run) simp
qed

theorem curand4_four_draws_witness:
  "\<exists>b s'. curand4 (curand_init (0 :: nat) 7 0 6) = (b, s') \<and>
     [ux b, uy b, uz b, uw b] = fst (repeat_step curand 4 (curand_init (0 :: nat) 7 0 6))"
proof -
  obtain b s' where run: "curand4 (curand_init (0 :: nat) 7 0 6) = (b, s')" by fastforce
  from curand4_four_draws [OF curand_init_ok(1) run] run show ?thesis by blast
qed

text \<open>One round can be undone: both multipliers are odd, hence invertible modulo \<open>2 ^ 32\<close>.\<close>

lemma unat_mult_u64: "unat (x * y :: u64) = (unat x * unat y) mod 18446744073709551616"
  by (simp add: unat_word_ariths)

lemma unat_mult_u32: "unat (x * y :: u32) = (unat x * unat y) mod 2 ^ 32"
  by (simp add: unat_word_ariths)

lemma lo32_mult: "lo32 ((ucast m :: u64) * ucast x) = m * x"
proof (rule unat_inject)
  have "n mod 18446744073709551616 mod 2 ^ 32 = n mod 2 ^ 32" for n :: nat
    by (rule mod_mod_cancel) simp
  then show "unat (lo32 ((ucast m :: u64) * ucast x)) = unat (m * x)"
    by (simp only: unat_lo32 unat_mult_u64 unat_mult_u32 unat_ucast_u64)
qed

lemma mult_cancel_inverse:
  fixes m i :: u32
  assumes "i * m = 1"
  shows "m * x = m * y \<longleftrightarrow> x = y"
proof
  assume "m * x = m * y"
  then have "i * (m * x) = i * (m * y)" by (rule arg_cong)
  then show "x = y" by (simp only: mult.assoc [symmetric] assms mult_1_left)
qed simp

lemma xor_cancel_left: "(a XOR x XOR k) = (a XOR y XOR k) \<longleftrightarrow> x = (y :: u32)"
proof
  have undo: "a XOR k XOR (a XOR z XOR k) = z" for z
    by (simp add: ac_simps)
  assume "(a XOR x XOR k) = (a XOR y XOR k)"
  then have "a XOR k XOR (a XOR x XOR k) = a XOR k XOR (a XOR y XOR k)" by simp
  then show "x = y" by (simp only: undo)
qed simp

lemma M0_inverse: "2568649947 * MVCC_PHILOX_M0 = 1"
  by (simp add: MVCC_PHILOX_M0_def)

lemma M1_inverse: "1836887655 * MVCC_PHILOX_M1 = 1"
  by (simp add: MVCC_PHILOX_M1_def)

lemma philox_round_inj:
  assumes "philox_round (c, k) = philox_round (d, k)"
  shows "c = d"
proof -
  from assms have z: "uz c = uz d" and x: "ux c = ux d"
    by (simp_all add: philox_round_def Let_def lo32_mult mult_cancel_inverse [OF M0_inverse]
        mult_cancel_inverse [OF M1_inverse])
  from assms have "uy c = uy d" and "uw c = uw d"
    by (simp_all add: philox_round_def Let_def x z xor_cancel_left)
  with x z show ?thesis by simp
qed

lemma snd_philox_round: "snd (philox_round (c, k)) = snd (philox_round (d, k))"
  by (simp add: philox_round_def Let_def)

lemma philox_loop_inj: "fst (philox_loop n (c, k)) = fst (philox_loop n (d, k)) \<Longrightarrow> c = d"
proof (induction n arbitrary: c d k)
  case 0
  then show ?case by simp
next
  case (Suc n)
  obtain c' k' where c: "philox_round (c, k) = (c', k')" by fastforce
  obtain d' where d: "philox_round (d, k) = (d', k')"
    using snd_philox_round [of d k c] c by (metis prod.collapse snd_conv)
  from Suc.prems have "fst (philox_loop n (c', k')) = fst (philox_loop n (d', k'))"
    by (simp add: c d)
  then have "c' = d'" by (rule Suc.IH)
  with c d show ?case by (metis philox_round_inj)
qed

text \<open>For a fixed key the block function is injective: two different counters never give
  the same four output words, so no block of a subsequence repeats another.\<close>

lemma mvcc_philox4x32_10_inj:
  "mvcc_philox4x32_10 c k = mvcc_philox4x32_10 d k \<longleftrightarrow> c = d"
  unfolding mvcc_philox4x32_10_def by (auto dest: philox_loop_inj)

text \<open>The published known-answer vectors of Philox4x32-10 (all-zero, all-one and the
  digits-of-pi counter and key) are what the ten rounds of the model compute.\<close>

lemma mvcc_philox4x32_10_known_answers:
  "mvcc_philox4x32_10 \<lparr>ux = 0, uy = 0, uz = 0, uw = 0\<rparr> \<lparr>key_x = 0, key_y = 0\<rparr>
     = \<lparr>ux = 0x6627e8d5, uy = 0xe169c58d, uz = 0xbc57ac4c, uw = 0x9b00dbd8\<rparr>
   \<and> mvcc_philox4x32_10 \<lparr>ux = 0xffffffff, uy = 0xffffffff, uz = 0xffffffff, uw = 0xffffffff\<rparr>
        \<lparr>key_x = 0xffffffff, key_y = 0xffffffff\<rparr>
     = \<lparr>ux = 0x408f276d, uy = 0x41c83b0e, uz = 0xa20bc7c6, uw = 0x6d5451fd\<rparr>
   \<and> mvcc_philox4x32_10 \<lparr>ux = 0x243f6a88, uy = 0x85a308d3, uz = 0x13198a2e, uw = 0x03707344\<rparr>
        \<lparr>key_x = 0xa4093822, key_y = 0x299f31d0\<rparr>
     = \<lparr>ux = 0xd16cfe09, uy = 0x94fdcceb, uz = 0x5001e420, uw = 0x24126ea1\<rparr>"
  by code_simp

end
