(* ===== verification/CppString.thy ===== *)
theory CppString
  imports Prelude "HOL-Library.Char_ord" "HOL-Library.Sublist"
begin

text \<open>
  The parts of the C++ standard library on \<open>std::string\<close> that the text formats of the compiler
  rest on: \<open>std::to_string\<close> of an unsigned value, \<open>std::stoul\<close> with its two exceptions, token
  extraction from a \<open>std::istringstream\<close>, \<open>find\<close> of a substring, and the prefix test
  \<open>s.rfind(p, 0) == 0\<close>. A \<open>std::string\<close> is the list of its bytes.
\<close>

named_theorems text_simps \<open>printing and scanning of the text formats\<close>

subsection \<open>Characters\<close>

definition isspace :: "char \<Rightarrow> bool" where
  "isspace c \<longleftrightarrow> c = CHR '' '' \<or> (9 \<le> (of_char c :: nat) \<and> (of_char c :: nat) \<le> 13)"

definition isdigit :: "char \<Rightarrow> bool" where
  "isdigit c \<longleftrightarrow> 48 \<le> (of_char c :: nat) \<and> (of_char c :: nat) \<le> 57"

definition digit_val :: "char \<Rightarrow> nat" where
  "digit_val c = of_char c - 48"

definition digit_char :: "nat \<Rightarrow> char" where
  "digit_char d = char_of (48 + d)"

lemma of_char_digit_char: "d < 10 \<Longrightarrow> (of_char (digit_char d) :: nat) = 48 + d"
  by (simp add: digit_char_def)

lemma isdigit_digit_char [text_simps]: "d < 10 \<Longrightarrow> isdigit (digit_char d)"
  by (simp add: isdigit_def of_char_digit_char)

lemma digit_val_digit_char [text_simps]: "d < 10 \<Longrightarrow> digit_val (digit_char d) = d"
  by (simp add: digit_val_def of_char_digit_char)

lemma isdigit_not_isspace: "isdigit c \<Longrightarrow> \<not> isspace c"
  by (auto simp: isdigit_def isspace_def)

subsection \<open>\<open>std::to_string\<close>\<close>

fun to_string :: "nat \<Rightarrow> string" where
  "to_string n = (if n < 10 then [digit_char n] else to_string (n div 10) @ [digit_char (n mod 10)])"

declare to_string.simps [simp del]

definition digits_val :: "string \<Rightarrow> nat" where
  "digits_val s = foldl (\<lambda>v c. 10 * v + digit_val c) 0 s"

lemma digits_val_snoc [text_simps]: "digits_val (s @ [c]) = 10 * digits_val s + digit_val c"
  by (simp add: digits_val_def)

lemma to_string_digits: "c \<in> set (to_string n) \<Longrightarrow> isdigit c"
proof (induction n rule: to_string.induct)
  case (1 n)
  show ?case
  proof (cases "n < 10")
    case True
    with 1 show ?thesis by (simp add: to_string.simps [of n] text_simps)
  next
    case False
    then have s: "to_string n = to_string (n div 10) @ [digit_char (n mod 10)]"
      by (simp add: to_string.simps [of n])
    from 1(2) consider "c \<in> set (to_string (n div 10))" | "c = digit_char (n mod 10)"
      by (auto simp: s)
    then show ?thesis
      using 1(1) [OF False] isdigit_digit_char [of "n mod 10"] by cases simp_all
  qed
qed

lemma to_string_nonempty [simp]: "to_string n \<noteq> []"
  by (simp add: to_string.simps [of n])

lemma digits_val_to_string [text_simps]: "digits_val (to_string n) = n"
proof (induction n rule: to_string.induct)
  case (1 n)
  show ?case
  proof (cases "n < 10")
    case True
    then show ?thesis
      by (simp add: to_string.simps [of n] digits_val_def digit_val_digit_char)
  next
    case False
    have "digits_val (to_string n) = 10 * digits_val (to_string (n div 10)) + n mod 10"
      using False by (simp add: to_string.simps [of n] digits_val_snoc digit_val_digit_char)
    with 1 [OF False] show ?thesis by simp
  qed
qed

lemma to_string_inject [simp]: "to_string m = to_string n \<longleftrightarrow> m = n"
  by (metis digits_val_to_string)

lemma to_string_no_space: "c \<in> set (to_string n) \<Longrightarrow> \<not> isspace c"
  by (rule isdigit_not_isspace) (rule to_string_digits)

subsection \<open>\<open>std::stoul\<close>\<close>

datatype cpp_exception = Invalid_argument | Out_of_range

text \<open>\<open>strtoul\<close> in base ten: white space, an optional sign, the longest run of digits. No digit is
  \<open>std::invalid_argument\<close>, a value above \<open>ULONG_MAX\<close> is \<open>std::out_of_range\<close>, a minus sign negates in
  the unsigned type; what follows the digits is ignored.\<close>

definition stoul :: "string \<Rightarrow> cpp_exception + u64" where
  "stoul s =
     (let s = dropWhile isspace s;
          neg = (s \<noteq> [] \<and> hd s = CHR ''-'');
          s = (if s \<noteq> [] \<and> (hd s = CHR ''-'' \<or> hd s = CHR ''+'') then tl s else s);
          ds = takeWhile isdigit s;
          v = digits_val ds
      in if ds = [] then Inl Invalid_argument
         else if 18446744073709551615 < v then Inl Out_of_range
         else Inr (if neg then - of_nat v else of_nat v))"

lemma takeWhile_to_string:
  "(s = [] \<or> \<not> isdigit (hd s)) \<Longrightarrow> takeWhile isdigit (to_string n @ s) = to_string n"
proof -
  assume s: "s = [] \<or> \<not> isdigit (hd s)"
  have "takeWhile isdigit (to_string n @ s) = to_string n @ takeWhile isdigit s"
    by (rule takeWhile_append2) (rule to_string_digits)
  also have "takeWhile isdigit s = []"
    using s by (cases s) simp_all
  finally show ?thesis by simp
qed

lemma hd_to_string: "isdigit (hd (to_string n))"
  by (rule to_string_digits [of _ n]) simp

lemma hd_to_string_not [simp]: "hd (to_string n) \<noteq> CHR ''-''" "hd (to_string n) \<noteq> CHR ''+''"
  "hd (to_string n) \<noteq> CHR '' ''" "hd (to_string n) \<noteq> CHR ''*''"
  using hd_to_string [of n] by (auto simp: isdigit_def)

lemma dropWhile_isspace_to_string: "dropWhile isspace (to_string n @ s) = to_string n @ s"
proof (cases "to_string n")
  case (Cons c r)
  then have "\<not> isspace c"
    using isdigit_not_isspace [OF hd_to_string [of n]] by simp
  with Cons show ?thesis by simp
qed simp

lemma stoul_to_string [text_simps]:
  assumes "n \<le> 18446744073709551615"
  shows "stoul (to_string n) = Inr (of_nat n)"
proof -
  have tw: "takeWhile isdigit (to_string n) = to_string n"
    using takeWhile_to_string [of "[]" n] by (simp only: append_Nil2) simp
  show ?thesis
    using dropWhile_isspace_to_string [of n "[]"] assms
    by (simp add: stoul_def Let_def digits_val_to_string tw)
qed

text \<open>\<open>(unsigned)std::stoul(s)\<close>.\<close>

definition stoul_unsigned :: "string \<Rightarrow> cpp_exception + u32" where
  "stoul_unsigned s = (case stoul s of Inl e \<Rightarrow> Inl e | Inr v \<Rightarrow> Inr (ucast v))"

lemma ucast_u64_u32: "ucast (ucast w :: u64) = (w :: u32)"
  by (rule unat_inject) (simp add: unat_ucast_u32)

lemma stoul_unsigned_to_string [text_simps]: "stoul_unsigned (to_string (unat (w :: u32))) = Inr w"
  using unat_u32_le [of w]
  by (simp add: stoul_unsigned_def stoul_to_string ucast_u64_u32)

subsection \<open>Token extraction: \<open>is >> tok\<close>\<close>

definition read_token :: "string \<Rightarrow> (string \<times> string) option" where
  "read_token s =
     (let s = dropWhile isspace s
      in if s = [] then None
         else Some (takeWhile (\<lambda>c. \<not> isspace c) s, dropWhile (\<lambda>c. \<not> isspace c) s))"

lemma read_token_shorter: "read_token s = Some (t, r) \<Longrightarrow> length r < length s"
proof -
  assume a: "read_token s = Some (t, r)"
  define u where "u = dropWhile isspace s"
  have le: "length u \<le> length s"
    unfolding u_def by (rule length_dropWhile_le)
  from a have u: "u \<noteq> []" "r = dropWhile (\<lambda>c. \<not> isspace c) u"
    by (auto simp: read_token_def u_def Let_def split: if_splits)
  then have "\<not> isspace (hd u)"
    using hd_dropWhile [of isspace s] by (simp add: u_def)
  with u have "r = dropWhile (\<lambda>c. \<not> isspace c) (tl u)"
    by (cases u) simp_all
  then have "length r \<le> length (tl u)"
    by (simp only: length_dropWhile_le)
  with u(1) le show ?thesis by (cases u) simp_all
qed

text \<open>\<open>while (is >> tok)\<close>: all the tokens that are left.\<close>

function tokens :: "string \<Rightarrow> string list" where
  "tokens s = (case read_token s of None \<Rightarrow> [] | Some (t, r) \<Rightarrow> t # tokens r)"
  by pat_completeness auto
termination
  by (relation "measure length") (auto dest: read_token_shorter)

declare tokens.simps [simp del]

text \<open>A word that survives printing and token extraction.\<close>

definition is_token :: "string \<Rightarrow> bool" where
  "is_token t \<longleftrightarrow> t \<noteq> [] \<and> (\<forall>c \<in> set t. \<not> isspace c)"

lemma is_token_to_string [text_simps]: "is_token (to_string n)"
  by (simp add: is_token_def to_string_no_space)

lemma is_token_append: "is_token s \<Longrightarrow> (\<forall>c \<in> set t. \<not> isspace c) \<Longrightarrow> is_token (s @ t)"
  by (auto simp: is_token_def)

lemma read_token_nil [text_simps]: "read_token [] = None"
  by (simp add: read_token_def)

lemma isspace_blank [simp]: "isspace (CHR '' '')"
  by (simp add: isspace_def)

lemma read_token_blank [text_simps]: "read_token (CHR '' '' # s) = read_token s"
  by (simp add: read_token_def)

lemma read_token_word:
  assumes "is_token t" and "s = [] \<or> isspace (hd s)"
  shows "read_token (t @ s) = Some (t, s)"
proof -
  obtain c r where t: "t = c # r"
    using assms(1) by (cases t) (simp_all add: is_token_def)
  then have "dropWhile isspace (t @ s) = t @ s"
    using assms(1) by (simp add: is_token_def)
  moreover have "takeWhile (\<lambda>c. \<not> isspace c) (t @ s) = t"
  proof -
    have "takeWhile (\<lambda>c. \<not> isspace c) (t @ s) = t @ takeWhile (\<lambda>c. \<not> isspace c) s"
      using assms(1) by (intro takeWhile_append2) (simp add: is_token_def)
    then show ?thesis using assms(2) by (cases s) simp_all
  qed
  moreover have "dropWhile (\<lambda>c. \<not> isspace c) (t @ s) = s"
  proof -
    have "dropWhile (\<lambda>c. \<not> isspace c) (t @ s) = dropWhile (\<lambda>c. \<not> isspace c) s"
      using assms(1) by (intro dropWhile_append2) (simp add: is_token_def)
    then show ?thesis using assms(2) by (cases s) simp_all
  qed
  ultimately show ?thesis using t by (simp add: read_token_def)
qed

lemma tokens_nil [text_simps]: "tokens [] = []"
  by (simp add: tokens.simps [of "[]"] read_token_nil)

lemma tokens_blank [text_simps]: "tokens (CHR '' '' # s) = tokens s"
  by (simp add: tokens.simps [of "CHR '' '' # s"] tokens.simps [of s] read_token_blank)

lemma tokens_word [text_simps]: "is_token t \<Longrightarrow> tokens t = [t]"
  using read_token_word [of t "[]"] by (simp add: tokens.simps [of t] tokens_nil)

lemma tokens_word_blank [text_simps]: "is_token t \<Longrightarrow> tokens (t @ CHR '' '' # s) = t # tokens s"
  using read_token_word [of t "CHR '' '' # s"]
  by (simp add: tokens.simps [of "t @ CHR '' '' # s"] tokens_blank)

subsection \<open>Searching and prefixes\<close>

text \<open>\<open>s.find(p)\<close>: the first position, \<open>None\<close> for \<open>npos\<close>.\<close>

fun str_find :: "string \<Rightarrow> string \<Rightarrow> nat option" where
  "str_find [] p = (if p = [] then Some 0 else None)"
| "str_find (c # s) p = (if prefix p (c # s) then Some 0 else map_option Suc (str_find s p))"

text \<open>\<open>s.rfind(p, 0) == 0\<close>.\<close>

abbreviation starts :: "string \<Rightarrow> string \<Rightarrow> bool" where
  "starts s p \<equiv> prefix p s"

text \<open>\<open>s.substr(n)\<close> where the position is known to be in range, and \<open>s.substr(0, n)\<close>, are
  \<open>drop n s\<close> and \<open>take n s\<close>.\<close>

lemma str_find_sound: "str_find s p = Some n \<Longrightarrow> prefix p (drop n s) \<and> n \<le> length s"
  by (induction s p arbitrary: n rule: str_find.induct) (auto split: if_splits)

lemma str_find_complete: "prefix p (drop n s) \<Longrightarrow> n \<le> length s \<Longrightarrow> \<exists>m \<le> n. str_find s p = Some m"
proof (induction s p arbitrary: n rule: str_find.induct)
  case (1 p)
  then show ?case by simp
next
  case (2 c s p)
  show ?case
  proof (cases "prefix p (c # s)")
    case False
    with 2(2) obtain k where n: "n = Suc k" by (cases n) auto
    with 2 False obtain m where "m \<le> k" "str_find s p = Some m" by fastforce
    with False n show ?thesis by auto
  qed simp
qed

end
