(* ===== verification/Utf8.thy ===== *)
theory Utf8
  imports CppString
begin

text \<open>
  The byte and code point layer of the tokenizer of the qwen example
  (\<open>examples/qwen/tokenizer.hpp\<close>): the lenient UTF-8 decoder with the byte offsets of its code
  points, the binary search in a table of code point ranges, and the printer that holds back an
  incomplete sequence at the end of what it was fed.

  The lemmas show that the decoder inverts UTF-8, that its offsets cut any byte string into
  consecutive pieces, that the search decides membership in a sorted table, and that the printer
  loses and reorders nothing and holds back at most three bytes.
\<close>

subsection \<open>Decoding\<close>

text \<open>A byte as the \<open>uint32_t\<close> it is converted to.\<close>

abbreviation byte :: "char \<Rightarrow> u32" where
  "byte c \<equiv> of_char c"

text \<open>What the lead byte says: the payload bits it carries and the length of the sequence.\<close>

definition utf8_lead :: "char \<Rightarrow> u32 \<times> nat" where
  "utf8_lead c =
     (if byte c < 0x80 then (byte c, 1)
      else if drop_bit 5 (byte c) = 6 then (byte c AND 0x1f, 2)
      else if drop_bit 4 (byte c) = 14 then (byte c AND 0x0f, 3)
      else if drop_bit 3 (byte c) = 30 then (byte c AND 0x07, 4)
      else (0xfffd, 1))"

text \<open>\<open>for (k = 1; k < n && i + k < s.size(); ++k)\<close> on the bytes after the lead byte.\<close>

fun utf8_cont :: "nat \<Rightarrow> string \<Rightarrow> u32 \<Rightarrow> u32" where
  "utf8_cont 0 s cp = cp"
| "utf8_cont (Suc k) [] cp = cp"
| "utf8_cont (Suc k) (c # s) cp = utf8_cont k s (push_bit 6 cp OR (byte c AND 0x3f))"

lemma utf8_lead_pos: "0 < snd (utf8_lead c)"
  by (simp add: utf8_lead_def)

text \<open>The loop from byte \<open>i\<close> on, where \<open>s\<close> is the rest of the bytes: the code points and the offsets
  they start at.\<close>

function decode_from :: "nat \<Rightarrow> string \<Rightarrow> u32 list \<times> nat list" where
  "decode_from i [] = ([], [])"
| "decode_from i (c # s) =
     (let (cp, n) = utf8_lead c;
          cp = utf8_cont (n - 1) s cp;
          (cps, offs) = decode_from (i + n) (drop n (c # s))
      in (cp # cps, i # offs))"
  by pat_completeness auto
termination
proof (relation "measure (length o snd)", goal_cases)
  case (2 i c s x cp n y)
  then have "0 < n" using utf8_lead_pos [of c] by (metis snd_conv)
  then show ?case by (simp add: less_Suc_eq_le)
qed simp

definition decode_utf8 :: "string \<Rightarrow> u32 list \<times> nat list" where
  "decode_utf8 s = (let (cps, offs) = decode_from 0 s in (cps, offs @ [length s]))"

subsection \<open>Tables of code point ranges\<close>

text \<open>The search between \<open>lo\<close> and \<open>hi\<close>; \<open>hi\<close> never exceeds the size of the table.\<close>

function in_table_loop :: "(u32 \<times> u32) list \<Rightarrow> u32 \<Rightarrow> nat \<Rightarrow> nat \<Rightarrow> bool" where
  "in_table_loop t cp lo hi =
     (if lo < hi then
        let mid = (lo + hi) div 2 in
        if cp < fst (t ! mid) then in_table_loop t cp lo mid
        else if snd (t ! mid) < cp then in_table_loop t cp (mid + 1) hi
        else True
      else False)"
  by pat_completeness auto
termination by (relation "measure (\<lambda>(t, cp, lo, hi). hi - lo)") auto

declare in_table_loop.simps [simp del]

definition in_table :: "(u32 \<times> u32) list \<Rightarrow> u32 \<Rightarrow> bool" where
  "in_table t cp = in_table_loop t cp 0 (length t)"

subsection \<open>The printer\<close>

text \<open>The length \<open>Utf8Printer::feed\<close> takes a sequence to have.\<close>

definition seq_length :: "char \<Rightarrow> nat" where
  "seq_length c =
     (if byte c < 0x80 then 1
      else if drop_bit 5 (byte c) = 6 then 2
      else if drop_bit 4 (byte c) = 14 then 3
      else if drop_bit 3 (byte c) = 30 then 4
      else 1)"

lemma seq_length_pos: "0 < seq_length c"
  by (simp add: seq_length_def)

text \<open>How many bytes of what is pending make complete sequences.\<close>

function complete_bytes :: "string \<Rightarrow> nat" where
  "complete_bytes [] = 0"
| "complete_bytes (c # s) =
     (let n = seq_length c in
      if length (c # s) < n then 0 else n + complete_bytes (drop n (c # s)))"
  by pat_completeness auto
termination
proof (relation "measure length", goal_cases)
  case (2 c s n)
  then show ?case using seq_length_pos [of c] by (simp add: less_Suc_eq_le)
qed simp

text \<open>\<open>feed\<close> on the pending bytes: what is written to \<open>stdout\<close> and what stays pending.\<close>

definition feed :: "string \<Rightarrow> string \<Rightarrow> string \<times> string" where
  "feed pending bytes =
     (let p = pending @ bytes; i = complete_bytes p in (take i p, drop i p))"

text \<open>The printer over a sequence of calls: everything written, and what is pending at the end.\<close>

fun feed_all :: "string \<Rightarrow> string list \<Rightarrow> string \<times> string" where
  "feed_all pending [] = ([], pending)"
| "feed_all pending (b # bs) =
     (let (w, p) = feed pending b; (ws, q) = feed_all p bs in (w @ ws, q))"

subsection \<open>The offsets cut the bytes\<close>

text \<open>The offsets start at zero, increase, and end at the size.\<close>

definition cuts :: "nat \<Rightarrow> nat list \<Rightarrow> bool" where
  "cuts len offs \<longleftrightarrow> offs \<noteq> [] \<and> hd offs = 0 \<and> last offs = len \<and> sorted_wrt (<) offs"

lemma decode_from_offs:
  "decode_from i s = (cps, offs) \<Longrightarrow>
     length offs = length cps \<and> sorted_wrt (<) offs \<and> (\<forall>k \<in> set offs. i \<le> k \<and> k < i + length s) \<and>
     (s \<noteq> [] \<longrightarrow> offs \<noteq> [] \<and> hd offs = i)"
proof (induction i s arbitrary: cps offs rule: decode_from.induct)
  case (1 i)
  then show ?case by simp
next
  case (2 i c s)
  obtain cp n where l: "utf8_lead c = (cp, n)" by fastforce
  then have n: "0 < n" using utf8_lead_pos [of c] by simp
  obtain cps' offs' where r: "decode_from (i + n) (drop n (c # s)) = (cps', offs')" by fastforce
  from 2(2) have eq: "cps = utf8_cont (n - 1) s cp # cps'" "offs = i # offs'"
    using l r by (simp_all add: Let_def)
  have ih: "length offs' = length cps'" "sorted_wrt (<) offs'"
    "\<forall>k \<in> set offs'. i + n \<le> k \<and> k < i + n + length (drop n (c # s))"
    using 2(1) [OF l [symmetric] refl refl r] by auto
  have "k < i + length (c # s) \<and> i < k" if "k \<in> set offs'" for k
    using ih(3) that n by fastforce
  with ih eq show ?case by (auto simp: less_imp_le)
qed

lemma decode_utf8_cuts:
  assumes "decode_utf8 s = (cps, offs)"
  shows "length offs = Suc (length cps)" and "cuts (length s) offs"
proof -
  obtain offs' where d: "decode_from 0 s = (cps, offs')" and o: "offs = offs' @ [length s]"
    using assms by (auto simp: decode_utf8_def split: prod.splits)
  from decode_from_offs [OF d] have "length offs' = length cps" "sorted_wrt (<) offs'"
    "\<forall>k \<in> set offs'. k < length s" "s \<noteq> [] \<longrightarrow> offs' \<noteq> [] \<and> hd offs' = 0" by auto
  moreover from d have "s = [] \<Longrightarrow> offs' = []" by simp
  ultimately show "length offs = Suc (length cps)" "cuts (length s) offs"
    by (auto simp: o cuts_def hd_append sorted_wrt_append)
qed

subsection \<open>The decoder inverts UTF-8\<close>

text \<open>The encoding of RFC 3629, on values below \<open>2 ^ 21\<close>.\<close>

definition utf8_encode :: "nat \<Rightarrow> string" where
  "utf8_encode v =
     (if v < 0x80 then [char_of v]
      else if v < 0x800 then [char_of (0xC0 + v div 64), char_of (0x80 + v mod 64)]
      else if v < 0x10000
        then [char_of (0xE0 + v div 4096), char_of (0x80 + v div 64 mod 64), char_of (0x80 + v mod 64)]
      else [char_of (0xF0 + v div 262144), char_of (0x80 + v div 4096 mod 64),
            char_of (0x80 + v div 64 mod 64), char_of (0x80 + v mod 64)])"

lemma unat_byte: "unat (byte c) = of_char c"
proof -
  have "(of_char c :: nat) < 2 ^ 32" by (rule less_trans [of _ 256]) simp_all
  then have "take_bit 32 (of_char c :: nat) = of_char c" by (rule take_bit_nat_eq_self)
  moreover have "unat (of_nat (of_char c) :: u32) = take_bit 32 (of_char c)"
    by (simp only: unsigned_of_nat) simp
  ultimately show ?thesis by (simp only: of_nat_of_char)
qed

lemma unat_byte_char_of: "n < 256 \<Longrightarrow> unat (byte (char_of (n :: nat))) = n"
  by (simp add: unat_byte)

lemma unat_and_mask:
  "unat ((x :: u32) AND 0x07) = unat x mod 8" "unat (x AND 0x0f) = unat x mod 16"
  "unat (x AND 0x1f) = unat x mod 32" "unat (x AND 0x3f) = unat x mod 64"
proof -
  have m: "unat (x AND mask n) = unat x mod 2 ^ n" for n
  proof -
    have "unat (x AND mask n) = take_bit n (unat x)"
      by (simp only: take_bit_eq_mask [symmetric] unsigned_take_bit_eq)
    then show ?thesis by (simp only: take_bit_eq_mod)
  qed
  show "unat (x AND 0x07) = unat x mod 8" using m [of 3] by (simp add: mask_eq_exp_minus_1)
  show "unat (x AND 0x0f) = unat x mod 16" using m [of 4] by (simp add: mask_eq_exp_minus_1)
  show "unat (x AND 0x1f) = unat x mod 32" using m [of 5] by (simp add: mask_eq_exp_minus_1)
  show "unat (x AND 0x3f) = unat x mod 64" using m [of 6] by (simp add: mask_eq_exp_minus_1)
qed

lemma unat_push6_or:
  assumes "unat (x :: u32) < 2 ^ 26"
  shows "unat (push_bit 6 x OR (y AND 0x3f)) = 64 * unat x + unat y mod 64"
proof -
  have "y AND 0x3f = take_bit 6 y"
    by (simp add: take_bit_eq_mask mask_eq_exp_minus_1)
  then have plus: "push_bit 6 x OR (y AND 0x3f) = push_bit 6 x + (y AND 0x3f)"
    by (subst disjunctive_add) (auto simp: bit_push_bit_iff bit_take_bit_iff)
  have "unat (push_bit 6 x) = take_bit 32 (push_bit 6 (unat x))"
    by (simp only: unsigned_push_bit_eq) simp
  also have "\<dots> = 64 * unat x"
    using assms by (simp add: push_bit_eq_mult take_bit_nat_eq_self)
  finally have "unat (push_bit 6 x) = 64 * unat x" .
  then show ?thesis
    using assms unat_add_small [of "push_bit 6 x" "y AND 0x3f"] by (simp add: plus unat_and_mask)
qed

lemma utf8_lead_nat:
  "utf8_lead c =
     (let b = of_char c :: nat in
      if b < 128 then (of_nat b, 1)
      else if b div 32 = 6 then (of_nat (b mod 32), 2)
      else if b div 16 = 14 then (of_nat (b mod 16), 3)
      else if b div 8 = 30 then (of_nat (b mod 8), 4)
      else (0xfffd, 1))"
proof -
  have unat_eq: "x = y \<longleftrightarrow> unat x = unat y" for x y :: u32
    by (auto intro: unat_inject)
  have m: "byte c AND 0x1f = of_nat (of_char c mod 32)" "byte c AND 0x0f = of_nat (of_char c mod 16)"
    "byte c AND 0x07 = of_nat (of_char c mod 8)"
    by (rule unat_inject, simp add: unat_and_mask unat_byte unsigned_of_nat take_bit_nat_eq_self)+
  have d: "drop_bit 5 (byte c) = 6 \<longleftrightarrow> of_char c div 32 = (6 :: nat)"
    "drop_bit 4 (byte c) = 14 \<longleftrightarrow> of_char c div 16 = (14 :: nat)"
    "drop_bit 3 (byte c) = 30 \<longleftrightarrow> of_char c div 8 = (30 :: nat)"
    using unat_eq [of "drop_bit 5 (byte c)" 6] unat_eq [of "drop_bit 4 (byte c)" 14]
      unat_eq [of "drop_bit 3 (byte c)" 30]
    by (simp_all add: unat_drop_bit_div32 unat_byte)
  have "byte c < 0x80 \<longleftrightarrow> of_char c < (128 :: nat)"
    by (simp add: word_less_nat_alt unat_byte)
  then show ?thesis
    unfolding utf8_lead_def Let_def m d by (simp only: of_nat_of_char)
qed


text \<open>Reading one encoded value off the front.\<close>

lemma unat_of_nat_u32: "n < 2 ^ 32 \<Longrightarrow> unat (of_nat n :: u32) = n"
  by (simp add: unsigned_of_nat take_bit_nat_eq_self)

lemma base_split: "(r :: nat) < b \<Longrightarrow> (b * c + r) mod b = r" "(r :: nat) < b \<Longrightarrow> (b * c + r) div b = c"
  by simp_all

lemma unat_cont:
  assumes "unat (x :: u32) < 2 ^ 26" and "r < 64"
  shows "unat (push_bit 6 x OR (byte (char_of (0x80 + r)) AND 0x3f)) = 64 * unat x + r"
proof -
  have "unat (byte (char_of (0x80 + r))) = 0x80 + r"
    using assms(2) by (intro unat_byte_char_of) simp
  moreover have "(0x80 + r) mod 64 = r" using base_split [of r 64 2] assms(2) by simp
  ultimately show ?thesis by (simp only: unat_push6_or [OF assms(1)])
qed

text \<open>One more continuation byte appended to a value that is known.\<close>

lemma utf8_cont_step:
  assumes "x < 2 ^ 15" and "r < 64"
  shows "utf8_cont (Suc k) (char_of (0x80 + r) # s) (of_nat x) = utf8_cont k s (of_nat (64 * x + r))"
proof -
  have "unat (of_nat x :: u32) = x" "unat (of_nat (64 * x + r) :: u32) = 64 * x + r"
    using assms by (simp_all add: unat_of_nat_u32 del: of_nat_add of_nat_mult)
  then have "push_bit 6 (of_nat x) OR (byte (char_of (0x80 + r)) AND 0x3f) = of_nat (64 * x + r)"
    using unat_cont [of "of_nat x" r] assms by (intro unat_inject) simp
  then show ?thesis by (simp only: utf8_cont.simps)
qed

lemma lead_sequence:
  "q < 32 \<Longrightarrow> utf8_lead (char_of (0xC0 + q)) = (of_nat q, 2)"
  "q < 16 \<Longrightarrow> utf8_lead (char_of (0xE0 + q)) = (of_nat q, 3)"
  "q < 8 \<Longrightarrow> utf8_lead (char_of (0xF0 + q)) = (of_nat q, 4)"
proof -
  have b: "of_char (char_of n) = n" if "n < 256" for n :: nat using that by simp
  show "utf8_lead (char_of (0xC0 + q)) = (of_nat q, 2)" if "q < 32"
  proof -
    have n: "of_char (char_of (0xC0 + q)) = 0xC0 + q" using that by (intro b) simp
    have "\<not> 0xC0 + q < 128" "(0xC0 + q) div 32 = 6" "(0xC0 + q) mod 32 = q"
      using base_split [of q 32 6] that by simp_all
    then show ?thesis unfolding utf8_lead_nat Let_def n by (simp only: if_True if_False refl)
  qed
  show "utf8_lead (char_of (0xE0 + q)) = (of_nat q, 3)" if "q < 16"
  proof -
    have n: "of_char (char_of (0xE0 + q)) = 0xE0 + q" using that by (intro b) simp
    have "\<not> 0xE0 + q < 128" "(0xE0 + q) div 32 \<noteq> 6" "(0xE0 + q) div 16 = 14" "(0xE0 + q) mod 16 = q"
      using base_split [of q 32 7] base_split [of q 16 14] that by simp_all
    then show ?thesis unfolding utf8_lead_nat Let_def n by (simp only: if_True if_False refl)
  qed
  show "utf8_lead (char_of (0xF0 + q)) = (of_nat q, 4)" if "q < 8"
  proof -
    have n: "of_char (char_of (0xF0 + q)) = 0xF0 + q" using that by (intro b) simp
    have "\<not> 0xF0 + q < 128" "(0xF0 + q) div 32 \<noteq> 6" "(0xF0 + q) div 16 \<noteq> 14" "(0xF0 + q) div 8 = 30"
      "(0xF0 + q) mod 8 = q"
      using base_split [of "16 + q" 32 7] base_split [of q 16 15] base_split [of q 8 30] that by simp_all
    then show ?thesis unfolding utf8_lead_nat Let_def n by (simp only: if_True if_False refl)
  qed
qed

lemma decode_encode_step:
  assumes "v < 2 ^ 21"
  shows "decode_from i (utf8_encode v @ s) =
    (let (cps, offs) = decode_from (i + length (utf8_encode v)) s in (of_nat v # cps, i # offs))"
proof -
  let ?k = "\<lambda>r. char_of (0x80 + r :: nat)"
  have step: "decode_from i (c # t @ s) =
      (let (cps, offs) = decode_from (i + Suc (length t)) s in (of_nat v # cps, i # offs))"
    if "utf8_lead c = (of_nat x, Suc (length t))" "utf8_cont (length t) (t @ s) (of_nat x) = of_nat v" for c t x
    using that by (simp add: Let_def split: prod.split)
  consider (1) "v < 0x80" | (2) "0x80 \<le> v" "v < 0x800" | (3) "0x800 \<le> v" "v < 0x10000"
    | (4) "0x10000 \<le> v" by linarith
  then show ?thesis
  proof cases
    case 1
    then show ?thesis by (simp add: utf8_encode_def utf8_lead_nat Let_def)
  next
    case 2
    then have e: "utf8_encode v = char_of (0xC0 + v div 64) # [?k (v mod 64)]"
      by (simp add: utf8_encode_def)
    have "utf8_cont (Suc 0) (?k (v mod 64) # s) (of_nat (v div 64)) = of_nat v"
      using 2 by (subst utf8_cont_step) (simp_all del: of_nat_add of_nat_mult)
    then show ?thesis
      using 2 step [of "char_of (0xC0 + v div 64)" "v div 64" "[?k (v mod 64)]"] lead_sequence(1) [of "v div 64"]
      by (simp add: e)
  next
    case 3
    then have e: "utf8_encode v = char_of (0xE0 + v div 4096) # [?k (v div 64 mod 64), ?k (v mod 64)]"
      by (simp add: utf8_encode_def)
    have q: "64 * (v div 4096) + v div 64 mod 64 = v div 64"
      by (simp add: div_mult2_eq [of v 64 64, simplified])
    have a: "utf8_cont (Suc (Suc 0)) (?k (v div 64 mod 64) # ?k (v mod 64) # s) (of_nat (v div 4096))
        = utf8_cont (Suc 0) (?k (v mod 64) # s) (of_nat (64 * (v div 4096) + v div 64 mod 64))"
      using 3 by (intro utf8_cont_step) simp_all
    have b: "utf8_cont (Suc 0) (?k (v mod 64) # s) (of_nat (v div 64))
        = utf8_cont 0 s (of_nat (64 * (v div 64) + v mod 64))"
      using 3 by (intro utf8_cont_step) simp_all
    from a [unfolded q, unfolded b]
    have "utf8_cont (Suc (Suc 0)) (?k (v div 64 mod 64) # ?k (v mod 64) # s) (of_nat (v div 4096)) = of_nat v"
      by (simp del: of_nat_add of_nat_mult)
    then show ?thesis
      using 3 step [of "char_of (0xE0 + v div 4096)" "v div 4096" "[?k (v div 64 mod 64), ?k (v mod 64)]"]
        lead_sequence(2) [of "v div 4096"]
      by (simp add: e)
  next
    case 4
    then have e: "utf8_encode v
        = char_of (0xF0 + v div 262144) # [?k (v div 4096 mod 64), ?k (v div 64 mod 64), ?k (v mod 64)]"
      by (simp add: utf8_encode_def)
    have q: "64 * (v div 4096) + v div 64 mod 64 = v div 64"
      "64 * (v div 262144) + v div 4096 mod 64 = v div 4096"
      by (simp_all add: div_mult2_eq [of v 64 64, simplified] div_mult2_eq [of v 4096 64, simplified])
    have a: "utf8_cont (Suc (Suc (Suc 0))) (?k (v div 4096 mod 64) # ?k (v div 64 mod 64) # ?k (v mod 64) # s)
          (of_nat (v div 262144))
        = utf8_cont (Suc (Suc 0)) (?k (v div 64 mod 64) # ?k (v mod 64) # s)
            (of_nat (64 * (v div 262144) + v div 4096 mod 64))"
      using assms by (intro utf8_cont_step) simp_all
    have b: "utf8_cont (Suc (Suc 0)) (?k (v div 64 mod 64) # ?k (v mod 64) # s) (of_nat (v div 4096))
        = utf8_cont (Suc 0) (?k (v mod 64) # s) (of_nat (64 * (v div 4096) + v div 64 mod 64))"
      using assms by (intro utf8_cont_step) simp_all
    have c: "utf8_cont (Suc 0) (?k (v mod 64) # s) (of_nat (v div 64))
        = utf8_cont 0 s (of_nat (64 * (v div 64) + v mod 64))"
      using assms by (intro utf8_cont_step) simp_all
    from a [unfolded q b c] show ?thesis
      using assms step [of "char_of (0xF0 + v div 262144)" "v div 262144"
          "[?k (v div 4096 mod 64), ?k (v div 64 mod 64), ?k (v mod 64)]"]
        lead_sequence(3) [of "v div 262144"]
      by (simp add: e del: of_nat_add of_nat_mult)
  qed
qed

lemma decode_encode_from:
  "\<forall>v \<in> set vs. v < 2 ^ 21 \<Longrightarrow>
     fst (decode_from i (concat (map utf8_encode vs))) = map of_nat vs"
  by (induction vs arbitrary: i) (simp_all add: decode_encode_step Let_def case_prod_beta)

text \<open>Decoding the UTF-8 encoding of any sequence of code points gives the code points back.\<close>

lemma decode_utf8_encode:
  assumes "\<forall>v \<in> set vs. v < 0x110000"
  shows "fst (decode_utf8 (concat (map utf8_encode vs))) = map of_nat vs"
proof -
  have "\<forall>v \<in> set vs. v < 2 ^ 21" using assms by force
  then show ?thesis
    using decode_encode_from [of vs 0] by (simp add: decode_utf8_def case_prod_beta)
qed

theorem decode_utf8_encode_witness:
  "fst (decode_utf8 (concat (map utf8_encode [0x48, 0xE9, 0x20AC, 0x1F600]))) = [0x48, 0xE9, 0x20AC, 0x1F600]"
  using decode_utf8_encode [of "[0x48, 0xE9, 0x20AC, 0x1F600]"] by simp

subsection \<open>The search decides membership\<close>

definition sorted_table :: "(u32 \<times> u32) list \<Rightarrow> bool" where
  "sorted_table t \<longleftrightarrow> sorted_wrt (\<lambda>a b. snd a < fst b) t \<and> (\<forall>p \<in> set t. fst p \<le> snd p)"

lemma sorted_table_nth:
  "sorted_table t \<Longrightarrow> i < j \<Longrightarrow> j < length t \<Longrightarrow> snd (t ! i) < fst (t ! j)"
  by (simp add: sorted_table_def sorted_wrt_iff_nth_less)

lemma in_table_loop_iff:
  "sorted_table t \<Longrightarrow> hi \<le> length t \<Longrightarrow>
    in_table_loop t cp lo hi \<longleftrightarrow> (\<exists>i. lo \<le> i \<and> i < hi \<and> fst (t ! i) \<le> cp \<and> cp \<le> snd (t ! i))"
proof (induction t cp lo hi rule: in_table_loop.induct)
  case (1 t cp lo hi)
  define mid where "mid = (lo + hi) div 2"
  let ?in = "\<lambda>i. fst (t ! i) \<le> cp \<and> cp \<le> snd (t ! i)"
  have order: "snd (t ! i) < fst (t ! j)" if "i < j" "j < hi" for i j
    using sorted_table_nth [OF 1(3) that(1)] that(2) 1(4) by simp
  show ?case
  proof (cases "lo < hi")
    case False
    then show ?thesis by (simp add: in_table_loop.simps)
  next
    case True
    then have mid: "lo \<le> mid" "mid < hi" by (auto simp: mid_def)
    show ?thesis
    proof (cases "cp < fst (t ! mid)")
      case left: True
      have "\<not> ?in i" if "mid \<le> i" "i < hi" for i
      proof (cases "i = mid")
        case False
        with that have "snd (t ! mid) < fst (t ! i)" by (intro order) auto
        moreover have "fst (t ! mid) \<le> snd (t ! mid)"
          using 1(3,4) mid by (simp add: sorted_table_def)
        ultimately show ?thesis using left by auto
      qed (use left in auto)
      then have "(\<exists>i. lo \<le> i \<and> i < mid \<and> ?in i) \<longleftrightarrow> (\<exists>i. lo \<le> i \<and> i < hi \<and> ?in i)"
        using mid by (meson leI less_trans)
      then show ?thesis
        using 1(1) [OF True mid_def left 1(3)] 1(4) mid left True
        by (subst in_table_loop.simps) (simp add: mid_def [symmetric] Let_def)
    next
      case not_left: False
      show ?thesis
      proof (cases "snd (t ! mid) < cp")
        case right: True
        have not_in: "\<not> ?in i" if "i \<le> mid" for i
        proof (cases "i = mid")
          case False
          with that mid have "snd (t ! i) < fst (t ! mid)" by (intro order) auto
          with not_left show ?thesis by auto
        qed (use right in auto)
        have "(\<exists>i. mid + 1 \<le> i \<and> i < hi \<and> ?in i) \<longleftrightarrow> (\<exists>i. lo \<le> i \<and> i < hi \<and> ?in i)"
        proof
          assume "\<exists>i. mid + 1 \<le> i \<and> i < hi \<and> ?in i"
          then obtain i where "mid + 1 \<le> i" "i < hi" "?in i" by blast
          with mid show "\<exists>i. lo \<le> i \<and> i < hi \<and> ?in i" by (intro exI [of _ i]) simp
        next
          assume "\<exists>i. lo \<le> i \<and> i < hi \<and> ?in i"
          then obtain i where i: "i < hi" "?in i" by blast
          with not_in have "\<not> i \<le> mid" by blast
          with i show "\<exists>i. mid + 1 \<le> i \<and> i < hi \<and> ?in i" by (intro exI [of _ i]) simp
        qed
        then show ?thesis
          using 1(2) [OF True mid_def not_left right 1(3,4)] not_left right True
          by (subst in_table_loop.simps) (simp add: mid_def [symmetric] Let_def)
      next
        case False
        with not_left mid True show ?thesis
          by (subst in_table_loop.simps) (auto simp: mid_def [symmetric] Let_def not_less)
      qed
    qed
  qed
qed

text \<open>On a sorted table of disjoint ranges the binary search answers whether some range of the
  table holds the code point.\<close>

lemma in_table_iff:
  assumes "sorted_table t"
  shows "in_table t cp \<longleftrightarrow> (\<exists>(a, b) \<in> set t. a \<le> cp \<and> cp \<le> b)"
  using in_table_loop_iff [OF assms, of "length t" cp 0]
  by (simp add: in_table_def) (metis (no_types, lifting) case_prod_beta in_set_conv_nth)

theorem in_table_iff_witness:
  "in_table [(0x41, 0x5A), (0x61, 0x7A)] 0x62 \<and> \<not> in_table [(0x41, 0x5A), (0x61, 0x7A)] 0x60"
  using in_table_iff [of "[(0x41, 0x5A), (0x61, 0x7A)]"] by (simp add: sorted_table_def)

subsection \<open>The printer writes every complete sequence\<close>

lemma complete_bytes_le: "complete_bytes s \<le> length s"
proof (induction s rule: complete_bytes.induct)
  case (2 c s)
  then show ?case by (fastforce simp: Let_def)
qed simp

lemma seq_length_le: "seq_length c \<le> 4"
  by (simp add: seq_length_def)

lemma complete_bytes_rest: "length s - complete_bytes s \<le> 3"
proof (induction s rule: complete_bytes.induct)
  case (2 c s)
  show ?case
  proof (cases "length (c # s) < seq_length c")
    case True
    then show ?thesis using seq_length_le [of c] by (simp add: Let_def)
  next
    case False
    then show ?thesis using 2 [OF refl False] by (simp add: Let_def)
  qed
qed simp

text \<open>Bytes that arrive later do not change what was complete.\<close>

lemma complete_bytes_append:
  "complete_bytes (s @ t) = complete_bytes s + complete_bytes (drop (complete_bytes s) s @ t)"
proof (induction s rule: complete_bytes.induct)
  case (2 c s)
  let ?n = "seq_length c"
  show ?case
  proof (cases "length (c # s) < ?n")
    case True
    then show ?thesis by (simp add: Let_def)
  next
    case False
    then have "drop ?n (c # s @ t) = drop ?n (c # s) @ t"
      using drop_append [of ?n "c # s" t] by simp
    moreover have "drop (?n + k) (c # s) = drop k (drop ?n (c # s))" for k
      by (simp add: add.commute)
    ultimately show ?thesis using 2 [OF refl False] False by (simp add: Let_def)
  qed
qed simp

lemma take_drop_past:
  assumes "n \<le> length t"
  shows "take (n + k) (t @ u) = take n t @ take k (drop n t @ u)" and "drop (n + k) (t @ u) = drop k (drop n t @ u)"
proof -
  have "drop n (t @ u) = drop n t @ u" using assms by simp
  then show "take (n + k) (t @ u) = take n t @ take k (drop n t @ u)" "drop (n + k) (t @ u) = drop k (drop n t @ u)"
    using assms take_add [of n k "t @ u"] drop_drop [of k n "t @ u"] by (simp_all add: add.commute)
qed

lemma feed_all_split:
  "feed_all p bs = (let t = p @ concat bs; n = complete_bytes t in (take n t, drop n t))" if "complete_bytes p = 0" for p
  using that
proof (induction bs arbitrary: p)
  case Nil
  then show ?case by simp
next
  case (Cons b bs)
  let ?t = "p @ b" and ?n = "complete_bytes (p @ b)"
  have rest: "complete_bytes (drop ?n ?t) = 0"
    using complete_bytes_append [of ?t "[]"] by simp
  have "complete_bytes (?t @ concat bs) = ?n + complete_bytes (drop ?n ?t @ concat bs)"
    by (rule complete_bytes_append)
  then show ?case
    using Cons.IH [OF rest] take_drop_past [OF complete_bytes_le [of ?t], of _ "concat bs"]
    by (simp only: feed_all.simps feed_def Let_def split concat.simps append_assoc)
qed

text \<open>However the bytes are cut into calls, the printer has written the longest prefix of
  complete sequences of everything it was fed, keeps the rest, and never holds back more than three
  bytes.\<close>

lemma feed_all_complete:
  "let (written, pending) = feed_all [] bs; fed = concat bs
   in written = take (complete_bytes fed) fed \<and> written @ pending = fed \<and> length pending \<le> 3"
  using complete_bytes_rest [of "concat bs"] by (simp add: feed_all_split Let_def)

end
