(* ===== verification/Tokenizer.thy ===== *)
theory Tokenizer
  imports Utf8
begin

text \<open>
  The byte-level BPE tokenizer of the qwen example (\<open>examples/qwen/tokenizer.hpp\<close>): the state
  \<open>Tokenizer\<close>, the pre-tokenizer, the merge loop, \<open>encode\<close> and \<open>decode\<close>.

  The lemmas show that the hand-rolled pre-tokenizer is the Qwen2 split regex under the usual
  backtracking semantics, that its spans tile the text, that the merge loop ends with nothing left
  to merge and keeps the bytes, and that decoding what was encoded gives the text back.
\<close>

subsection \<open>The state\<close>

record tokenizer =
  pieces :: "string list"
  merge :: "u64 \<rightharpoonup> int \<times> int"
  specials :: "(int \<times> string) list"
  special_ids :: "string \<rightharpoonup> int"
  byte_id :: "char \<Rightarrow> int"
  letters :: "(u32 \<times> u32) list"
  marks :: "(u32 \<times> u32) list"
  numbers :: "(u32 \<times> u32) list"
  spaces :: "(u32 \<times> u32) list"

definition special :: "tokenizer \<Rightarrow> string \<Rightarrow> int" where
  "special T s = (case special_ids T s of None \<Rightarrow> - 1 | Some i \<Rightarrow> i)"

definition is_L :: "tokenizer \<Rightarrow> u32 \<Rightarrow> bool" where "is_L T c = in_table (letters T) c"
definition is_M :: "tokenizer \<Rightarrow> u32 \<Rightarrow> bool" where "is_M T c = in_table (marks T) c"
definition is_N :: "tokenizer \<Rightarrow> u32 \<Rightarrow> bool" where "is_N T c = in_table (numbers T) c"
definition is_S :: "tokenizer \<Rightarrow> u32 \<Rightarrow> bool" where "is_S T c = in_table (spaces T) c"

definition is_nl :: "u32 \<Rightarrow> bool" where
  "is_nl c \<longleftrightarrow> c = 0x0D \<or> c = 0x0A"

subsection \<open>The pre-tokenizer\<close>

text \<open>\<open>while (m < n && P(cp[m])) ++m;\<close>\<close>

function scan_while :: "(u32 \<Rightarrow> bool) \<Rightarrow> u32 list \<Rightarrow> nat \<Rightarrow> nat" where
  "scan_while P cp m = (if m < length cp \<and> P (cp ! m) then scan_while P cp (m + 1) else m)"
  by pat_completeness auto
termination by (relation "measure (\<lambda>(P, cp, m). length cp - m)") auto

declare scan_while.simps [simp del]

definition lower :: "u32 \<Rightarrow> u32" where
  "lower c = (if byte CHR ''A'' \<le> c \<and> c \<le> byte CHR ''Z'' then c + 32 else c)"

text \<open>Step 1, the contractions: the end of the token, or \<open>i\<close> itself.\<close>

definition contraction_end :: "u32 list \<Rightarrow> nat \<Rightarrow> nat" where
  "contraction_end cp i =
     (if cp ! i = 0x27 \<and> i + 1 < length cp then
        let a = lower (cp ! (i + 1));
            b = (if i + 2 < length cp then lower (cp ! (i + 2)) else 0)
        in if a = byte CHR ''s'' \<or> a = byte CHR ''t'' \<or> a = byte CHR ''m'' \<or> a = byte CHR ''d'' then i + 2
           else if a = byte CHR ''r'' \<and> b = byte CHR ''e'' \<or> a = byte CHR ''v'' \<and> b = byte CHR ''e''
                \<or> a = byte CHR ''l'' \<and> b = byte CHR ''l'' then i + 3
           else i
      else i)"

text \<open>The last line feed or carriage return of \<open>cp[i..m)\<close>, if any.\<close>

fun last_newline :: "u32 list \<Rightarrow> nat \<Rightarrow> nat \<Rightarrow> nat option" where
  "last_newline cp i 0 = None"
| "last_newline cp i (Suc m) =
     (if i \<le> m then if is_nl (cp ! m) then Some m else last_newline cp i m else None)"

text \<open>Steps 5 to 7: the end of the token that starts with the white space at \<open>i\<close>.\<close>

definition space_end :: "tokenizer \<Rightarrow> u32 list \<Rightarrow> nat \<Rightarrow> nat" where
  "space_end T cp i =
     (let m = scan_while (is_S T) cp i in
      case last_newline cp i m of
        Some last_nl \<Rightarrow> last_nl + 1
      | None \<Rightarrow>
        if m = length cp then m
        else if 1 < m - i then m - 1
        else m)"

text \<open>Steps 3 to 7 and the fallback.\<close>

definition other_end :: "tokenizer \<Rightarrow> u32 list \<Rightarrow> nat \<Rightarrow> nat" where
  "other_end T cp i =
     (if is_N T (cp ! i) then i + 1
      else
        let k = (if cp ! i = byte CHR '' '' then i + 1 else i);
            m = scan_while (\<lambda>c. \<not> is_S T c \<and> \<not> is_L T c \<and> \<not> is_M T c \<and> \<not> is_N T c) cp k
        in if k < m then scan_while is_nl cp m
           else if is_S T (cp ! i) then space_end T cp i
           else i + 1)"

text \<open>One iteration of the loop: where the token that starts at \<open>i\<close> ends.\<close>

definition pretok_end :: "tokenizer \<Rightarrow> u32 list \<Rightarrow> nat \<Rightarrow> nat" where
  "pretok_end T cp i =
     (let j = contraction_end cp i in
      if i < j then j
      else
        let lm = (\<lambda>c. is_L T c \<or> is_M T c);
            prefix_ok = (\<not> is_nl (cp ! i) \<and> \<not> is_L T (cp ! i) \<and> \<not> is_N T (cp ! i));
            start_letters = i + (if prefix_ok then 1 else 0);
            m = scan_while lm cp start_letters
        in if start_letters < m then m
           else if prefix_ok \<and> is_M T (cp ! i) then scan_while lm cp i
           else other_end T cp i)"

lemma scan_while_eq:
  "m \<le> length cp \<Longrightarrow> scan_while P cp m = m + length (takeWhile P (drop m cp))"
proof (induction P cp m rule: scan_while.induct)
  case (1 P cp m)
  show ?case
  proof (cases "m < length cp")
    case True
    then have "drop m cp = cp ! m # drop (Suc m) cp" by (simp add: Cons_nth_drop_Suc)
    then show ?thesis
      using 1 True by (subst scan_while.simps) simp
  next
    case False
    with 1(2) show ?thesis by (subst scan_while.simps) simp
  qed
qed

lemma scan_while_bounds:
  "m \<le> length cp \<Longrightarrow> m \<le> scan_while P cp m \<and> scan_while P cp m \<le> length cp"
  using length_takeWhile_le [of P "drop m cp"] by (simp add: scan_while_eq)

lemma last_newline_Some: "last_newline cp i m = Some q \<Longrightarrow> i \<le> q \<and> q < m \<and> is_nl (cp ! q)"
  by (induction cp i m rule: last_newline.induct) (auto split: if_splits)

lemma space_end_bounds:
  assumes "i < length cp" and "is_S T (cp ! i)"
  shows "i < space_end T cp i \<and> space_end T cp i \<le> length cp"
proof -
  have "i < scan_while (is_S T) cp i"
    using assms scan_while_bounds [of "i + 1" cp "is_S T"] by (subst scan_while.simps) simp
  then show ?thesis
    using scan_while_bounds [of i cp "is_S T"] assms(1)
    by (auto simp: space_end_def Let_def dest: last_newline_Some split: option.split)
qed

lemma other_end_bounds:
  assumes "i < length cp"
  shows "i < other_end T cp i \<and> other_end T cp i \<le> length cp"
proof -
  let ?other = "\<lambda>c. \<not> is_S T c \<and> \<not> is_L T c \<and> \<not> is_M T c \<and> \<not> is_N T c"
  define k where "k = (if cp ! i = byte CHR '' '' then i + 1 else i)"
  define m where "m = scan_while ?other cp k"
  have k: "i \<le> k" "k \<le> length cp" using assms by (auto simp: k_def)
  with m_def have "m \<le> length cp" using scan_while_bounds [of k cp ?other] by simp
  then have "m \<le> scan_while is_nl cp m \<and> scan_while is_nl cp m \<le> length cp" by (rule scan_while_bounds)
  with k assms space_end_bounds [OF assms, of T] show ?thesis
    unfolding other_end_def Let_def k_def [symmetric] m_def [symmetric] by auto
qed

lemma contraction_end_bounds:
  "i < length cp \<Longrightarrow> i \<le> contraction_end cp i \<and> contraction_end cp i \<le> length cp"
  by (simp add: contraction_end_def Let_def split: if_splits)

lemma pretok_end_bounds:
  assumes "i < length cp"
  shows "i < pretok_end T cp i \<and> pretok_end T cp i \<le> length cp"
proof -
  let ?lm = "\<lambda>c. is_L T c \<or> is_M T c"
  have step: "i + 1 \<le> length cp" using assms by simp
  have "i < scan_while ?lm cp i" if "is_M T (cp ! i)"
    using that assms scan_while_bounds [OF step, of ?lm] by (subst scan_while.simps) simp
  then show ?thesis
    using other_end_bounds [OF assms, of T] contraction_end_bounds [OF assms] assms
      scan_while_bounds [of i cp ?lm] scan_while_bounds [OF step, of ?lm]
    unfolding pretok_end_def Let_def by auto
qed

text \<open>The loop, on the indices of code points.\<close>

function pretok_loop :: "tokenizer \<Rightarrow> u32 list \<Rightarrow> nat \<Rightarrow> (nat \<times> nat) list" where
  "pretok_loop T cp i =
     (if i < length cp then (i, pretok_end T cp i) # pretok_loop T cp (pretok_end T cp i) else [])"
  by pat_completeness auto
termination
proof (relation "measure (\<lambda>(T, cp, i). length cp - i)", goal_cases)
  case (2 T cp i)
  then show ?case using pretok_end_bounds [of i cp T] by (simp add: diff_less_mono2)
qed simp

declare pretok_loop.simps [simp del]

text \<open>The byte spans.\<close>

definition pretokenize :: "tokenizer \<Rightarrow> string \<Rightarrow> (nat \<times> nat) list" where
  "pretokenize T s =
     (let (cp, offs) = decode_utf8 s
      in map (\<lambda>(i, j). (offs ! i, offs ! j)) (pretok_loop T cp 0))"

subsection \<open>Regular expressions with backtracking\<close>

text \<open>A sequence of classes with quantifiers, and the look-ahead \<open>(?!P)\<close>; all quantifiers are
  greedy. \<open>rx\<close> is the length of the match at the start of the input: the first one that the usual
  backtracking search finds.\<close>

datatype item =
    One "u32 \<Rightarrow> bool"
  | Opt "u32 \<Rightarrow> bool"
  | Star "u32 \<Rightarrow> bool"
  | Plus "u32 \<Rightarrow> bool"
  | NotAhead "u32 \<Rightarrow> bool"

fun rx :: "item list \<Rightarrow> u32 list \<Rightarrow> nat option" where
  "rx [] s = Some 0"
| "rx (One P # r) [] = None"
| "rx (One P # r) (c # s) = (if P c then map_option Suc (rx r s) else None)"
| "rx (Opt P # r) [] = rx r []"
| "rx (Opt P # r) (c # s) =
     (if P c then case rx r s of Some k \<Rightarrow> Some (Suc k) | None \<Rightarrow> rx r (c # s) else rx r (c # s))"
| "rx (Star P # r) [] = rx r []"
| "rx (Star P # r) (c # s) =
     (if P c then case rx (Star P # r) s of Some k \<Rightarrow> Some (Suc k) | None \<Rightarrow> rx r (c # s)
      else rx r (c # s))"
| "rx (Plus P # r) [] = None"
| "rx (Plus P # r) (c # s) = (if P c then map_option Suc (rx (Star P # r) s) else None)"
| "rx (NotAhead P # r) s = (if s \<noteq> [] \<and> P (hd s) then None else rx r s)"

text \<open>The alternatives, tried in order.\<close>

fun rx_alt :: "item list list \<Rightarrow> u32 list \<Rightarrow> nat option" where
  "rx_alt [] s = None"
| "rx_alt (r # rs) s = (case rx r s of Some k \<Rightarrow> Some k | None \<Rightarrow> rx_alt rs s)"

text \<open>A text cut into consecutive non-empty matches.\<close>

inductive rx_splits :: "item list list \<Rightarrow> u32 list \<Rightarrow> u32 list list \<Rightarrow> bool" for R where
  rx_splits_Nil: "rx_splits R [] []"
| rx_splits_Cons: "rx_alt R s = Some k \<Longrightarrow> 0 < k \<Longrightarrow> rx_splits R (drop k s) ts \<Longrightarrow> rx_splits R s (take k s # ts)"

text \<open>The split expression of the comment at the top of the source: \<open>(?i:'s|'t|'re|'ve|'m|'ll|'d)\<close>,
  \<open>[^\r\n\p{L}\p{N}]?[\p{L}\p{M}]+\<close>, \<open>\p{N}\<close>, \<open> ?[^\s\p{L}\p{M}\p{N}]+[\r\n]*\<close>, \<open>\s*[\r\n]+\<close>,
  \<open>\s+(?!\S)\<close> and \<open>\s+\<close>; \<open>(?i:)\<close> folds the ASCII letters.\<close>

definition contraction :: "string \<Rightarrow> item list" where
  "contraction w = One (\<lambda>c. c = 0x27) # map (\<lambda>l. One (\<lambda>c. lower c = byte l)) w"

definition qwen_split :: "tokenizer \<Rightarrow> item list list" where
  "qwen_split T =
     [contraction ''s'', contraction ''t'', contraction ''re'', contraction ''ve'', contraction ''m'',
      contraction ''ll'', contraction ''d'',
      [Opt (\<lambda>c. \<not> is_nl c \<and> \<not> is_L T c \<and> \<not> is_N T c), Plus (\<lambda>c. is_L T c \<or> is_M T c)],
      [One (is_N T)],
      [Opt (\<lambda>c. c = byte CHR '' ''),
       Plus (\<lambda>c. \<not> is_S T c \<and> \<not> is_L T c \<and> \<not> is_M T c \<and> \<not> is_N T c), Star is_nl],
      [Star (is_S T), Plus is_nl],
      [Plus (is_S T), NotAhead (\<lambda>c. \<not> is_S T c)],
      [Plus (is_S T)]]"

lemma rx_Star: "rx [Star P] s = Some (length (takeWhile P s))"
  by (induction s) simp_all

lemma rx_Plus: "rx [Plus P] s = (if takeWhile P s = [] then None else Some (length (takeWhile P s)))"
  by (cases s) (simp_all add: rx_Star)

lemma rx_Star_Star:
  "rx [Star P, Star Q] s = Some (length (takeWhile P s) + length (takeWhile Q (dropWhile P s)))"
  by (induction s) (simp_all add: rx_Star)

lemma rx_Plus_Star:
  "rx [Plus P, Star Q] s = (if takeWhile P s = [] then None
     else Some (length (takeWhile P s) + length (takeWhile Q (dropWhile P s))))"
  by (cases s) (simp_all add: rx_Star_Star)

lemma rx_Star_not_ahead:
  "rx [Star P, NotAhead (\<lambda>c. \<not> P c)] s =
     (let n = length (takeWhile P s) in if n = length s then Some n else if 0 < n then Some (n - 1) else None)"
proof (induction s)
  case (Cons c s)
  show ?case
  proof (cases "P c")
    case True
    show ?thesis
    proof (cases "takeWhile P s = []")
      case tw: True
      then have "s \<noteq> [] \<Longrightarrow> \<not> P (hd s)" by (cases s) (auto split: if_splits)
      then show ?thesis using Cons True tw by (auto simp: Let_def)
    qed (use Cons True in \<open>auto simp: Let_def\<close>)
  qed simp
qed simp

lemma rx_Plus_not_ahead:
  "rx [Plus P, NotAhead (\<lambda>c. \<not> P c)] s =
     (let n = length (takeWhile P s) in
      if n = 0 then None else if n = length s then Some n else if 1 < n then Some (n - 1) else None)"
  by (cases s) (auto simp: rx_Star_not_ahead Let_def)

text \<open>\<open>\s*[\r\n]+\<close> ends after the last line end of the white space.\<close>

lemma rx_Star_nl:
  assumes sub: "\<And>c. Q c \<Longrightarrow> P c"
  shows "(case rx [Star P, Plus Q] s of
      None \<Rightarrow> \<forall>c \<in> set (takeWhile P s). \<not> Q c
    | Some k \<Rightarrow> 0 < k \<and> k \<le> length (takeWhile P s) \<and> Q (takeWhile P s ! (k - 1)) \<and>
        (\<forall>j. k \<le> j \<and> j < length (takeWhile P s) \<longrightarrow> \<not> Q (takeWhile P s ! j)))"
proof (induction s)
  case Nil
  then show ?case by simp
next
  case (Cons c s)
  show ?case
  proof (cases "P c")
    case False
    with sub [of c] show ?thesis by auto
  next
    case P: True
    show ?thesis
    proof (cases "rx [Star P, Plus Q] s")
      case None
      with Cons have none: "\<forall>c \<in> set (takeWhile P s). \<not> Q c" by simp
      then have "takeWhile Q s = []"
        using sub by (cases s) auto
      with None P none show ?thesis
        by (auto simp: rx_Star nth_Cons split: nat.split)
    next
      case (Some k)
      with Cons have k: "0 < k" "k \<le> length (takeWhile P s)" "Q (takeWhile P s ! (k - 1))"
        "\<forall>j. k \<le> j \<and> j < length (takeWhile P s) \<longrightarrow> \<not> Q (takeWhile P s ! j)" by simp_all
      then have "\<forall>j. Suc k \<le> j \<and> j < length (takeWhile P (c # s)) \<longrightarrow> \<not> Q (takeWhile P (c # s) ! j)"
        using P by (auto simp: nth_Cons split: nat.split)
      with k P Some show ?thesis by simp
    qed
  qed
qed

subsection \<open>The pre-tokenizer is the split expression\<close>

text \<open>The white space the expression and the code agree on: a blank and the line ends are in the
  table of white space.\<close>

definition white_ok :: "tokenizer \<Rightarrow> bool" where
  "white_ok T \<longleftrightarrow> is_S T (byte CHR '' '') \<and> is_S T 0x0D \<and> is_S T 0x0A"

lemma white_nl: "white_ok T \<Longrightarrow> is_nl c \<Longrightarrow> is_S T c"
  by (auto simp: white_ok_def is_nl_def)

lemma last_newline_None: "last_newline cp i m = None \<Longrightarrow> i \<le> q \<Longrightarrow> q < m \<Longrightarrow> \<not> is_nl (cp ! q)"
  by (induction cp i m rule: last_newline.induct) (auto simp: less_Suc_eq split: if_splits)

lemma last_newline_last:
  "last_newline cp i m = Some p \<Longrightarrow> p < q \<Longrightarrow> q < m \<Longrightarrow> \<not> is_nl (cp ! q)"
  by (induction cp i m rule: last_newline.induct) (auto simp: less_Suc_eq split: if_splits)

lemma nth_takeWhile_drop:
  "j < length (takeWhile P (drop i cp)) \<Longrightarrow> takeWhile P (drop i cp) ! j = cp ! (i + j)"
  by (metis takeWhile_nth nth_drop length_takeWhile_le less_le_trans length_drop
      less_diff_conv less_imp_le add.commute le_add_diff_inverse nat_less_le zero_less_diff
      add_diff_inverse_nat drop_eq_Nil2 gr_implies_not0 list.size(3) not_le takeWhile.simps(1))

lemma space_end_rx:
  assumes i: "i < length cp" and S: "is_S T (cp ! i)" and ok: "white_ok T"
  shows "rx_alt [[Star (is_S T), Plus is_nl], [Plus (is_S T), NotAhead (\<lambda>c. \<not> is_S T c)], [Plus (is_S T)]]
           (drop i cp) = Some (space_end T cp i - i)"
proof -
  define w where "w = takeWhile (is_S T) (drop i cp)"
  have w0: "w \<noteq> []" using i S by (simp add: w_def Cons_nth_drop_Suc [symmetric])
  have wn: "w ! j = cp ! (i + j)" if "j < length w" for j
    using that unfolding w_def by (rule nth_takeWhile_drop)
  have m: "scan_while (is_S T) cp i = i + length w"
    using i by (simp add: scan_while_eq w_def)
  have nl: "case rx [Star (is_S T), Plus is_nl] (drop i cp) of None \<Rightarrow> \<forall>c \<in> set w. \<not> is_nl c
     | Some k \<Rightarrow> 0 < k \<and> k \<le> length w \<and> is_nl (w ! (k - 1)) \<and> (\<forall>j. k \<le> j \<and> j < length w \<longrightarrow> \<not> is_nl (w ! j))"
    unfolding w_def by (rule rx_Star_nl) (rule white_nl [OF ok])
  show ?thesis
  proof (cases "rx [Star (is_S T), Plus is_nl] (drop i cp)")
    case None
    with nl have none: "\<forall>c \<in> set w. \<not> is_nl c" by simp
    have "last_newline cp i (i + length w) = None"
    proof (cases "last_newline cp i (i + length w)")
      case (Some q)
      then have q: "i \<le> q" "q < i + length w" "is_nl (cp ! q)" by (auto dest: last_newline_Some)
      then have "cp ! q = w ! (q - i)" using wn [of "q - i"] by simp
      with q none show ?thesis by (metis add.commute less_diff_conv2 nth_mem)
    qed simp
    then show ?thesis
      using None w0 i rx_Plus_not_ahead [of "is_S T" "drop i cp"] rx_Plus [of "is_S T" "drop i cp"]
      by (auto simp: space_end_def m w_def [symmetric] Let_def)
  next
    case (Some k)
    with nl have k: "0 < k" "k \<le> length w" "is_nl (w ! (k - 1))"
      "\<And>j. k \<le> j \<Longrightarrow> j < length w \<Longrightarrow> \<not> is_nl (w ! j)" by auto
    have nlk: "is_nl (cp ! (i + (k - 1)))" using k(1,2,3) wn [of "k - 1"] by simp
    obtain q where q: "last_newline cp i (i + length w) = Some q"
      using last_newline_None [of cp i "i + length w" "i + (k - 1)"] nlk k(1,2)
      by (cases "last_newline cp i (i + length w)") auto
    then have qb: "i \<le> q" "q < i + length w" "is_nl (cp ! q)" by (auto dest: last_newline_Some)
    have "i + (k - 1) < i + length w" using k(1,2) by simp
    then have "\<not> q < i + (k - 1)" using last_newline_last [OF q, of "i + (k - 1)"] nlk by blast
    moreover have "\<not> i + (k - 1) < q"
    proof
      assume "i + (k - 1) < q"
      then have "k \<le> q - i" "q - i < length w" "i + (q - i) = q" using qb(1,2) by simp_all
      then show False using k(4) [of "q - i"] wn [of "q - i"] qb(3) by simp
    qed
    ultimately have "q = i + (k - 1)" by simp
    then show ?thesis using Some q k(1) by (simp add: space_end_def m)
  qed
qed

lemma dropWhile_scan:
  "m \<le> length cp \<Longrightarrow> dropWhile P (drop m cp) = drop (scan_while P cp m) cp"
  by (simp add: scan_while_eq dropWhile_eq_drop add.commute)

lemma takeWhile_scan:
  "m \<le> length cp \<Longrightarrow> length (takeWhile P (drop m cp)) = scan_while P cp m - m"
  "m \<le> length cp \<Longrightarrow> takeWhile P (drop m cp) = [] \<longleftrightarrow> \<not> m < scan_while P cp m"
  by (simp_all add: scan_while_eq)

lemma rx_alt_append: "rx_alt (Rs @ Qs) s = (case rx_alt Rs s of Some k \<Rightarrow> Some k | None \<Rightarrow> rx_alt Qs s)"
  by (induction Rs) (simp_all split: option.split)

lemma contraction_end_rx:
  assumes "i < length cp"
  shows "rx_alt [contraction ''s'', contraction ''t'', contraction ''re'', contraction ''ve'',
      contraction ''m'', contraction ''ll'', contraction ''d''] (drop i cp)
    = (if i < contraction_end cp i then Some (contraction_end cp i - i) else None)"
proof -
  have d0: "drop i cp = cp ! i # drop (i + 1) cp" using assms by (simp add: Cons_nth_drop_Suc)
  show ?thesis
  proof (cases "i + 1 < length cp")
    case False
    then show ?thesis by (simp add: contraction_end_def d0 contraction_def)
  next
    case True
    then have d1: "drop (i + 1) cp = cp ! (i + 1) # drop (i + 2) cp" by (simp add: Cons_nth_drop_Suc)
    show ?thesis
    proof (cases "i + 2 < length cp")
      case False
      then have "drop (i + 2) cp = []" by simp
      with False True show ?thesis
        unfolding d0 d1 contraction_end_def contraction_def Let_def by simp
    next
      case True2: True
      then have d2: "drop (i + 2) cp = cp ! (i + 2) # drop (i + 3) cp"
        by (simp add: Cons_nth_drop_Suc numeral_3_eq_3)
      show ?thesis
        using True True2 unfolding d0 d1 d2 contraction_end_def contraction_def Let_def by simp
    qed
  qed
qed

lemma other_end_rx:
  assumes i: "i < length cp" and ok: "white_ok T"
  shows "rx_alt [[One (is_N T)],
      [Opt (\<lambda>c. c = byte CHR '' ''),
       Plus (\<lambda>c. \<not> is_S T c \<and> \<not> is_L T c \<and> \<not> is_M T c \<and> \<not> is_N T c), Star is_nl],
      [Star (is_S T), Plus is_nl],
      [Plus (is_S T), NotAhead (\<lambda>c. \<not> is_S T c)],
      [Plus (is_S T)]] (drop i cp)
    = (if is_N T (cp ! i) \<or> is_S T (cp ! i) \<or> \<not> is_L T (cp ! i) \<and> \<not> is_M T (cp ! i)
       then Some (other_end T cp i - i) else None)"
proof -
  let ?other = "\<lambda>c. \<not> is_S T c \<and> \<not> is_L T c \<and> \<not> is_M T c \<and> \<not> is_N T c"
  let ?c = "cp ! i"
  define k where "k = (if ?c = byte CHR '' '' then i + 1 else i)"
  define m where "m = scan_while ?other cp k"
  have d0: "drop i cp = ?c # drop (i + 1) cp" using i by (simp add: Cons_nth_drop_Suc)
  have k: "i \<le> k" "k \<le> length cp" using i by (auto simp: k_def)
  have m: "k \<le> m" "m \<le> length cp" using scan_while_bounds [OF k(2)] by (auto simp: m_def)
  have opt: "rx [Opt (\<lambda>c. c = byte CHR '' ''), Plus ?other, Star is_nl] (drop i cp)
      = (if k < m then Some (scan_while is_nl cp m - i) else None)"
  proof -
    have run: "rx [Plus ?other, Star is_nl] (drop k cp)
        = (if k < m then Some (scan_while is_nl cp m - k) else None)"
      using k m scan_while_bounds [OF m(2), of is_nl]
      by (simp only: rx_Plus_Star takeWhile_scan dropWhile_scan m_def [symmetric]) simp
    show ?thesis
    proof (cases "?c = byte CHR '' ''")
      case True
      then have "rx [Plus ?other, Star is_nl] (drop i cp) = None"
        using ok by (simp add: d0 white_ok_def)
      then show ?thesis
        using True run m(1) scan_while_bounds [OF m(2), of is_nl]
        by (auto simp: k_def d0 Suc_diff_Suc)
    next
      case False
      then have "rx [Opt (\<lambda>c. c = byte CHR '' ''), Plus ?other, Star is_nl] (drop i cp)
          = rx [Plus ?other, Star is_nl] (drop i cp)" by (simp add: d0)
      also have "drop i cp = drop k cp" using False by (simp add: k_def)
      finally show ?thesis using run False by (simp add: k_def)
    qed
  qed
  have one: "rx [One (is_N T)] (drop i cp) = (if is_N T ?c then Some 1 else None)"
    by (simp add: d0)
  have fin: "other_end T cp i = (if is_N T ?c then i + 1 else if k < m then scan_while is_nl cp m
      else if is_S T ?c then space_end T cp i else i + 1)"
    unfolding other_end_def Let_def k_def [symmetric] m_def [symmetric] ..
  show ?thesis
  proof (cases "is_N T ?c \<or> k < m")
    case True
    have "is_L T ?c \<or> is_M T ?c \<Longrightarrow> \<not> is_S T ?c \<Longrightarrow> \<not> k < m"
    proof -
      assume "is_L T ?c \<or> is_M T ?c" and S: "\<not> is_S T ?c"
      then have "k = i" "\<not> ?other ?c" using ok by (auto simp: k_def white_ok_def)
      then show "\<not> k < m" unfolding m_def by (subst scan_while.simps) auto
    qed
    with True show ?thesis unfolding fin
      by (simp only: rx_alt.simps one opt) (auto split: option.split)
  next
    case False
    show ?thesis
    proof (cases "is_S T ?c")
      case S: True
      with False show ?thesis
        using space_end_rx [OF i S ok] unfolding fin by (simp only: rx_alt.simps one opt) simp
    next
      case S: False
      have "k = i" using S ok by (auto simp: k_def white_ok_def)
      with False have "\<not> ?other ?c"
        using i scan_while_bounds [of "i + 1" cp ?other] unfolding m_def by (subst (asm) scan_while.simps) (auto split: if_splits)
      with False S have lm: "is_L T ?c \<or> is_M T ?c" by auto
      have "rx [Star (is_S T), Plus is_nl] (drop i cp) = None"
        using S white_nl [OF ok, of ?c] by (auto simp: d0)
      moreover have "rx [Plus (is_S T), NotAhead (\<lambda>c. \<not> is_S T c)] (drop i cp) = None"
        "rx [Plus (is_S T)] (drop i cp) = None" using S by (simp_all add: d0)
      ultimately show ?thesis
        using False S lm by (simp only: rx_alt.simps one opt) auto
    qed
  qed
qed

lemma pretok_end_rx:
  assumes i: "i < length cp" and ok: "white_ok T"
  shows "rx_alt (qwen_split T) (drop i cp) = Some (pretok_end T cp i - i)"
proof -
  let ?lm = "\<lambda>c. is_L T c \<or> is_M T c" and ?c = "cp ! i"
  let ?pre = "\<lambda>c. \<not> is_nl c \<and> \<not> is_L T c \<and> \<not> is_N T c"
  define st where "st = i + (if ?pre ?c then 1 else 0)"
  define m where "m = scan_while ?lm cp st"
  have d0: "drop i cp = ?c # drop (i + 1) cp" using i by (simp add: Cons_nth_drop_Suc)
  have st: "i \<le> st" "st \<le> length cp" using i by (auto simp: st_def)
  have m: "st \<le> m" using scan_while_bounds [OF st(2)] by (simp add: m_def)
  have here: "i < scan_while ?lm cp i \<longleftrightarrow> ?lm ?c"
    using i scan_while_bounds [of "i + 1" cp ?lm] by (subst scan_while.simps) auto
  have run: "rx [Plus ?lm] (drop j cp) = (if j < scan_while ?lm cp j then Some (scan_while ?lm cp j - j) else None)"
    if "j \<le> length cp" for j
    using that by (simp only: rx_Plus takeWhile_scan) simp
  have letters: "rx [Opt ?pre, Plus ?lm] (drop i cp)
      = (if st < m then Some (m - i) else if ?pre ?c \<and> is_M T ?c then Some (scan_while ?lm cp i - i) else None)"
  proof (cases "?pre ?c")
    case True
    then have s1: "st = i + 1" by (simp add: st_def)
    have "rx [Opt ?pre, Plus ?lm] (drop i cp)
        = (case rx [Plus ?lm] (drop (i + 1) cp) of Some k \<Rightarrow> Some (Suc k) | None \<Rightarrow> rx [Plus ?lm] (drop i cp))"
      using True by (subst (1) d0, subst rx.simps(5), subst d0 [symmetric]) simp
    then show ?thesis
      using True run [of i] run [of "i + 1"] here i m unfolding m_def s1 by auto
  next
    case False
    then have "st = i" by (simp add: st_def)
    moreover have "rx [Opt ?pre, Plus ?lm] (drop i cp) = rx [Plus ?lm] (drop i cp)"
      using False by (subst (1 2) d0) (auto simp del: rx.simps(9))
    ultimately show ?thesis
      using False run [of i] i unfolding m_def by auto
  qed
  have lm: "\<not> ?lm ?c" if "\<not> st < m" "\<not> (?pre ?c \<and> is_M T ?c)"
    using that here unfolding m_def st_def by (auto split: if_splits)
  have split: "qwen_split T =
     [contraction ''s'', contraction ''t'', contraction ''re'', contraction ''ve'', contraction ''m'',
      contraction ''ll'', contraction ''d''] @ [Opt ?pre, Plus ?lm] # [[One (is_N T)],
      [Opt (\<lambda>c. c = byte CHR '' ''),
       Plus (\<lambda>c. \<not> is_S T c \<and> \<not> is_L T c \<and> \<not> is_M T c \<and> \<not> is_N T c), Star is_nl],
      [Star (is_S T), Plus is_nl],
      [Plus (is_S T), NotAhead (\<lambda>c. \<not> is_S T c)],
      [Plus (is_S T)]]"
    by (simp add: qwen_split_def)
  have fin: "pretok_end T cp i = (if i < contraction_end cp i then contraction_end cp i
      else if st < m then m else if ?pre ?c \<and> is_M T ?c then scan_while ?lm cp i else other_end T cp i)"
    unfolding pretok_end_def Let_def st_def [symmetric] m_def [symmetric] by simp
  show ?thesis
    unfolding split rx_alt_append contraction_end_rx [OF i] rx_alt.simps(2) [of "[Opt ?pre, Plus ?lm]"]
      letters other_end_rx [OF i ok] fin
    using lm by auto
qed

text \<open>The code points of the tokens.\<close>

definition slices :: "'a list \<Rightarrow> (nat \<times> nat) list \<Rightarrow> 'a list list" where
  "slices xs = map (\<lambda>(i, j). take (j - i) (drop i xs))"

lemma pretok_loop_rx:
  "i \<le> length cp \<Longrightarrow> white_ok T \<Longrightarrow> rx_splits (qwen_split T) (drop i cp) (slices cp (pretok_loop T cp i))"
proof (induction T cp i rule: pretok_loop.induct)
  case (1 T cp i)
  show ?case
  proof (cases "i < length cp")
    case False
    then show ?thesis by (simp add: pretok_loop.simps slices_def rx_splits_Nil)
  next
    case True
    define j where "j = pretok_end T cp i"
    have j: "i < j" "j \<le> length cp" using pretok_end_bounds [OF True, of T] by (auto simp: j_def)
    have "rx_splits (qwen_split T) (drop (j - i) (drop i cp)) (slices cp (pretok_loop T cp j))"
      using 1 True j by (simp add: j_def)
    then have "rx_splits (qwen_split T) (drop i cp) (take (j - i) (drop i cp) # slices cp (pretok_loop T cp j))"
      using pretok_end_rx [OF True 1(3)] j by (intro rx_splits_Cons) (simp_all add: j_def)
    then show ?thesis
      using True by (subst pretok_loop.simps) (simp add: slices_def j_def)
  qed
qed

text \<open>Consecutive spans from \<open>a\<close> to \<open>b\<close>, none of them empty.\<close>

fun tiles :: "nat \<Rightarrow> nat \<Rightarrow> (nat \<times> nat) list \<Rightarrow> bool" where
  "tiles a b [] \<longleftrightarrow> a = b"
| "tiles a b ((x, y) # r) \<longleftrightarrow> x = a \<and> a < y \<and> tiles y b r"

lemma pretok_loop_tiles: "i \<le> length cp \<Longrightarrow> tiles i (length cp) (pretok_loop T cp i)"
proof (induction T cp i rule: pretok_loop.induct)
  case (1 T cp i)
  then show ?case
    using pretok_end_bounds [of i cp T] by (subst pretok_loop.simps) auto
qed

lemma tiles_le: "tiles a b r \<Longrightarrow> a \<le> b"
  by (induction a b r rule: tiles.induct) auto

lemma tiles_map:
  "tiles a b r \<Longrightarrow> sorted_wrt (<) offs \<Longrightarrow> b < length offs \<Longrightarrow>
     tiles (offs ! a) (offs ! b) (map (\<lambda>(i, j). (offs ! i, offs ! j)) r)"
proof (induction a b r rule: tiles.induct)
  case (2 a b x y r)
  then have "y < length offs" using tiles_le [of y b r] by simp
  with 2 show ?case by (simp add: sorted_wrt_nth_less)
qed simp

lemma tiles_concat: "tiles a b r \<Longrightarrow> b \<le> length xs \<Longrightarrow> concat (slices xs r) = take (b - a) (drop a xs)"
proof (induction a b r rule: tiles.induct)
  case (2 a b x y r)
  then have "y \<le> b" using tiles_le [of y b r] by simp
  with 2 have "take (b - a) (drop a xs) = take (y - a) (drop a xs) @ take (b - y) (drop y xs)"
    using take_add [of "y - a" "b - y" "drop a xs"] by simp
  with 2 show ?case by (simp add: slices_def)
qed (simp add: slices_def)

lemma pretokenize_tiles: "tiles 0 (length s) (pretokenize T s)"
proof -
  obtain cp offs where d: "decode_utf8 s = (cp, offs)" by fastforce
  from decode_utf8_cuts [OF d] have o: "length offs = Suc (length cp)" "offs \<noteq> []" "hd offs = 0"
    "last offs = length s" "sorted_wrt (<) offs" by (simp_all add: cuts_def)
  then have "offs ! 0 = 0" "offs ! length cp = length s" by (simp_all add: hd_conv_nth last_conv_nth)
  with tiles_map [OF pretok_loop_tiles [of 0 cp T] o(5)] o(1) show ?thesis
    by (simp add: pretokenize_def d)
qed

lemma pretokenize_concat: "concat (slices s (pretokenize T s)) = s"
  using tiles_concat [OF pretokenize_tiles order.refl, of s T] by simp

text \<open>C2: the hand-rolled pre-tokenizer is the Qwen2 split expression: the code points of a text are
  cut into exactly the consecutive non-empty matches the backtracking search finds, and the byte spans
  of the result are those matches, as long as the table of white space holds the blank and the two
  line ends.\<close>

theorem pretokenize_qwen_split:
  assumes "white_ok T" and "decode_utf8 s = (cp, offs)"
  shows "\<exists>spans. rx_splits (qwen_split T) cp (slices cp spans) \<and> tiles 0 (length cp) spans \<and>
    pretokenize T s = map (\<lambda>(i, j). (offs ! i, offs ! j)) spans"
  using pretok_loop_rx [OF _ assms(1), of 0 cp] pretok_loop_tiles [of 0 cp T]
  by (intro exI [of _ "pretok_loop T cp 0"]) (simp add: pretokenize_def assms(2))

text \<open>ASCII tables, for the witnesses.\<close>

definition ascii_tokenizer :: tokenizer where
  "ascii_tokenizer = \<lparr>pieces = [], merge = Map.empty, specials = [], special_ids = Map.empty, byte_id = (\<lambda>_. - 1),
     letters = [(0x41, 0x5A), (0x61, 0x7A)], marks = [], numbers = [(0x30, 0x39)], spaces = [(9, 13), (32, 32)]\<rparr>"

theorem pretokenize_qwen_split_witness:
  "\<exists>spans. rx_splits (qwen_split ascii_tokenizer) [97, 32, 98] (slices [97, 32, 98] spans) \<and> tiles 0 3 spans \<and>
    pretokenize ascii_tokenizer ''a b'' = map (\<lambda>(i, j). ([0, 1, 2, 3] ! i, [0, 1, 2, 3] ! j)) spans"
proof -
  have w: "white_ok ascii_tokenizer" by code_simp
  have d: "decode_utf8 ''a b'' = ([97, 32, 98], [0, 1, 2, 3])" by code_simp
  show ?thesis using pretokenize_qwen_split [OF w d] by (simp add: numeral_3_eq_3)
qed

text \<open>C25: the spans are consecutive, none of them is empty and together they are the text, for every
  byte string, valid UTF-8 or not, and every table.\<close>

theorem pretokenize_tiles_text:
  "tiles 0 (length s) (pretokenize T s) \<and> concat (slices s (pretokenize T s)) = s"
  using pretokenize_tiles pretokenize_concat by blast

end
