(* ===== verification/Bpe.thy ===== *)
theory Bpe
  imports Tokenizer
begin

text \<open>
  The merge loop of the tokenizer, \<open>encode\<close> with its special tokens, \<open>decode\<close>, and \<open>load\<close>, the
  reader of \<open>tokenizer.bin\<close> (\<open>examples/qwen/tokenizer.hpp\<close>). A special token without text would
  make \<open>encode\<close> loop for ever, which is the value \<open>None\<close> of the partial function.

  The lemmas show what the merge loop leaves, that decoding inverts encoding for every text and
  every consistent vocabulary, and that \<open>load\<close> reads back a file in the layout its comment gives
  and refuses a vocabulary in which some byte has no token.
\<close>

subsection \<open>The merge loop\<close>

text \<open>\<open>((uint64_t)(uint32_t)a << 32) | (uint32_t)b\<close>.\<close>

definition merge_key :: "int \<Rightarrow> int \<Rightarrow> u64" where
  "merge_key a b = push_bit 32 (ucast (word_of_int a :: u32)) OR ucast (word_of_int b :: u32)"

text \<open>The scan for the pair of the lowest rank: \<open>best_rank\<close>, \<open>best_pos\<close> and \<open>best_id\<close>.\<close>

fun best_merge :: "tokenizer \<Rightarrow> nat \<Rightarrow> int list \<Rightarrow> int \<times> int \<times> int \<Rightarrow> int \<times> int \<times> int" where
  "best_merge T i (a # b # syms) best =
     best_merge T (i + 1) (b # syms)
       (case merge T (merge_key a b) of
          None \<Rightarrow> best
        | Some (r, m) \<Rightarrow> if r < fst best then (r, int i, m) else best)"
| "best_merge T i syms best = best"

text \<open>\<open>ranked T syms k r m\<close>: the adjacent pair at \<open>k\<close> merges to \<open>m\<close> with rank \<open>r\<close>.\<close>

definition ranked :: "tokenizer \<Rightarrow> int list \<Rightarrow> nat \<Rightarrow> int \<Rightarrow> int \<Rightarrow> bool" where
  "ranked T syms k r m \<longleftrightarrow> Suc k < length syms \<and> merge T (merge_key (syms ! k) (syms ! Suc k)) = Some (r, m)"

lemma ranked_simps [simp]:
  "\<not> ranked T [] k r m" "\<not> ranked T [a] k r m"
  "ranked T (a # b # syms) 0 r m \<longleftrightarrow> merge T (merge_key a b) = Some (r, m)"
  "ranked T (a # b # syms) (Suc k) r m \<longleftrightarrow> ranked T (b # syms) k r m"
  by (simp_all add: ranked_def)

lemma all_nat_split: "(\<forall>k. Q k) \<longleftrightarrow> Q 0 \<and> (\<forall>k. Q (Suc k))" for Q :: "nat \<Rightarrow> bool"
  by (metis nat.exhaust)

text \<open>The scan keeps the start value when no pair is below it, and returns the leftmost pair of the
  lowest rank otherwise.\<close>

lemma best_merge_spec:
  assumes "best_merge T i syms (r0, p0, m0) = (r, p, m)"
  shows "(r, p, m) = (r0, p0, m0) \<and> (\<forall>k r' m'. ranked T syms k r' m' \<longrightarrow> r0 \<le> r') \<or>
    (\<exists>k. ranked T syms k r m \<and> p = int (i + k) \<and> r < r0 \<and>
      (\<forall>k' r' m'. ranked T syms k' r' m' \<longrightarrow> r < r' \<or> r = r' \<and> k \<le> k'))"
  using assms
proof (induction T i syms "(r0, p0, m0)" arbitrary: r0 p0 m0 rule: best_merge.induct)
  case (1 T i a b syms)
  define s where "s = b # syms"
  let ?start = "case merge T (merge_key a b) of None \<Rightarrow> (r0, p0, m0)
      | Some (r', m') \<Rightarrow> if r' < fst (r0, p0, m0) then (r', int i, m') else (r0, p0, m0)"
  let ?goal = "\<lambda>s i r0 p0 m0. (r, p, m) = (r0, p0, m0) \<and> (\<forall>k r' m'. ranked T s k r' m' \<longrightarrow> r0 \<le> r') \<or>
    (\<exists>k. ranked T s k r m \<and> p = int (i + k) \<and> r < r0 \<and>
      (\<forall>k' r' m'. ranked T s k' r' m' \<longrightarrow> r < r' \<or> r = r' \<and> k \<le> k'))"
  have run: "best_merge T (i + 1) s ?start = (r, p, m)" using 1(2) by (simp add: s_def)
  show ?case
  proof (cases "\<exists>r' m'. merge T (merge_key a b) = Some (r', m') \<and> r' < r0")
    case False
    then have start: "?start = (r0, p0, m0)" by (auto split: option.split)
    with run have "best_merge T (i + 1) s (r0, p0, m0) = (r, p, m)" by simp
    from 1(1) [OF start] this have "?goal s (i + 1) r0 p0 m0" by (simp only: s_def)
    then consider "(r, p, m) = (r0, p0, m0)" "\<forall>k r' m'. ranked T s k r' m' \<longrightarrow> r0 \<le> r'" |
      k where "ranked T s k r m" "p = int (i + 1 + k)" "r < r0"
        "\<forall>k' r' m'. ranked T s k' r' m' \<longrightarrow> r < r' \<or> r = r' \<and> k \<le> k'"
      by blast
    then show ?thesis
    proof cases
      case 1
      have "\<forall>k r' m'. ranked T (a # s) k r' m' \<longrightarrow> r0 \<le> r'"
        using False 1(2) by (subst all_nat_split) (auto simp: s_def not_less)
      with 1 show ?thesis by (simp add: s_def)
    next
      case 2
      have "\<forall>k' r' m'. ranked T (a # s) k' r' m' \<longrightarrow> r < r' \<or> r = r' \<and> Suc k \<le> k'"
        using False 2(3,4) by (subst all_nat_split) (fastforce simp: s_def not_less)
      with 2 show ?thesis by (intro disjI2 exI [of _ "Suc k"]) (simp add: s_def)
    qed
  next
    case True
    then obtain r1 m1 where m1: "merge T (merge_key a b) = Some (r1, m1)" "r1 < r0" by blast
    then have start: "?start = (r1, int i, m1)" by simp
    with run have "best_merge T (i + 1) s (r1, int i, m1) = (r, p, m)" by simp
    from 1(1) [OF start] this have "?goal s (i + 1) r1 (int i) m1" by (simp only: s_def)
    then consider "(r, p, m) = (r1, int i, m1)" "\<forall>k r' m'. ranked T s k r' m' \<longrightarrow> r1 \<le> r'" |
      k where "ranked T s k r m" "p = int (i + 1 + k)" "r < r1"
        "\<forall>k' r' m'. ranked T s k' r' m' \<longrightarrow> r < r' \<or> r = r' \<and> k \<le> k'"
      by blast
    then show ?thesis
    proof cases
      case 1
      have "\<forall>k' r' m'. ranked T (a # s) k' r' m' \<longrightarrow> r1 < r' \<or> r1 = r' \<and> 0 \<le> k'"
        using 1(2) m1 by (subst all_nat_split) (fastforce simp: s_def)
      with 1 m1 show ?thesis by (intro disjI2 exI [of _ 0]) (simp add: s_def)
    next
      case 2
      have "\<forall>k' r' m'. ranked T (a # s) k' r' m' \<longrightarrow> r < r' \<or> r = r' \<and> Suc k \<le> k'"
        using m1 2(3,4) by (subst all_nat_split) (fastforce simp: s_def)
      with 2 m1 show ?thesis by (intro disjI2 exI [of _ "Suc k"]) (simp add: s_def)
    qed
  qed
qed simp_all

lemma best_merge_pos:
  "best_merge T 0 syms (r0, - 1, m0) = (r, p, m) \<Longrightarrow> 0 \<le> p \<Longrightarrow> nat p + 1 < length syms"
  by (drule best_merge_spec) (auto simp: ranked_def)

function bpe_loop :: "tokenizer \<Rightarrow> int list \<Rightarrow> int list" where
  "bpe_loop T syms =
     (if 1 < length syms then
        let (best_rank, best_pos, best_id) = best_merge T 0 syms (0x7fffffff, - 1, - 1) in
        if best_pos < 0 then syms
        else bpe_loop T (take (nat best_pos) syms @ best_id # drop (nat best_pos + 2) syms)
      else syms)"
  by pat_completeness auto
termination
proof (relation "measure (length o snd)", goal_cases)
  case (2 T syms x best_rank y best_pos best_id)
  then have "nat best_pos + 1 < length syms"
    using best_merge_pos [of T syms "0x7fffffff" "- 1" best_rank best_pos best_id] by simp
  then show ?case by simp
qed simp

declare bpe_loop.simps [simp del]

definition bpe :: "tokenizer \<Rightarrow> string \<Rightarrow> int list \<Rightarrow> int list" where
  "bpe T piece out = out @ bpe_loop T (map (byte_id T) piece)"

subsection \<open>Encoding and decoding\<close>

definition decode :: "tokenizer \<Rightarrow> int \<Rightarrow> string" where
  "decode T i = (if 0 \<le> i \<and> nat i < length (pieces T) then pieces T ! nat i else [])"

text \<open>The lambda \<open>flush\<close> on the text from \<open>seg\<close> to \<open>stop\<close>.\<close>

definition flush :: "tokenizer \<Rightarrow> string \<Rightarrow> nat \<Rightarrow> nat \<Rightarrow> int list \<Rightarrow> int list" where
  "flush T str seg stop out =
     (if seg < stop then
        let s = take (stop - seg) (drop seg str)
        in fold (\<lambda>(a, b). bpe T (take (b - a) (drop a s))) (pretokenize T s) out
      else out)"

text \<open>The first special token whose text stands at position \<open>i\<close>: \<open>text.compare(i, size, sp) == 0\<close>.\<close>

fun find_special :: "(int \<times> string) list \<Rightarrow> string \<Rightarrow> nat \<Rightarrow> (int \<times> string) option" where
  "find_special [] str i = None"
| "find_special (sp # sps) str i =
     (if take (length (snd sp)) (drop i str) = snd sp then Some sp else find_special sps str i)"

partial_function (option) encode_loop :: "tokenizer \<Rightarrow> string \<Rightarrow> nat \<Rightarrow> nat \<Rightarrow> int list \<Rightarrow> int list option" where
  "encode_loop T str i seg out =
     (if i < length str then
        (case (if str ! i = CHR ''<'' then find_special (specials T) str i else None) of
           Some sp \<Rightarrow>
             encode_loop T str (i + length (snd sp)) (i + length (snd sp)) (flush T str seg i out @ [fst sp])
         | None \<Rightarrow> encode_loop T str (i + 1) seg out)
      else Some (flush T str seg (length str) out))"

definition encode :: "tokenizer \<Rightarrow> string \<Rightarrow> int list option" where
  "encode T str = encode_loop T str 0 0 []"

subsection \<open>What the merge loop leaves\<close>

text \<open>The reference: one step merges the leftmost of the adjacent pairs of lowest rank; a rank is
  an \<open>int\<close> below \<open>INT_MAX\<close>.\<close>

definition mergeable :: "tokenizer \<Rightarrow> int list \<Rightarrow> nat \<Rightarrow> int \<Rightarrow> int \<Rightarrow> bool" where
  "mergeable T syms k r m \<longleftrightarrow> ranked T syms k r m \<and> r < 0x7fffffff"

inductive merge_step :: "tokenizer \<Rightarrow> int list \<Rightarrow> int list \<Rightarrow> bool" for T where
  merge_stepI: "mergeable T syms k r m \<Longrightarrow>
     (\<And>k' r' m'. mergeable T syms k' r' m' \<Longrightarrow> r < r' \<or> r = r' \<and> k \<le> k') \<Longrightarrow>
     merge_step T syms (take k syms @ m # drop (k + 2) syms)"

inductive_cases merge_stepE: "merge_step T syms syms'"

lemma merge_step_mergeable: "merge_step T syms syms' \<Longrightarrow> \<exists>k r m. mergeable T syms k r m"
  by (erule merge_stepE) blast

lemma bpe_loop_steps:
  "(merge_step T)\<^sup>*\<^sup>* syms (bpe_loop T syms) \<and> (\<forall>k r m. \<not> mergeable T (bpe_loop T syms) k r m)"
proof (induction T syms rule: bpe_loop.induct)
  case (1 T syms)
  show ?case
  proof (cases "1 < length syms")
    case False
    then show ?thesis by (subst (1 2) bpe_loop.simps) (simp add: mergeable_def ranked_def)
  next
    case True
    obtain r p m where b: "best_merge T 0 syms (0x7fffffff, - 1, - 1) = (r, p, m)" by (metis prod_cases3)
    from best_merge_spec [OF b] consider
      "p = - 1" "\<forall>k r' m'. ranked T syms k r' m' \<longrightarrow> 0x7fffffff \<le> r'" |
      k where "ranked T syms k r m" "p = int k" "r < 0x7fffffff"
        "\<forall>k' r' m'. ranked T syms k' r' m' \<longrightarrow> r < r' \<or> r = r' \<and> k \<le> k'" by auto
    then show ?thesis
    proof cases
      case 1
      then have "bpe_loop T syms = syms" using True b by (subst bpe_loop.simps) simp
      with 1 show ?thesis by (force simp: mergeable_def)
    next
      case 2
      let ?rest = "take k syms @ m # drop (k + 2) syms"
      have "merge_step T syms ?rest"
        using 2 by (intro merge_stepI [of T syms k r m]) (auto simp: mergeable_def)
      moreover have "bpe_loop T syms = bpe_loop T ?rest"
        using True b 2 by (subst bpe_loop.simps) simp
      moreover have "(merge_step T)\<^sup>*\<^sup>* ?rest (bpe_loop T ?rest) \<and> (\<forall>k r m. \<not> mergeable T (bpe_loop T ?rest) k r m)"
        using 1 [OF True b [symmetric] refl refl] 2 by simp
      ultimately show ?thesis by (metis converse_rtranclp_into_rtranclp)
    qed
  qed
qed

text \<open>C3: on every pre-token the merge loop is the reference algorithm run to its end: it applies
  merges of the leftmost pair of lowest rank only, ends, and leaves no pair that could be merged; it
  appends the result to what it was given.\<close>

theorem bpe_reference:
  "\<exists>syms. bpe T piece out = out @ syms \<and> (merge_step T)\<^sup>*\<^sup>* (map (byte_id T) piece) syms \<and>
     (\<forall>syms'. \<not> merge_step T syms syms')"
proof (intro exI conjI allI notI)
  let ?ids = "bpe_loop T (map (byte_id T) piece)"
  show "bpe T piece out = out @ ?ids" by (rule bpe_def)
  show "(merge_step T)\<^sup>*\<^sup>* (map (byte_id T) piece) ?ids" using bpe_loop_steps by blast
  fix syms'
  assume "merge_step T ?ids syms'"
  then show False using bpe_loop_steps merge_step_mergeable by blast
qed

subsection \<open>Decoding inverts encoding\<close>

definition valid_id :: "tokenizer \<Rightarrow> int \<Rightarrow> bool" where
  "valid_id T i \<longleftrightarrow> 0 \<le> i \<and> nat i < length (pieces T)"

text \<open>A consistent vocabulary: every byte has its token, a merge concatenates, and a special token
  is the piece of its id.\<close>

definition vocab_ok :: "tokenizer \<Rightarrow> bool" where
  "vocab_ok T \<longleftrightarrow>
     (\<forall>c. valid_id T (byte_id T c) \<and> decode T (byte_id T c) = [c]) \<and>
     (\<forall>a b r m. valid_id T a \<and> valid_id T b \<and> merge T (merge_key a b) = Some (r, m) \<longrightarrow>
        valid_id T m \<and> decode T m = decode T a @ decode T b) \<and>
     (\<forall>sp \<in> set (specials T). decode T (fst sp) = snd sp)"

lemma vocab_byte: "vocab_ok T \<Longrightarrow> valid_id T (byte_id T c)" "vocab_ok T \<Longrightarrow> decode T (byte_id T c) = [c]"
  and vocab_merge: "vocab_ok T \<Longrightarrow> valid_id T a \<Longrightarrow> valid_id T b \<Longrightarrow> merge T (merge_key a b) = Some (r, m) \<Longrightarrow>
    valid_id T m \<and> decode T m = decode T a @ decode T b"
  and vocab_special: "vocab_ok T \<Longrightarrow> sp \<in> set (specials T) \<Longrightarrow> decode T (fst sp) = snd sp"
  unfolding vocab_ok_def by blast+

abbreviation decode_all :: "tokenizer \<Rightarrow> int list \<Rightarrow> string" where
  "decode_all T ids \<equiv> concat (map (decode T) ids)"

lemma merge_step_text:
  assumes "vocab_ok T" and "merge_step T syms syms'" and "list_all (valid_id T) syms"
  shows "list_all (valid_id T) syms' \<and> decode_all T syms' = decode_all T syms"
  using assms(2)
proof (rule merge_stepE, goal_cases)
  case (1 k r m)
  then have k: "Suc k < length syms" and mg: "merge T (merge_key (syms ! k) (syms ! Suc k)) = Some (r, m)"
    by (simp_all add: mergeable_def ranked_def)
  then have split: "syms = take k syms @ syms ! k # syms ! Suc k # drop (k + 2) syms"
    by (metis Cons_nth_drop_Suc Suc_lessD add_2_eq_Suc' append_take_drop_id)
  have v: "valid_id T (syms ! k)" "valid_id T (syms ! Suc k)"
    using assms(3) k by (simp_all add: list_all_length)
  from vocab_merge [OF assms(1) v mg]
  have m: "valid_id T m" "decode T m = decode T (syms ! k) @ decode T (syms ! Suc k)"
    by blast+
  have "decode_all T syms = decode_all T (take k syms @ syms ! k # syms ! Suc k # drop (k + 2) syms)"
    by (rule arg_cong [OF split])
  also have "\<dots> = decode_all T syms'" by (simp only: 1(1) m(2) map_append concat_append list.map concat.simps append_assoc add_2_eq_Suc')
  finally have "decode_all T syms' = decode_all T syms" by (rule sym)
  moreover have "set syms' \<subseteq> insert m (set syms)"
    unfolding 1(1) using set_take_subset [of k syms] set_drop_subset [of "k + 2" syms]
    by auto
  then have "list_all (valid_id T) syms'"
    using assms(3) m(1) by (auto simp: list_all_iff)
  ultimately show ?case by blast
qed

lemma merge_steps_text:
  "(merge_step T)\<^sup>*\<^sup>* syms syms' \<Longrightarrow> vocab_ok T \<Longrightarrow> list_all (valid_id T) syms \<Longrightarrow>
     list_all (valid_id T) syms' \<and> decode_all T syms' = decode_all T syms"
  by (induction rule: rtranclp_induct) (auto dest: merge_step_text)

lemma bpe_text:
  assumes "vocab_ok T"
  shows "decode_all T (bpe T piece out) = decode_all T out @ piece"
proof -
  let ?bs = "map (byte_id T) piece"
  have bs: "list_all (valid_id T) ?bs" "decode_all T ?bs = piece"
    by (simp_all add: list_all_iff comp_def vocab_byte [OF assms])
  have "(merge_step T)\<^sup>*\<^sup>* ?bs (bpe_loop T ?bs)" using bpe_loop_steps by blast
  from merge_steps_text [OF this assms bs(1)] bs(2) show ?thesis
    by (simp only: bpe_def map_append concat_append)
qed

lemma flush_text:
  assumes "vocab_ok T"
  shows "decode_all T (flush T str seg stop out) = decode_all T out @ take (stop - seg) (drop seg str)"
proof (cases "seg < stop")
  case True
  define s where "s = take (stop - seg) (drop seg str)"
  have "decode_all T (fold (\<lambda>(a, b). bpe T (take (b - a) (drop a s))) spans out)
      = decode_all T out @ concat (slices s spans)" for spans
    by (induction spans arbitrary: out) (auto simp: bpe_text [OF assms] slices_def)
  then show ?thesis
    using True pretokenize_concat [of s T] by (simp add: flush_def s_def [symmetric])
qed (simp add: flush_def)

lemma find_special_Some:
  "find_special sps str i = Some sp \<Longrightarrow> sp \<in> set sps \<and> take (length (snd sp)) (drop i str) = snd sp"
  by (induction sps str i rule: find_special.induct) (auto split: if_splits)

lemma encode_loop_text:
  assumes ok: "vocab_ok T" and ne: "\<forall>sp \<in> set (specials T). snd sp \<noteq> []"
  shows "seg \<le> i \<Longrightarrow> i \<le> length str \<Longrightarrow> \<exists>ids. encode_loop T str i seg out = Some ids \<and>
    decode_all T ids = decode_all T out @ drop seg str"
proof (induction "length str - i" arbitrary: i seg out rule: less_induct)
  case less
  show ?case
  proof (cases "i < length str")
    case False
    with less.prems show ?thesis
      by (subst encode_loop.simps) (simp add: flush_text [OF ok])
  next
    case True
    define sp where "sp = (if str ! i = CHR ''<'' then find_special (specials T) str i else None)"
    show ?thesis
    proof (cases sp)
      case None
      obtain ids where "encode_loop T str (i + 1) seg out = Some ids"
        "decode_all T ids = decode_all T out @ drop seg str"
        using less.hyps [of "i + 1" seg out] less.prems True by (auto simp: diff_less_mono2)
      with None True show ?thesis
        by (subst encode_loop.simps) (simp add: sp_def [symmetric])
    next
      case (Some s)
      then have s: "s \<in> set (specials T)" "take (length (snd s)) (drop i str) = snd s"
        by (auto simp: sp_def dest: find_special_Some split: if_splits)
      let ?j = "i + length (snd s)"
      have pos: "0 < length (snd s)" using ne s(1) by simp
      have fit: "?j \<le> length str" using arg_cong [OF s(2), of length] True by simp
      obtain ids where ids: "encode_loop T str ?j ?j (flush T str seg i out @ [fst s]) = Some ids"
        "decode_all T ids = decode_all T (flush T str seg i out @ [fst s]) @ drop ?j str"
        using less.hyps [of ?j ?j "flush T str seg i out @ [fst s]"] fit pos True by (auto simp: diff_less_mono2)
      have d: "drop i str = snd s @ drop ?j str"
        by (metis append_take_drop_id drop_drop add.commute s(2))
      have e: "drop seg str = take (i - seg) (drop seg str) @ drop i str"
        using less.prems(1) by (metis append_take_drop_id drop_drop le_add_diff_inverse2)
      have "decode T (fst s) = snd s" using ok s(1) by (rule vocab_special)
      with ids(2) have "decode_all T ids
          = decode_all T out @ take (i - seg) (drop seg str) @ snd s @ drop ?j str"
        by (simp add: flush_text [OF ok])
      also have "take (i - seg) (drop seg str) @ snd s @ drop ?j str = drop seg str"
        by (rule trans [OF arg_cong [OF d [symmetric], of "\<lambda>x. take (i - seg) (drop seg str) @ x"] e [symmetric]])
      finally have "decode_all T ids = decode_all T out @ drop seg str" .
      moreover have "encode_loop T str i seg out = encode_loop T str ?j ?j (flush T str seg i out @ [fst s])"
        by (subst encode_loop.simps) (simp only: True if_True sp_def [symmetric] Some option.case)
      ultimately show ?thesis using ids(1) by metis
    qed
  qed
qed

text \<open>C1: for a consistent vocabulary without empty special tokens, encoding any text returns, and
  decoding its tokens one by one gives the text back, byte for byte.\<close>

theorem decode_encode:
  assumes "vocab_ok T" and "\<forall>sp \<in> set (specials T). snd sp \<noteq> []"
  shows "\<exists>ids. encode T str = Some ids \<and> concat (map (decode T) ids) = str"
  using encode_loop_text [OF assms, of 0 0 str "[]"] by (simp add: encode_def)

subsection \<open>The reader of the vocabulary file\<close>

text \<open>\<open>fread\<close> of \<open>n\<close> bytes from what is left of the file; the code does not look at the count, so
  that after a short read its variables hold indeterminate values: the reader returns \<open>None\<close>.\<close>

definition rd :: "nat \<Rightarrow> string \<Rightarrow> (string \<times> string) option" where
  "rd n f = (if n \<le> length f then Some (take n f, drop n f) else None)"

definition le_val :: "string \<Rightarrow> nat" where
  "le_val s = foldr (\<lambda>c v. of_char c + 256 * v) s 0"

definition rd_u16 :: "string \<Rightarrow> (nat \<times> string) option" where
  "rd_u16 f = map_option (map_prod le_val id) (rd 2 f)"

definition rd_u32 :: "string \<Rightarrow> (u32 \<times> string) option" where
  "rd_u32 f = map_option (map_prod (\<lambda>s. word_of_nat (le_val s)) id) (rd 4 f)"

definition rd_bind :: "('a \<times> string) option \<Rightarrow> ('a \<Rightarrow> string \<Rightarrow> ('b \<times> string) option) \<Rightarrow> ('b \<times> string) option" where
  "rd_bind m k = (case m of None \<Rightarrow> None | Some (a, f) \<Rightarrow> k a f)"

fun rd_many :: "(string \<Rightarrow> ('a \<times> string) option) \<Rightarrow> nat \<Rightarrow> string \<Rightarrow> ('a list \<times> string) option" where
  "rd_many r 0 f = Some ([], f)"
| "rd_many r (Suc n) f = rd_bind (r f) (\<lambda>x f. rd_bind (rd_many r n f) (\<lambda>xs f. Some (x # xs, f)))"

definition rd_piece :: "string \<Rightarrow> (string \<times> string) option" where
  "rd_piece f = rd_bind (rd_u16 f) (\<lambda>n f. rd n f)"

definition rd_pair :: "string \<Rightarrow> ((u32 \<times> u32) \<times> string) option" where
  "rd_pair f = rd_bind (rd_u32 f) (\<lambda>a f. rd_bind (rd_u32 f) (\<lambda>b f. Some ((a, b), f)))"

definition rd_merge :: "string \<Rightarrow> ((u32 \<times> u32 \<times> u32) \<times> string) option" where
  "rd_merge f = rd_bind (rd_u32 f) (\<lambda>a f. rd_bind (rd_pair f) (\<lambda>p f. Some ((a, p), f)))"

definition rd_special :: "string \<Rightarrow> ((u32 \<times> string) \<times> string) option" where
  "rd_special f = rd_bind (rd_u32 f) (\<lambda>a f. rd_bind (rd_piece f) (\<lambda>p f. Some ((a, p), f)))"

definition rd_table :: "string \<Rightarrow> ((u32 \<times> u32) list \<times> string) option" where
  "rd_table f = rd_bind (rd_u32 f) (\<lambda>n f. rd_many rd_pair (unat n) f)"

text \<open>The conversion to a 32-bit \<open>int\<close>.\<close>

definition to_int :: "u32 \<Rightarrow> int" where
  "to_int w = sint w"

text \<open>\<open>merge[((uint64_t)m[0] << 32) | m[1]] = {(int)i, (int)m[2]}\<close> for the \<open>i\<close>-th triple.\<close>

fun add_merges :: "nat \<Rightarrow> (u32 \<times> u32 \<times> u32) list \<Rightarrow> (u64 \<rightharpoonup> int \<times> int) \<Rightarrow> (u64 \<rightharpoonup> int \<times> int)" where
  "add_merges i [] mg = mg"
| "add_merges i ((a, b, m) # ms) mg =
     add_merges (i + 1) ms (mg(push_bit 32 (ucast a) OR ucast b \<mapsto> (to_int (word_of_nat i), to_int m)))"

text \<open>The last piece of each single byte, \<open>-1\<close> for a byte without one.\<close>

fun byte_ids :: "nat \<Rightarrow> string list \<Rightarrow> (char \<Rightarrow> int) \<Rightarrow> char \<Rightarrow> int" where
  "byte_ids i [] ids = ids"
| "byte_ids i (p # ps) ids =
     byte_ids (i + 1) ps (if length p = 1 then ids(p ! 0 := to_int (word_of_nat i)) else ids)"

datatype load_error = Throw string | Short_read

definition load_body :: "tokenizer \<Rightarrow> string \<Rightarrow> (tokenizer \<times> string) option" where
  "load_body T f =
     rd_bind (rd_many rd_u32 4 f) (\<lambda>hdr f.
     rd_bind (rd_many rd_piece (unat (hdr ! 0)) f) (\<lambda>ps f.
     rd_bind (rd_many rd_merge (unat (hdr ! 1)) f) (\<lambda>ms f.
     rd_bind (rd_many rd_special (unat (hdr ! 2)) f) (\<lambda>sps f.
     rd_bind (rd_table f) (\<lambda>ls f.
     rd_bind (rd_table f) (\<lambda>mk f.
     rd_bind (rd_table f) (\<lambda>ns f.
     rd_bind (rd_table f) (\<lambda>ss f.
     Some (T\<lparr>pieces := ps, merge := add_merges 0 ms (merge T),
       specials := specials T @ map (map_prod to_int id) sps,
       special_ids := fold (\<lambda>(i, s) m. m(s \<mapsto> to_int i)) sps (special_ids T),
       byte_id := byte_ids 0 ps (\<lambda>_. - 1),
       letters := ls, marks := mk, numbers := ns, spaces := ss\<rparr>, f)))))))))"

definition load :: "tokenizer \<Rightarrow> string \<Rightarrow> string option \<Rightarrow> load_error + tokenizer" where
  "load T path file =
     (case file of
        None \<Rightarrow> Inl (Throw (''cannot open tokenizer '' @ path))
      | Some f \<Rightarrow>
          if take 8 f \<noteq> ''MVCCT001'' then Inl (Throw ''bad tokenizer magic'')
          else case load_body T (drop 8 f) of
            None \<Rightarrow> Inl Short_read
          | Some (T', _) \<Rightarrow>
              if list_ex (\<lambda>b. byte_id T' (char_of b) < 0) [0..<256]
              then Inl (Throw ''vocab lacks single-byte token'') else Inr T')"

subsection \<open>Reading back what the exporter writes\<close>

text \<open>The layout of the file, as its comment gives it.\<close>

fun le_bytes :: "nat \<Rightarrow> nat \<Rightarrow> string" where
  "le_bytes 0 v = []"
| "le_bytes (Suc n) v = char_of v # le_bytes n (v div 256)"

definition wr_u32 :: "u32 \<Rightarrow> string" where "wr_u32 w = le_bytes 4 (unat w)"
definition wr_piece :: "string \<Rightarrow> string" where "wr_piece s = le_bytes 2 (length s) @ s"
definition wr_pair :: "u32 \<times> u32 \<Rightarrow> string" where "wr_pair p = wr_u32 (fst p) @ wr_u32 (snd p)"

definition wr_table :: "(u32 \<times> u32) list \<Rightarrow> string" where
  "wr_table t = wr_u32 (word_of_nat (length t)) @ concat (map wr_pair t)"

definition tokenizer_file :: "string list \<Rightarrow> (u32 \<times> u32 \<times> u32) list \<Rightarrow> (u32 \<times> string) list
    \<Rightarrow> (u32 \<times> u32) list list \<Rightarrow> u32 \<Rightarrow> string" where
  "tokenizer_file ps ms sps tables pad =
     ''MVCCT001'' @ concat (map wr_u32 [word_of_nat (length ps), word_of_nat (length ms), word_of_nat (length sps), pad])
       @ concat (map wr_piece ps) @ concat (map (\<lambda>(a, p). wr_u32 a @ wr_pair p) ms)
       @ concat (map (\<lambda>(i, s). wr_u32 i @ wr_piece s) sps) @ concat (map wr_table tables)"

definition fits :: "nat \<Rightarrow> 'a list \<Rightarrow> bool" where
  "fits w xs \<longleftrightarrow> length xs < 2 ^ w"

named_theorems rd_simps \<open>the readers on what the writers wrote\<close>

lemma length_le_bytes [simp]: "length (le_bytes n v) = n"
  by (induction n arbitrary: v) auto

lemma le_val_le_bytes: "le_val (le_bytes n v) = v mod 256 ^ n"
proof (induction n arbitrary: v)
  case (Suc n)
  have "le_val (le_bytes (Suc n) v) = v mod 256 + 256 * (v div 256 mod 256 ^ n)"
    using Suc [of "v div 256"] by (simp add: le_val_def of_char_of)
  then show ?case by (simp add: mod_mult2_eq)
qed (simp add: le_val_def)

lemma rd_append [rd_simps]: "rd (length s) (s @ f) = Some (s, f)"
  by (simp add: rd_def)

lemma rd_bind_Some [rd_simps]: "rd_bind (Some (a, f)) k = k a f"
  by (simp add: rd_bind_def)

lemma rd_u16_le [rd_simps]: "v < 2 ^ 16 \<Longrightarrow> rd_u16 (le_bytes 2 v @ f) = Some (v, f)"
  using rd_append [of "le_bytes 2 v" f] by (simp add: rd_u16_def le_val_le_bytes)

lemma rd_u32_wr [rd_simps]: "rd_u32 (wr_u32 w @ f) = Some (w, f)"
  using rd_append [of "le_bytes 4 (unat w)" f]
  by (simp add: rd_u32_def wr_u32_def le_val_le_bytes)

lemma rd_piece_wr [rd_simps]: "fits 16 s \<Longrightarrow> rd_piece (wr_piece s @ f) = Some (s, f)"
  by (simp add: rd_piece_def wr_piece_def fits_def rd_simps)

lemma rd_pair_wr [rd_simps]: "rd_pair (wr_pair p @ f) = Some (p, f)"
  by (simp add: rd_pair_def wr_pair_def rd_simps)

lemma rd_merge_wr [rd_simps]: "rd_merge ((\<lambda>(a, p). wr_u32 a @ wr_pair p) m @ f) = Some (m, f)"
  by (simp add: rd_merge_def rd_simps split: prod.split)

lemma rd_special_wr [rd_simps]:
  "fits 16 (snd sp) \<Longrightarrow> rd_special ((\<lambda>(i, s). wr_u32 i @ wr_piece s) sp @ f) = Some (sp, f)"
  by (cases sp) (simp add: rd_special_def rd_simps)

lemma rd_many_wr:
  assumes "\<And>x f. x \<in> set xs \<Longrightarrow> r (w x @ f) = Some (x, f)"
  shows "rd_many r (length xs) (concat (map w xs) @ f) = Some (xs, f)"
  using assms by (induction xs) (simp_all add: rd_bind_Some)

lemma rd_many_wr_word:
  assumes "fits 32 xs" and "\<And>x f. x \<in> set xs \<Longrightarrow> r (w x @ f) = Some (x, f)"
  shows "rd_many r (unat (word_of_nat (length xs) :: u32)) (concat (map w xs) @ f) = Some (xs, f)"
proof -
  have "unat (word_of_nat (length xs) :: u32) = length xs"
    using assms(1) by (simp add: fits_def unat_of_nat)
  then show ?thesis using rd_many_wr [OF assms(2), of xs f] by simp
qed

lemma rd_table_wr [rd_simps]: "fits 32 t \<Longrightarrow> rd_table (wr_table t @ f) = Some (t, f)"
  by (simp add: rd_table_def wr_table_def rd_simps rd_many_wr_word)

lemma rd_header [rd_simps]:
  "rd_many rd_u32 4 (wr_u32 a @ wr_u32 b @ wr_u32 c @ wr_u32 d @ f) = Some ([a, b, c, d], f)"
  by (simp add: rd_simps numeral_eq_Suc)

text \<open>What \<open>load\<close> makes of the tables of the file.\<close>

definition loaded :: "tokenizer \<Rightarrow> string list \<Rightarrow> (u32 \<times> u32 \<times> u32) list \<Rightarrow> (u32 \<times> string) list
    \<Rightarrow> (u32 \<times> u32) list \<Rightarrow> (u32 \<times> u32) list \<Rightarrow> (u32 \<times> u32) list \<Rightarrow> (u32 \<times> u32) list \<Rightarrow> tokenizer" where
  "loaded T ps ms sps ls mk ns ss = T\<lparr>pieces := ps, merge := add_merges 0 ms (merge T),
     specials := specials T @ map (map_prod to_int id) sps,
     special_ids := fold (\<lambda>(i, s) m. m(s \<mapsto> to_int i)) sps (special_ids T),
     byte_id := byte_ids 0 ps (\<lambda>_. - 1), letters := ls, marks := mk, numbers := ns, spaces := ss\<rparr>"

lemma load_body_wr:
  assumes "fits 32 ps" "fits 32 ms" "fits 32 sps" "\<forall>p \<in> set ps. fits 16 p" "\<forall>sp \<in> set sps. fits 16 (snd sp)"
    and "fits 32 ls" "fits 32 mk" "fits 32 ns" "fits 32 ss"
  shows "load_body T (drop 8 (tokenizer_file ps ms sps [ls, mk, ns, ss] pad)) = Some (loaded T ps ms sps ls mk ns ss, [])"
proof -
  have t: "rd_table (wr_table ss) = Some (ss, [])" using rd_table_wr [OF assms(9), of "[]"] by simp
  show ?thesis
    unfolding load_body_def tokenizer_file_def loaded_def
    by (simp add: assms t rd_simps rd_many_wr_word)
qed

lemma list_ex_bytes: "list_ex (\<lambda>b. P (char_of b)) [0..<256] \<longleftrightarrow> (\<exists>c :: char. P c)"
proof -
  have "\<exists>b \<in> {0..<256 :: nat}. char_of b = c" for c :: char
    by (rule bexI [of _ "of_char c"]) auto
  then show ?thesis unfolding list_ex_iff set_upt by metis
qed

lemma to_int_word: "to_int w = (uint w + 2 ^ 31) mod 2 ^ 32 - 2 ^ 31"
  by (simp add: to_int_def sint_uint signed_take_bit_eq_take_bit_shift take_bit_eq_mod)

lemma to_int_index:
  "to_int (word_of_nat k) = (int k mod 2 ^ 32 + 2 ^ 31) mod 2 ^ 32 - 2 ^ 31"
  by (simp add: to_int_word uint_nat unat_of_nat zmod_int mod_add_left_eq)

lemma to_int_small: "k < 2 ^ 31 \<Longrightarrow> to_int (word_of_nat k) = int k"
  by (simp add: to_int_index)

lemma to_int_nonneg:
  assumes "k < 2 ^ 32" and "0 \<le> to_int (word_of_nat k)"
  shows "to_int (word_of_nat k) = int k"
proof (cases "k < 2 ^ 31")
  case False
  then have "(int k - 2 ^ 31 + 1 * 2 ^ 32) mod 2 ^ 32 = int k - 2 ^ 31"
    using assms(1) by (simp only: mod_mult_self1) simp
  then have "(int k + 2 ^ 31) mod 2 ^ 32 = int k - 2 ^ 31" by (simp add: add.commute)
  with assms show ?thesis by (simp add: to_int_index)
qed (rule to_int_small)

lemma byte_ids_result:
  "byte_ids i ps ids c = ids c \<and> [c] \<notin> set ps \<or>
   (\<exists>k < length ps. ps ! k = [c] \<and> byte_ids i ps ids c = to_int (word_of_nat (i + k)))"
proof (induction i ps ids rule: byte_ids.induct)
  case (2 i p ps ids)
  let ?ids = "if length p = 1 then ids(p ! 0 := to_int (word_of_nat i)) else ids"
  have run: "byte_ids i (p # ps) ids c = byte_ids (i + 1) ps ?ids c" by simp
  have here: "?ids c = (if p = [c] then to_int (word_of_nat i) else ids c)"
    by (auto simp: length_Suc_conv)
  from 2 show ?case
  proof
    assume r: "byte_ids (i + 1) ps ?ids c = ?ids c \<and> [c] \<notin> set ps"
    show ?thesis
    proof (cases "p = [c]")
      case True
      with r run here show ?thesis by (intro disjI2 exI [of _ 0]) simp
    next
      case False
      with r run here show ?thesis by simp
    qed
  next
    assume "\<exists>k < length ps. ps ! k = [c] \<and> byte_ids (i + 1) ps ?ids c = to_int (word_of_nat (i + 1 + k))"
    then obtain k where "k < length ps" "ps ! k = [c]" "byte_ids (i + 1) ps ?ids c = to_int (word_of_nat (i + 1 + k))"
      by blast
    with run show ?thesis by (intro disjI2 exI [of _ "Suc k"]) simp
  qed
qed simp

lemma rd_many_length: "rd_many r n f = Some (xs, g) \<Longrightarrow> length xs = n"
  by (induction n arbitrary: f xs g) (auto simp: rd_bind_def split: option.splits)

lemma load_body_tables:
  assumes "load_body T f = Some (T', g)"
  shows "\<exists>ps. pieces T' = ps \<and> length ps < 2 ^ 32 \<and> byte_id T' = byte_ids 0 ps (\<lambda>_. - 1)"
proof -
  obtain hdr f1 ps f2 where "rd_many rd_piece (unat (hdr ! 0 :: u32)) f1 = Some (ps, f2)" "pieces T' = ps"
    "byte_id T' = byte_ids 0 ps (\<lambda>_. - 1)"
    using assms unfolding load_body_def rd_bind_def by (fastforce split: option.splits prod.splits)
  then show ?thesis using rd_many_length by force
qed

text \<open>Reading a file written in the layout of the comment gives its tables back: the merges in
  the order of their ranks, the special tokens after those already there, each byte with the last of
  its pieces; when some byte has no piece the read ends in the exception instead.\<close>

lemma load_tokenizer_file:
  assumes "fits 32 ps" "fits 32 ms" "fits 32 sps" "\<forall>p \<in> set ps. fits 16 p" "\<forall>sp \<in> set sps. fits 16 (snd sp)"
    and "fits 32 ls" "fits 32 mk" "fits 32 ns" "fits 32 ss" and "length ps \<le> 2 ^ 31"
  shows "load T path (Some (tokenizer_file ps ms sps [ls, mk, ns, ss] pad)) =
    (if \<forall>c. [c] \<in> set ps then Inr (loaded T ps ms sps ls mk ns ss)
     else Inl (Throw ''vocab lacks single-byte token''))"
proof -
  have m: "take 8 (tokenizer_file ps ms sps [ls, mk, ns, ss] pad) = ''MVCCT001''"
    by (simp add: tokenizer_file_def)
  have "byte_ids 0 ps (\<lambda>_. - 1) c < 0 \<longleftrightarrow> [c] \<notin> set ps" for c
    using byte_ids_result [of 0 ps "\<lambda>_. - 1" c]
  proof
    assume "\<exists>k < length ps. ps ! k = [c] \<and> byte_ids 0 ps (\<lambda>_. - 1) c = to_int (word_of_nat (0 + k))"
    then obtain k where k: "k < length ps" "ps ! k = [c]" "byte_ids 0 ps (\<lambda>_. - 1) c = to_int (word_of_nat k)"
      by auto
    have "[c] \<in> set ps" using k(1,2) by (metis nth_mem)
    moreover have "0 \<le> byte_ids 0 ps (\<lambda>_. - 1) c"
      using k(1,3) assms(10) by (simp add: to_int_small)
    ultimately show ?thesis by simp
  qed simp
  then have "list_ex (\<lambda>b. byte_id (loaded T ps ms sps ls mk ns ss) (char_of b) < 0) [0..<256]
      \<longleftrightarrow> \<not> (\<forall>c. [c] \<in> set ps)"
    using list_ex_bytes [of "\<lambda>c. byte_id (loaded T ps ms sps ls mk ns ss) c < 0"] by (simp add: loaded_def)
  then show ?thesis
    by (simp add: load_def m load_body_wr [OF assms(1-9)])
qed

text \<open>A vocabulary that \<open>load\<close> returned has a token for every byte, and that token decodes to
  the byte; a file it cannot open or with another magic is refused with its message.\<close>

lemma load_bytes:
  "case load T path file of
     Inr T' \<Rightarrow> (\<forall>c. valid_id T' (byte_id T' c) \<and> decode T' (byte_id T' c) = [c])
   | Inl (Throw msg) \<Rightarrow> (file = None \<longleftrightarrow> msg = ''cannot open tokenizer '' @ path)
   | Inl Short_read \<Rightarrow> (\<exists>f. file = Some f \<and> take 8 f = ''MVCCT001'')"
proof (cases "file")
  case (Some f)
  show ?thesis
  proof (cases "load_body T (drop 8 f)")
    case None
    with Some show ?thesis by (simp add: load_def)
  next
    case (Some r)
    obtain T' g where r: "r = (T', g)" by fastforce
    from Some have b: "load_body T (drop 8 f) = Some (T', g)" by (simp add: r)
    obtain ps where ps: "pieces T' = ps" "length ps < 2 ^ 32" "byte_id T' = byte_ids 0 ps (\<lambda>_. - 1)"
      using load_body_tables [OF b] by blast
    have "valid_id T' (byte_id T' c) \<and> decode T' (byte_id T' c) = [c]" if nn: "0 \<le> byte_id T' c" for c
    proof -
      obtain k where k: "k < length ps" "ps ! k = [c]" "byte_id T' c = to_int (word_of_nat k)"
        using byte_ids_result [of 0 ps "\<lambda>_. - 1" c] nn ps(3) by auto
      have "byte_id T' c = int k"
        using to_int_nonneg [of k] k(1) ps(2) nn unfolding k(3) by simp
      with k(1,2) ps(1) show ?thesis by (simp add: valid_id_def decode_def)
    qed
    moreover have "0 \<le> byte_id T' c" if "\<not> list_ex (\<lambda>b. byte_id T' (char_of b) < 0) [0..<256]" for c
      using that unfolding list_ex_bytes [of "\<lambda>c. byte_id T' c < 0"] by (simp add: not_less)
    ultimately show ?thesis using b \<open>file = Some f\<close> by (simp add: load_def)
  qed
qed (simp add: load_def)

subsection \<open>A small vocabulary\<close>

text \<open>A vocabulary for the witnesses: the 256 bytes, the merge of \<open>a\<close> and \<open>b\<close>, one special token.\<close>

definition demo_pieces :: "string list" where
  "demo_pieces = map (\<lambda>b. [char_of b]) [0..<256] @ [''ab'', ''<|x|>'']"

definition demo_tokenizer :: tokenizer where
  "demo_tokenizer = \<lparr>pieces = demo_pieces, merge = [merge_key 97 98 \<mapsto> (0, 256)],
     specials = [(257, ''<|x|>'')], special_ids = [''<|x|>'' \<mapsto> 257], byte_id = (\<lambda>c. int (of_char c)),
     letters = [(0x41, 0x5A), (0x61, 0x7A)], marks = [], numbers = [(0x30, 0x39)], spaces = [(9, 13), (32, 32)]\<rparr>"

lemma merge_key_join64: "merge_key a b = join64 (word_of_int b) (word_of_int a)"
  by (simp add: merge_key_def join64_def or.commute)

lemma merge_key_inject:
  assumes "merge_key a b = merge_key c d"
    and "0 \<le> a" "a < 2 ^ 32" "0 \<le> b" "b < 2 ^ 32" "0 \<le> c" "c < 2 ^ 32" "0 \<le> d" "d < 2 ^ 32"
  shows "a = c \<and> b = d"
proof -
  have "(word_of_int a :: u32) = word_of_int c" "(word_of_int b :: u32) = word_of_int d"
    using assms(1) unfolding merge_key_join64 by (metis hi32_join64, metis lo32_join64)
  then have "a mod 2 ^ 32 = c mod 2 ^ 32" "b mod 2 ^ 32 = d mod 2 ^ 32"
    by (simp_all add: word_of_int_eq_iff take_bit_eq_mod)
  then show ?thesis using assms(2-) by simp
qed

lemma demo_pieces_byte: "k < 256 \<Longrightarrow> demo_pieces ! k = [char_of k]"
  by (simp add: demo_pieces_def nth_append)

lemma demo_pieces_end: "length demo_pieces = 258" "demo_pieces ! 256 = ''ab''" "demo_pieces ! 257 = ''<|x|>''"
  by (simp_all add: demo_pieces_def nth_append)

lemma of_char_small: "(of_char (c :: char) :: nat) < 258" "(of_char (c :: char) :: nat) < 256"
proof -
  have "(of_char c :: nat) mod 256 = of_char c" by (metis char_of_mod_256 of_char_mod_256)
  then show "(of_char (c :: char) :: nat) < 256" by linarith
  then show "(of_char (c :: char) :: nat) < 258" by linarith
qed

lemma demo_byte: "valid_id demo_tokenizer (int (of_char c))" "decode demo_tokenizer (int (of_char c)) = [c]"
proof -
  define k :: nat where "k = of_char c"
  have k: "k < 258" "int (of_char c) = int k" "demo_pieces ! k = [c]"
    using of_char_small [of c] demo_pieces_byte [of k]
    by (simp_all only: k_def of_nat_of_char char_of_char)
  show "valid_id demo_tokenizer (int (of_char c))" "decode demo_tokenizer (int (of_char c)) = [c]"
    unfolding k(2) using k(1,3) by (simp_all add: demo_tokenizer_def demo_pieces_end valid_id_def decode_def)
qed

lemma demo_decode: "decode demo_tokenizer 97 = ''a''" "decode demo_tokenizer 98 = ''b''"
    "decode demo_tokenizer 256 = ''ab''" "decode demo_tokenizer 257 = ''<|x|>''"
  using demo_byte(2) [of "CHR ''a''"] demo_byte(2) [of "CHR ''b''"]
  by (simp_all add: demo_tokenizer_def demo_pieces_end demo_pieces_byte decode_def)

lemma demo_vocab_ok: "vocab_ok demo_tokenizer"
  unfolding vocab_ok_def
proof (intro conjI allI impI ballI)
  fix a b r m
  assume "valid_id demo_tokenizer a \<and> valid_id demo_tokenizer b \<and> merge demo_tokenizer (merge_key a b) = Some (r, m)"
  then have v: "valid_id demo_tokenizer a" "valid_id demo_tokenizer b" and k: "merge_key a b = merge_key 97 98" and m: "m = 256"
    by (simp_all add: demo_tokenizer_def split: if_splits)
  have ab: "a = 97 \<and> b = 98"
    using v by (intro merge_key_inject [OF k]) (auto simp: valid_id_def demo_tokenizer_def demo_pieces_end)
  show "valid_id demo_tokenizer m" by (simp add: m valid_id_def demo_tokenizer_def demo_pieces_end)
  show "decode demo_tokenizer m = decode demo_tokenizer a @ decode demo_tokenizer b" by (simp add: m ab demo_decode)
next
  fix c
  have "byte_id demo_tokenizer c = int (of_char c)" by (simp add: demo_tokenizer_def)
  then show "valid_id demo_tokenizer (byte_id demo_tokenizer c)" "decode demo_tokenizer (byte_id demo_tokenizer c) = [c]"
    by (simp_all only: demo_byte)
next
  fix sp
  assume "sp \<in> set (specials demo_tokenizer)"
  then have "sp = (257, ''<|x|>'')" by (simp add: demo_tokenizer_def)
  then show "decode demo_tokenizer (fst sp) = snd sp" by (simp only: fst_conv snd_conv demo_decode)
qed

lemma demo_specials: "\<forall>sp \<in> set (specials demo_tokenizer). snd sp \<noteq> []"
  by (simp add: demo_tokenizer_def)

theorem decode_encode_witness:
  "\<exists>ids. encode demo_tokenizer ''ab<|x|>b'' = Some ids \<and> concat (map (decode demo_tokenizer) ids) = ''ab<|x|>b''"
  by (rule decode_encode [OF demo_vocab_ok demo_specials])

theorem load_tokenizer_file_witness:
  "load demo_tokenizer ''f'' (Some (tokenizer_file (map (\<lambda>b. [char_of b]) [0..<256]) [(97, 98, 3)] [(5, ''x'')] [[], [], [], []] 0)) =
    Inr (loaded demo_tokenizer (map (\<lambda>b. [char_of b]) [0..<256]) [(97, 98, 3)] [(5, ''x'')] [] [] [] [])"
  (is "load _ _ (Some (tokenizer_file ?ps _ _ _ _)) = _")
proof -
  have all: "\<forall>c. [c] \<in> set ?ps"
  proof
    fix c :: char
    have "[c] = (\<lambda>b. [char_of b]) (of_char c :: nat)" by simp
    moreover have "of_char c \<in> {0..<256 :: nat}" using of_char_small(2) [of c] by simp
    ultimately show "[c] \<in> set ?ps" unfolding set_map set_upt by (rule image_eqI)
  qed
  have 1: "fits 32 ?ps" "length ?ps \<le> 2 ^ 31" "\<forall>p \<in> set ?ps. fits 16 p" by (auto simp: fits_def)
  have 2: "fits 32 [(97, 98, 3) :: u32 \<times> u32 \<times> u32]" "fits 32 [(5, ''x'') :: u32 \<times> string]"
      "\<forall>sp \<in> set [(5, ''x'') :: u32 \<times> string]. fits 16 (snd sp)" "fits 32 ([] :: (u32 \<times> u32) list)"
    by (simp_all add: fits_def)
  show ?thesis
    using load_tokenizer_file [OF 1(1) 2(1,2) 1(3) 2(3) 2(4) 2(4) 2(4) 2(4) 1(2), of demo_tokenizer "''f''" 0] all
    by (simp only: simp_thms if_True)
qed

end
