(* ===== verification/Stir_Program.thy ===== *)
theory Stir_Program
  imports CppString "HOL-Library.Multiset"
begin

text \<open>
  The semantic tile IR as data (\<open>cpp/mvcc-llvm/stir.h\<close>) with the enumerations of \<open>sig.h\<close> it
  uses: tensors, accesses, guards, traversal loops with the algebra of their recurrences and
  the permissions that algebra grants. Then the pure parts of \<open>stir.cpp\<close>: the arithmetic of
  launch-parameter monomials, the element sizes read from a demangled signature, and the programs
  built without CUDA recovery (\<open>namespace direct\<close>).

  A polynomial (\<open>sym::EP\<close>) and an LLVM instruction are opaque here: the type parameters \<open>'e\<close>
  and \<open>'i\<close>; a null pointer is \<open>None\<close>.
\<close>

subsection \<open>Loop kinds, recurrence algebras and the permissions they grant\<close>

datatype LoopKind = Bounded | Traversal | Generic | Refused

datatype Algebra = Invariant | Induction | Sum | Max | Min | And | Or | Xor | TensorSum | Tuple
  | Permutation | OrderSensitive | Unknown

record permissions =
  p_partition :: bool
  p_reorder :: bool
  p_duplicate :: bool
  p_treeCombine :: bool

definition permissions_init :: permissions where
  "permissions_init = \<lparr>p_partition = False, p_reorder = False, p_duplicate = False, p_treeCombine = False\<rparr>"

fun loopKindName :: "LoopKind \<Rightarrow> string" where
  "loopKindName Bounded = ''bounded''"
| "loopKindName Traversal = ''traversal''"
| "loopKindName Generic = ''generic''"
| "loopKindName Refused = ''refused''"

fun algebraName :: "Algebra \<Rightarrow> string" where
  "algebraName Invariant = ''invariant''"
| "algebraName Induction = ''induction''"
| "algebraName Sum = ''sum''"
| "algebraName Max = ''max''"
| "algebraName Min = ''min''"
| "algebraName And = ''and''"
| "algebraName Or = ''or''"
| "algebraName Xor = ''xor''"
| "algebraName TensorSum = ''tensor-sum''"
| "algebraName Tuple = ''tuple''"
| "algebraName Permutation = ''permutation''"
| "algebraName OrderSensitive = ''order-sensitive''"
| "algebraName Unknown = ''unknown''"

definition permissionsOf :: "Algebra \<Rightarrow> permissions" where
  "permissionsOf a =
     (let p = permissions_init in
      if a \<in> {Sum, TensorSum, Xor} then p\<lparr>p_partition := True, p_reorder := True, p_treeCombine := True\<rparr>
      else if a \<in> {Max, Min, And, Or}
        then p\<lparr>p_partition := True, p_reorder := True, p_treeCombine := True, p_duplicate := True\<rparr>
      else if a = Permutation then p\<lparr>p_duplicate := True\<rparr>
      else if a \<in> {Invariant, Induction}
        then p\<lparr>p_partition := True, p_reorder := True, p_duplicate := True, p_treeCombine := True\<rparr>
      else p)"

subsection \<open>The program\<close>

record 'e dim =
  d_mono :: "u32 list"
  d_unitBytes :: "'e option"
  d_name :: string

record 'e tensor =
  t_name :: string
  t_sym :: u32
  t_elemBytes :: u32
  t_elemFromSignature :: bool
  t_read :: bool
  t_written :: bool
  t_dims :: "'e dim list"

record 'e index_map =
  im_offset :: "'e option"
  im_coef :: "int list"

record ('e, 'i) access =
  ac_tensor :: u32
  ac_store :: bool
  ac_atomic :: bool
  ac_bytes :: u32
  ac_site :: "'i option"
  ac_piece :: u32
  ac_pieces :: u32
  ac_viaDerived :: bool
  ac_index :: "'e index_map list"
  ac_leftoverBytes :: "'e option"
  ac_samples :: u32
  ac_verified :: u32
  ac_mismatches :: u32

record ('e, 'i) operand =
  op_site :: "'i option"
  op_words :: "'e list"

record 'e guard =
  g_pred :: u32
  g_lhsBase :: "'e option"
  g_lhsCoef :: "'e option list"
  g_families :: u32

record loop_stmt =
  l_header :: string
  l_depth :: u32
  l_kind :: LoopKind
  l_trip :: u32
  l_uniform :: bool
  l_algebra :: "(Algebra \<times> u32) list"
  l_permits :: permissions
  l_anyData :: bool
  l_why :: string

record ('e, 'i) program =
  kernel :: string
  tensors :: "'e tensor list"
  coordNames :: "string list"
  coordOutput :: "bool list"
  coordPhys :: "string list"
  derivedDefs :: "string list"
  derivedOperands :: "string list"
  accesses :: "('e, 'i) access list"
  operands :: "('e, 'i) operand list"
  guards :: "'e guard list"
  loops :: "loop_stmt list"
  unmapped :: u32
  unfitted :: "string list"
  verified :: u32
  mismatches :: u32
  numClass :: string

text \<open>The default member initialisers of the structs. \<open>Guard::pred\<close>, \<open>Guard::lhsBase\<close> and
  \<open>LoopStmt::kind\<close> have none: what they hold before the first write is an argument.\<close>

definition tensor_init :: "'e tensor" where
  "tensor_init = \<lparr>t_name = [], t_sym = - 1, t_elemBytes = 0, t_elemFromSignature = False,
     t_read = False, t_written = False, t_dims = []\<rparr>"

definition index_map_init :: "'e index_map" where
  "index_map_init = \<lparr>im_offset = None, im_coef = []\<rparr>"

definition access_init :: "('e, 'i) access" where
  "access_init = \<lparr>ac_tensor = 0, ac_store = False, ac_atomic = False, ac_bytes = 0, ac_site = None,
     ac_piece = 0, ac_pieces = 1, ac_viaDerived = False, ac_index = [], ac_leftoverBytes = None,
     ac_samples = 0, ac_verified = 0, ac_mismatches = 0\<rparr>"

definition guard_init :: "u32 \<Rightarrow> 'e option \<Rightarrow> 'e guard" where
  "guard_init pred base = \<lparr>g_pred = pred, g_lhsBase = base, g_lhsCoef = [], g_families = 1\<rparr>"

definition loop_stmt_init :: "LoopKind \<Rightarrow> loop_stmt" where
  "loop_stmt_init k = \<lparr>l_header = [], l_depth = 0, l_kind = k, l_trip = 0, l_uniform = True,
     l_algebra = [], l_permits = permissions_init, l_anyData = False, l_why = []\<rparr>"

definition program_init :: "('e, 'i) program" where
  "program_init = \<lparr>kernel = [], tensors = [], coordNames = [], coordOutput = [], coordPhys = [],
     derivedDefs = [], derivedOperands = [], accesses = [], operands = [], guards = [], loops = [],
     unmapped = 0, unfitted = [], verified = 0, mismatches = 0, numClass = ''inherit''\<rparr>"

subsection \<open>Programs built without CUDA recovery\<close>

definition elementwise :: "'e option \<Rightarrow> string \<Rightarrow> ('e, 'i) program" where
  "elementwise junk n =
     program_init\<lparr>kernel := n,
       coordNames := [''i''],
       coordOutput := [True],
       coordPhys := [''b0+b1+b2+b3+b4+b5+b6+b7''],
       tensors := [tensor_init\<lparr>t_name := ''x'', t_elemBytes := 4, t_read := True\<rparr>,
                   tensor_init\<lparr>t_name := ''y'', t_elemBytes := 4, t_written := True\<rparr>],
       guards := [guard_init 2 junk]\<rparr>"

definition gemm :: "string \<Rightarrow> ('e, 'i) program" where
  "gemm n =
     program_init\<lparr>kernel := n,
       coordNames := [''m'', ''n'', ''k''],
       coordOutput := [True, True, False],
       coordPhys := [''b0+b1+b2+b3+b4'', ''b5+b6+i1'', ''i0''],
       loops := [(loop_stmt_init Traversal)\<lparr>l_header := ''%k'', l_depth := 1,
          l_algebra := [(TensorSum, 1)],
          l_permits := \<lparr>p_partition = True, p_reorder = True, p_duplicate = False, p_treeCombine = True\<rparr>,
          l_anyData := True\<rparr>],
       tensors := [tensor_init\<lparr>t_name := ''A'', t_elemBytes := 2, t_read := True\<rparr>,
                   tensor_init\<lparr>t_name := ''B'', t_elemBytes := 2, t_read := True\<rparr>,
                   tensor_init\<lparr>t_name := ''C'', t_elemBytes := 2, t_written := True\<rparr>]\<rparr>"

definition attention :: "string \<Rightarrow> ('e, 'i) program" where
  "attention n =
     program_init\<lparr>kernel := n,
       coordNames := [''d'', ''n'', ''k''],
       coordOutput := [True, False, False],
       coordPhys := [''b0+b1+b2+b3+b4'', ''i0'', ''i1''],
       loops := [(loop_stmt_init Traversal)\<lparr>l_header := ''%n'', l_depth := 1,
          l_algebra := [(Tuple, 1)],
          l_permits := \<lparr>p_partition = True, p_reorder = True, p_duplicate = False, p_treeCombine = True\<rparr>,
          l_anyData := True\<rparr>,
         (loop_stmt_init Traversal)\<lparr>l_header := ''%k'', l_depth := 2,
          l_algebra := [(Sum, 1)],
          l_permits := \<lparr>p_partition = True, p_reorder = True, p_duplicate = False, p_treeCombine = True\<rparr>,
          l_anyData := True\<rparr>],
       tensors := [tensor_init\<lparr>t_name := ''Q'', t_elemBytes := 4, t_read := True\<rparr>,
                   tensor_init\<lparr>t_name := ''K'', t_elemBytes := 4, t_read := True\<rparr>,
                   tensor_init\<lparr>t_name := ''V'', t_elemBytes := 4, t_read := True\<rparr>,
                   tensor_init\<lparr>t_name := ''O'', t_elemBytes := 4, t_written := True\<rparr>]\<rparr>"

subsection \<open>Monomials of launch parameters\<close>

text \<open>\<open>i\<close> is the position in the divisor \<open>d\<close>; the list argument is what is left of the dividend.\<close>

fun divides_loop :: "u32 list \<Rightarrow> nat \<Rightarrow> u32 list \<Rightarrow> nat" where
  "divides_loop d i [] = i"
| "divides_loop d i (a # m) = divides_loop d (if i < length d \<and> d ! i = a then i + 1 else i) m"

definition divides :: "u32 list \<Rightarrow> u32 list \<Rightarrow> bool" where
  "divides d m \<longleftrightarrow> divides_loop d 0 m = length d"

fun quotient_loop :: "u32 list \<Rightarrow> nat \<Rightarrow> u32 list \<Rightarrow> u32 list" where
  "quotient_loop d i [] = []"
| "quotient_loop d i (a # m) =
     (if i < length d \<and> d ! i = a then quotient_loop d (i + 1) m else a # quotient_loop d i m)"

definition quotient :: "u32 list \<Rightarrow> u32 list \<Rightarrow> u32 list" where
  "quotient m d = quotient_loop d 0 m"

text \<open>\<open>int64_t\<close> values as integers; negating \<open>INT64_MIN\<close> is the overflow the code does not
  define (\<open>None\<close>).\<close>

function gcd_loop :: "int \<Rightarrow> int \<Rightarrow> int" where
  "gcd_loop a b = (if b = 0 then a else gcd_loop b (a mod b))"
  by pat_completeness auto
termination
  by (relation "measure (\<lambda>(a, b). nat \<bar>b\<bar>)") (auto intro: abs_mod_less)

declare gcd_loop.simps [simp del]

definition gcd64 :: "int \<Rightarrow> int \<Rightarrow> int option" where
  "gcd64 a b =
     (if a = - 9223372036854775808 \<or> b = - 9223372036854775808 then None
      else Some (gcd_loop (if a < 0 then - a else a) (if b < 0 then - b else b)))"

subsection \<open>Element sizes of the pointer parameters of a demangled signature\<close>

text \<open>The last balanced parenthesis group: the loop state is \<open>depth\<close> (a \<open>size_t\<close>, which wraps),
  \<open>start\<close> and \<open>end\<close> (\<open>None\<close> is \<open>npos\<close>).\<close>

fun group_loop :: "string \<Rightarrow> nat \<Rightarrow> u64 \<Rightarrow> nat option \<Rightarrow> nat option \<Rightarrow> nat option \<times> nat option" where
  "group_loop [] i depth start fin = (start, fin)"
| "group_loop (c # s) i depth start fin =
     (if c = CHR ''('' \<or> c = CHR ''<'' \<or> c = CHR ''[''
      then group_loop s (i + 1) (depth + 1) (if depth = 0 \<and> c = CHR ''('' then Some i else start) fin
      else if c = CHR '')'' \<or> c = CHR ''>'' \<or> c = CHR '']''
      then group_loop s (i + 1) (depth - 1) start
             (if depth - 1 = 0 \<and> c = CHR '')'' then Some i else fin)
      else group_loop s (i + 1) depth start fin)"

fun parts_loop :: "string \<Rightarrow> u32 \<Rightarrow> string \<Rightarrow> string list" where
  "parts_loop [] d cur = (if cur = [] then [] else [cur])"
| "parts_loop (c # s) d cur =
     (let d = (if c = CHR ''<'' \<or> c = CHR ''('' then d + 1 else d);
          d = (if c = CHR ''>'' \<or> c = CHR '')'' then d - 1 else d)
      in if c = CHR '','' \<and> d = 0 then cur # parts_loop s d [] else parts_loop s d (cur @ [c]))"

text \<open>\<open>while ((k = t.find(w)) != npos) t.erase(k, w.size())\<close>, for the non-empty words it is
  called with.\<close>

function strip_word :: "string \<Rightarrow> string \<Rightarrow> string" where
  "strip_word w t =
     (if w = [] then t else
      case str_find t w of None \<Rightarrow> t | Some k \<Rightarrow> strip_word w (take k t @ drop (k + length w) t))"
  by pat_completeness auto
termination
proof (relation "measure (length o snd)")
  fix w t k
  assume "w \<noteq> []" and "str_find t w = Some k"
  then have "prefix w (drop k t)" "k \<le> length t"
    by (auto dest: str_find_sound)
  then have "k + length w \<le> length t"
    by (auto dest: prefix_length_le)
  with \<open>w \<noteq> []\<close> show "((w, take k t @ drop (k + length w) t), (w, t)) \<in> measure (length o snd)"
    by (cases w) simp_all
qed simp

declare strip_word.simps [simp del]

definition elem_size :: "string \<Rightarrow> u32" where
  "elem_size t =
     (if t \<in> {''__half'', ''__nv_bfloat16'', ''half'', ''short'', ''unsignedshort'', ''int16_t'', ''uint16_t''} then 2
      else if t \<in> {''float'', ''int'', ''unsignedint'', ''int32_t'', ''uint32_t'', ''unsigned''} then 4
      else if t \<in> {''unsignedchar'', ''char'', ''signedchar'', ''bool'', ''int8_t'', ''uint8_t''} then 1
      else if t \<in> {''double'', ''long'', ''longlong'', ''unsignedlong'', ''unsignedlonglong'', ''int64_t'',
                    ''uint64_t'', ''size_t''} then 8
      else if t \<in> {''half2'', ''__half2'', ''__nv_bfloat162'', ''float2'', ''int2''} then 8
      else if t \<in> {''float4'', ''int4'', ''uint4''} then 16
      else 0)"

definition param_elem_bytes :: "string \<Rightarrow> u32" where
  "param_elem_bytes p =
     (case str_find p ''*'' of None \<Rightarrow> 0
      | Some star \<Rightarrow>
        let t = take star p;
            t = strip_word ''const'' t;
            t = strip_word ''volatile'' t;
            t = strip_word ''__restrict__'' t;
            t = strip_word ''__restrict'' t;
            t = List.filter (\<lambda>c. c \<noteq> CHR '' '') t
        in elem_size t)"

definition pointerElemBytes :: "string \<Rightarrow> u32 list" where
  "pointerElemBytes sig =
     (if str_find sig ''('' = None then [] else
      case group_loop sig 0 0 None None of
        (Some start, Some fin) \<Rightarrow>
          if fin \<le> start then []
          else map param_elem_bytes (parts_loop (take (fin - start - 1) (drop (start + 1) sig)) 0 [])
      | _ \<Rightarrow> [])"


subsection \<open>What the permissions of an algebra mean\<close>

text \<open>The reductions the schedule splits, over 64-bit words: the combination of a value with the
  accumulator, and its identity.\<close>

fun algebra_op :: "Algebra \<Rightarrow> ((u64 \<Rightarrow> u64 \<Rightarrow> u64) \<times> u64) option" where
  "algebra_op Sum = Some ((+), 0)"
| "algebra_op TensorSum = Some ((+), 0)"
| "algebra_op Xor = Some ((XOR), 0)"
| "algebra_op Max = Some (max, 0)"
| "algebra_op Min = Some (min, - 1)"
| "algebra_op And = Some ((AND), - 1)"
| "algebra_op Or = Some ((OR), 0)"
| "algebra_op _ = None"

text \<open>A reduction a schedule may split and reorder.\<close>

locale reduction =
  fixes f :: "'a \<Rightarrow> 'a \<Rightarrow> 'a" and e :: 'a
  assumes assoc: "f (f x y) z = f x (f y z)"
    and comm: "f x y = f y x"
    and ident: "f e x = x"
begin

lemma left_comm: "f x (f y z) = f y (f x z)"
  by (metis assoc comm)

lemma foldl_init: "foldl f a xs = f a (foldl f e xs)"
proof (induction xs arbitrary: a)
  case Nil
  then show ?case by (metis comm ident foldl_Nil)
next
  case (Cons x xs)
  have "foldl f a (x # xs) = f (f a x) (foldl f e xs)"
    by (simp add: Cons [of "f a x"])
  also have "\<dots> = f a (foldl f e (x # xs))"
    by (simp add: ident assoc Cons [of x])
  finally show ?case .
qed

lemma partition: "foldl f e (xs @ ys) = f (foldl f e xs) (foldl f e ys)"
  by (simp add: foldl_init [of "foldl f e xs"])

lemma foldl_remove1: "x \<in> set ys \<Longrightarrow> foldl f e ys = f x (foldl f e (remove1 x ys))"
proof (induction ys)
  case (Cons y ys)
  show ?case
  proof (cases "x = y")
    case True
    then show ?thesis by (simp add: ident foldl_init [of y])
  next
    case False
    with Cons have "foldl f e ys = f x (foldl f e (remove1 x ys))" by simp
    with False show ?thesis
      by (simp add: ident foldl_init [of y]) (rule left_comm)
  qed
qed simp

lemma reorder: "mset xs = mset ys \<Longrightarrow> foldl f e xs = foldl f e ys"
proof (induction xs arbitrary: ys)
  case (Cons x xs)
  then have "x \<in> set ys" by (metis list.set_intros(1) mset_eq_setD)
  moreover from Cons.prems have "mset xs = mset (remove1 x ys)"
    by (metis add_mset_remove_trivial mset.simps(2) mset_remove1)
  ultimately show ?case
    using Cons.IH [of "remove1 x ys"] foldl_remove1 [of x ys]
    by (simp add: ident foldl_init [of x xs])
qed simp

end

text \<open>A reduction in which a value may be combined twice.\<close>

locale idempotent_reduction = reduction +
  assumes idem: "f x x = x"
begin

lemma absorb: "x \<in> set xs \<Longrightarrow> f x (foldl f e xs) = foldl f e xs"
  by (metis foldl_remove1 assoc idem)

lemma foldl_remdups: "foldl f e (remdups xs) = foldl f e xs"
proof (induction xs)
  case (Cons x xs)
  have c: "foldl f e (x # ys) = f x (foldl f e ys)" for ys
    by (simp add: ident foldl_init [of x])
  show ?case
  proof (cases "x \<in> set xs")
    case True
    then show ?thesis using absorb [of x xs] by (simp add: Cons c del: foldl_Cons)
  next
    case False
    then show ?thesis by (simp add: Cons c del: foldl_Cons)
  qed
qed simp

lemma duplicate: "set xs = set ys \<Longrightarrow> foldl f e xs = foldl f e ys"
proof -
  assume "set xs = set ys"
  then have "mset (remdups xs) = mset (remdups ys)"
    by (simp add: set_eq_iff_mset_remdups_eq)
  from reorder [OF this] show ?thesis by (simp only: foldl_remdups)
qed

end

interpretation sum_u64: reduction "(+) :: u64 \<Rightarrow> u64 \<Rightarrow> u64" 0
  by unfold_locales simp_all

interpretation xor_u64: reduction "(XOR) :: u64 \<Rightarrow> u64 \<Rightarrow> u64" 0
  by unfold_locales (simp_all add: ac_simps)

interpretation and_u64: idempotent_reduction "(AND) :: u64 \<Rightarrow> u64 \<Rightarrow> u64" "- 1"
  by unfold_locales (simp_all add: ac_simps)

interpretation or_u64: idempotent_reduction "(OR) :: u64 \<Rightarrow> u64 \<Rightarrow> u64" 0
  by unfold_locales (simp_all add: ac_simps)

interpretation max_u64: idempotent_reduction "max :: u64 \<Rightarrow> u64 \<Rightarrow> u64" 0
  by unfold_locales (simp_all add: ac_simps)

interpretation min_u64: idempotent_reduction "min :: u64 \<Rightarrow> u64 \<Rightarrow> u64" "- 1"
  by unfold_locales (simp_all add: ac_simps)

text \<open>What a schedule relies on when it uses a permission.\<close>

definition splits :: "('a \<Rightarrow> 'a \<Rightarrow> 'a) \<Rightarrow> 'a \<Rightarrow> bool" where
  "splits f e \<longleftrightarrow> (\<forall>xs ys. foldl f e (xs @ ys) = f (foldl f e xs) (foldl f e ys))"

definition order_free :: "('a \<Rightarrow> 'a \<Rightarrow> 'a) \<Rightarrow> 'a \<Rightarrow> bool" where
  "order_free f e \<longleftrightarrow> (\<forall>xs ys. mset xs = mset ys \<longrightarrow> foldl f e xs = foldl f e ys)"

definition tree_combines :: "('a \<Rightarrow> 'a \<Rightarrow> 'a) \<Rightarrow> bool" where
  "tree_combines f \<longleftrightarrow> (\<forall>x y z. f (f x y) z = f x (f y z))"

definition repeat_free :: "('a \<Rightarrow> 'a \<Rightarrow> 'a) \<Rightarrow> 'a \<Rightarrow> bool" where
  "repeat_free f e \<longleftrightarrow> (\<forall>xs ys. set xs = set ys \<longrightarrow> foldl f e xs = foldl f e ys)"

context reduction begin

lemma laws: "splits f e" "order_free f e" "tree_combines f"
  unfolding splits_def order_free_def tree_combines_def
  using partition reorder assoc by blast+

end

context idempotent_reduction begin

lemma repeat: "repeat_free f e"
  unfolding repeat_free_def using duplicate by blast

end

lemmas reduction_laws =
  sum_u64.laws xor_u64.laws and_u64.laws or_u64.laws max_u64.laws min_u64.laws
  and_u64.repeat or_u64.repeat max_u64.repeat min_u64.repeat

lemma sum_not_repeat_free: "\<not> repeat_free ((+) :: u64 \<Rightarrow> u64 \<Rightarrow> u64) 0"
proof
  assume "repeat_free ((+) :: u64 \<Rightarrow> u64 \<Rightarrow> u64) 0"
  then have "set xs = set ys \<Longrightarrow> foldl (+) 0 xs = foldl (+) 0 (ys :: u64 list)" for xs ys
    unfolding repeat_free_def by blast
  from this [of "[1, 1]" "[1]"] have "foldl (+) 0 [1, 1 :: u64] = foldl (+) 0 [1]" by simp
  then show False by simp
qed

lemma xor_not_repeat_free: "\<not> repeat_free ((XOR) :: u64 \<Rightarrow> u64 \<Rightarrow> u64) 0"
proof
  assume "repeat_free ((XOR) :: u64 \<Rightarrow> u64 \<Rightarrow> u64) 0"
  then have "set xs = set ys \<Longrightarrow> foldl (XOR) 0 xs = foldl (XOR) 0 (ys :: u64 list)" for xs ys
    unfolding repeat_free_def by blast
  from this [of "[1, 1]" "[1]"] have "foldl (XOR) 0 [1, 1 :: u64] = foldl (XOR) 0 [1]" by simp
  then show False by simp
qed

text \<open>Permissions are exactly what the reduction allows. For every algebra whose combination is
  one of the machine reductions, \<open>partition\<close> is granted iff pieces computed separately combine to
  the whole, \<open>reorder\<close> iff the order of the terms is irrelevant, \<open>treeCombine\<close> iff the combination is
  associative, and \<open>duplicate\<close> iff contributing a term twice does not change the result.\<close>

lemma permissionsOf_exact:
  assumes "algebra_op a = Some (f, e)"
  shows "(p_partition (permissionsOf a) \<longleftrightarrow> splits f e) \<and>
         (p_reorder (permissionsOf a) \<longleftrightarrow> order_free f e) \<and>
         (p_treeCombine (permissionsOf a) \<longleftrightarrow> tree_combines f) \<and>
         (p_duplicate (permissionsOf a) \<longleftrightarrow> repeat_free f e)"
  using assms
  by (cases a) (auto simp: permissionsOf_def permissions_init_def Let_def reduction_laws
      sum_not_repeat_free xor_not_repeat_free)

theorem permissionsOf_exact_witness:
  "p_duplicate (permissionsOf Max) \<and> repeat_free (max :: u64 \<Rightarrow> u64 \<Rightarrow> u64) 0 \<and>
   \<not> p_duplicate (permissionsOf Xor) \<and> \<not> repeat_free ((XOR) :: u64 \<Rightarrow> u64 \<Rightarrow> u64) 0"
  using permissionsOf_exact [of Max max 0] permissionsOf_exact [of Xor "(XOR)" 0]
  by (simp add: permissionsOf_def permissions_init_def)

subsection \<open>Monomials: division is multiset inclusion\<close>

lemma divides_loop_le: "i \<le> length d \<Longrightarrow> divides_loop d i m \<le> length d"
  by (induction d i m rule: divides_loop.induct) simp_all

text \<open>On the rest of the divisor, \<open>drop i d\<close>, the loops are the subsequence test and the
  difference of two lists.\<close>

lemma divides_loop_subseq:
  "i \<le> length d \<Longrightarrow> divides_loop d i m = length d \<longleftrightarrow> subseq (drop i d) m"
proof (induction d i m rule: divides_loop.induct)
  case (1 d i)
  then show ?case by (auto dest: list_emb_Nil2)
next
  case (2 d i a m)
  show ?case
  proof (cases "i < length d")
    case True
    then have d: "drop i d = d ! i # drop (Suc i) d" by (rule Cons_nth_drop_Suc [symmetric])
    show ?thesis
      using 2 True by (auto simp: d)
  next
    case False
    with 2 show ?thesis by simp
  qed
qed

lemma divides_subseq: "divides d m \<longleftrightarrow> subseq d m"
  by (simp add: divides_def divides_loop_subseq)

lemma subseq_mset: "subseq xs ys \<Longrightarrow> mset xs \<subseteq># mset ys"
  by (induction rule: list_emb.induct) (auto intro: subset_mset.order_trans)

lemma subset_add_mset_absent: "y \<notin># A \<Longrightarrow> A \<subseteq># add_mset y B \<Longrightarrow> A \<subseteq># B"
  unfolding subseteq_mset_def by (metis count_add_mset count_eq_zero_iff le0)

lemma sorted_mset_subseq:
  "sorted xs \<Longrightarrow> sorted ys \<Longrightarrow> mset xs \<subseteq># mset ys \<Longrightarrow> subseq xs (ys :: 'a::linorder list)"
proof (induction ys arbitrary: xs)
  case (Cons y ys)
  show ?case
  proof (cases xs)
    case (Cons x xs')
    have x: "x \<in> set (y # ys)"
      using Cons.prems(3) Cons set_mset_mono by fastforce
    show ?thesis
    proof (cases "x = y")
      case True
      with Cons Cons.prems Cons.IH [of xs'] show ?thesis by simp
    next
      case False
      with x Cons.prems(2) have "y < x" by fastforce
      with Cons Cons.prems(1) have "y \<notin> set xs" by fastforce
      then have "mset xs \<subseteq># mset ys"
        using Cons.prems(3) by (simp add: subset_add_mset_absent)
      with Cons.prems Cons.IH [of xs] have "subseq xs ys" by simp
      then show ?thesis by (rule list_emb.list_emb_Cons)
    qed
  qed simp
qed simp

lemma quotient_loop_mset:
  "i \<le> length d \<Longrightarrow> subseq (drop i d) m \<Longrightarrow> mset (quotient_loop d i m) + mset (drop i d) = mset m"
proof (induction d i m rule: quotient_loop.induct)
  case (1 d i)
  then show ?case by (auto dest: list_emb_Nil2)
next
  case (2 d i a m)
  show ?case
  proof (cases "i < length d")
    case True
    then have d: "drop i d = d ! i # drop (Suc i) d" by (rule Cons_nth_drop_Suc [symmetric])
    show ?thesis
      using 2 True by (auto simp: d split: if_splits)
  next
    case False
    with 2 show ?thesis by simp
  qed
qed

text \<open>On sorted monomials \<open>divides\<close> is multiset inclusion of the atoms, as its comment says, and
  the quotient times the divisor is the dividend.\<close>

lemma divides_quotient:
  assumes "sorted d" and "sorted m"
  shows "(divides d m \<longleftrightarrow> mset d \<subseteq># mset m) \<and>
         (divides d m \<longrightarrow> mset (quotient m d) + mset d = mset m)"
  using quotient_loop_mset [of 0 d m] subseq_mset [of d m] sorted_mset_subseq [OF assms]
  by (auto simp: divides_subseq quotient_def)

theorem divides_quotient_witness:
  "divides [3, 7] [3, 3, 5, 7] \<and> mset (quotient [3, 3, 5, 7] [3, 7]) + mset [3, 7] = mset [3, 3, 5, 7 :: u32]"
  using divides_quotient [of "[3, 7]" "[3, 3, 5, 7]"] by (simp add: divides_def)

lemma gcd_loop_gcd: "0 \<le> a \<Longrightarrow> 0 \<le> b \<Longrightarrow> gcd_loop a b = gcd a b"
proof (induction a b rule: gcd_loop.induct)
  case (1 a b)
  show ?case
  proof (cases "b = 0")
    case True
    with 1 show ?thesis by (simp add: gcd_loop.simps [of a 0])
  next
    case False
    with 1 have "gcd_loop b (a mod b) = gcd b (a mod b)" by simp
    with False show ?thesis
      by (simp add: gcd_loop.simps [of a b] gcd_red_int [symmetric])
  qed
qed

text \<open>\<open>gcd64\<close> is the greatest common divisor wherever the code defines it.\<close>

lemma gcd64_gcd:
  "gcd64 a b = (if a = - 9223372036854775808 \<or> b = - 9223372036854775808 then None else Some (gcd a b))"
  by (simp add: gcd64_def gcd_loop_gcd)

subsection \<open>Element sizes: one entry per parameter\<close>

text \<open>A parameter or name without brackets and commas, and a parameter list as the demangler
  prints it.\<close>

definition plain :: "string \<Rightarrow> bool" where
  "plain s \<longleftrightarrow> (\<forall>c \<in> set s. c \<notin> set ''()<>[],'')"

fun join_params :: "string list \<Rightarrow> string" where
  "join_params [] = []"
| "join_params [p] = p"
| "join_params (p # ps) = p @ '', '' @ join_params ps"

lemma group_loop_plain:
  "plain s \<Longrightarrow> group_loop (s @ r) i depth st fin = group_loop r (i + length s) depth st fin"
  by (induction s arbitrary: i) (simp_all add: plain_def)

lemma parts_loop_plain: "plain p \<Longrightarrow> parts_loop (p @ r) 0 cur = parts_loop r 0 (cur @ p)"
  by (induction p arbitrary: cur) (simp_all add: plain_def Let_def)

lemma group_loop_params:
  "\<forall>p \<in> set ps. plain p \<Longrightarrow> group_loop (join_params ps @ r) i 1 st fin
     = group_loop r (i + length (join_params ps)) 1 st fin"
proof (induction ps arbitrary: i rule: join_params.induct)
  case (3 p q ps)
  then show ?case by (simp add: group_loop_plain add.assoc)
qed (simp_all add: group_loop_plain)

lemma parts_loop_params:
  assumes "\<forall>p \<in> set ps. plain p \<and> p \<noteq> []" and "ps \<noteq> []"
  shows "parts_loop (join_params ps) 0 cur = (cur @ hd ps) # map ((#) (CHR '' '')) (tl ps)"
  using assms
proof (induction ps arbitrary: cur rule: join_params.induct)
  case (2 p)
  then show ?case using parts_loop_plain [of p "[]" cur] by simp
next
  case (3 p q ps)
  then have "parts_loop (join_params (p # q # ps)) 0 cur = (cur @ p) # parts_loop (join_params (q # ps)) 0 '' ''"
    using parts_loop_plain [of p "'', '' @ join_params (q # ps)" cur] by (simp add: Let_def)
  with 3 show ?case by simp
qed simp

lemma strip_word_blank: "CHR '' '' \<notin> set w \<Longrightarrow> strip_word w (CHR '' '' # t) = CHR '' '' # strip_word w t"
proof (induction w t rule: strip_word.induct)
  case (1 w t)
  show ?case
  proof (cases "w = []")
    case True
    then show ?thesis by (simp add: strip_word.simps)
  next
    case False
    with 1(2) have "\<not> prefix w (CHR '' '' # t)" by (cases w) auto
    then have f: "str_find (CHR '' '' # t) w = map_option Suc (str_find t w)" by simp
    show ?thesis
    proof (cases "str_find t w")
      case None
      with False f show ?thesis by (simp add: strip_word.simps [of w] del: str_find.simps)
    next
      case (Some k)
      with 1 False f show ?thesis
        by (simp add: strip_word.simps [of w "CHR '' '' # t"] strip_word.simps [of w t]
            del: str_find.simps)
    qed
  qed
qed

lemma param_elem_bytes_blank: "param_elem_bytes (CHR '' '' # p) = param_elem_bytes p"
proof -
  have "str_find (CHR '' '' # p) ''*'' = map_option Suc (str_find p ''*'')" by simp
  then show ?thesis
    by (cases "str_find p ''*''")
      (simp_all add: param_elem_bytes_def strip_word_blank del: str_find.simps)
qed

lemma str_find_hit: "x \<in> set s \<Longrightarrow> str_find s [x] \<noteq> None"
  by (induction s) auto

text \<open>For a signature \<open>name<args>(p0, p1, ...)\<close> whose parameters have no brackets of their own,
  \<open>pointerElemBytes\<close> returns one entry per parameter, the one its own text determines, in order.\<close>

lemma pointerElemBytes_flat:
  assumes "plain base" and "plain args" and "\<forall>p \<in> set ps. plain p \<and> p \<noteq> []" and "ps \<noteq> []"
  shows "pointerElemBytes (base @ ''<'' @ args @ ''>('' @ join_params ps @ '')'') = map param_elem_bytes ps"
proof -
  define pre where "pre = base @ ''<'' @ args @ ''>''"
  define body where "body = join_params ps"
  obtain p qs where ps: "ps = p # qs" using assms(4) by (cases ps) auto
  have "0 < length body"
    using assms(3) by (cases qs) (auto simp: body_def ps)
  have s: "base @ ''<'' @ args @ ''>('' @ join_params ps @ '')'' = pre @ ''('' @ body @ '')''"
    by (simp add: pre_def body_def)
  have "group_loop (pre @ ''('' @ body @ '')'') 0 0 None None
      = (Some (length pre), Some (length pre + 1 + length body))"
    using group_loop_plain [OF assms(1), of "''<'' @ args @ ''>('' @ body @ '')''" 0 0 None None]
      group_loop_plain [OF assms(2), of "''>('' @ body @ '')''" "length base + 1" 1 None None]
      group_loop_params [of ps "'')''" "length pre + 1" "Some (length pre)" None] assms(3)
    by (simp add: pre_def body_def)
  moreover have "str_find (pre @ ''('' @ body @ '')'') ''('' \<noteq> None"
    by (rule str_find_hit) simp
  ultimately have "pointerElemBytes (pre @ ''('' @ body @ '')'') = map param_elem_bytes (parts_loop body 0 [])"
    using \<open>0 < length body\<close> by (auto simp: pointerElemBytes_def)
  also have "\<dots> = map param_elem_bytes ps"
    using parts_loop_params [OF assms(3,4), of "[]"]
    by (simp add: body_def ps param_elem_bytes_blank)
  finally show ?thesis by (simp only: s)
qed

theorem pointerElemBytes_flat_witness:
  "pointerElemBytes ''void k<4>(__half const*, int, float*, half2*)'' = [2, 0, 4, 8]"
proof -
  have "map param_elem_bytes [''__half const*'', ''int'', ''float*'', ''half2*''] = [2, 0, 4, 8]"
    by code_simp
  with pointerElemBytes_flat [of "''void k''" "''4''" "[''__half const*'', ''int'', ''float*'', ''half2*'']"]
  show ?thesis by (simp add: plain_def)
qed

end
