(* ===== verification/Schedule.thy ===== *)
theory Schedule
  imports Stir_Program
begin

text \<open>
  The schedule language (\<open>cpp/mvcc-llvm/schedule.h\<close> and \<open>schedule.cpp\<close> up to \<open>stageShape\<close>): the
  enumerations with their names and parsers, the schedule object, its well-formedness check, the
  source schedule recovered from the physical axes of a program, and the seven edits.

  The lemmas show that the well-formedness check, with its early returns, accepts exactly the
  schedules of a declarative specification, that the source schedule of every program is accepted
  as long as the coordinate names are distinct, and what each edit keeps.
\<close>

subsection \<open>Enumerations\<close>

datatype Bind = Lane | Simdgroup | BlockX | BlockY | BlockZ | Unroll | Time | Replicate | Launch | DeviceBind
datatype Storage = DeviceStorage | Threadgroup | Register | CoopTensor | Recompute
datatype Engine = TensorOp | ScalarFma | SimdVector
datatype Exchange = NoExchange | ShuffleTree | ThreadgroupBuffer | AtomicExchange | Collective
datatype Prefetch = AtUse | IterationStart | Rotate
datatype Predicate = Branch | SelectClamp | ZeroPage | NoPredicate

fun bindName :: "Bind \<Rightarrow> string" where
  "bindName Lane = ''lane''"
| "bindName Simdgroup = ''simdgroup''"
| "bindName BlockX = ''block.x''"
| "bindName BlockY = ''block.y''"
| "bindName BlockZ = ''block.z''"
| "bindName Unroll = ''unroll''"
| "bindName Time = ''time''"
| "bindName Replicate = ''replicate''"
| "bindName Launch = ''launch''"
| "bindName DeviceBind = ''device''"

fun storageName :: "Storage \<Rightarrow> string" where
  "storageName DeviceStorage = ''device''"
| "storageName Threadgroup = ''threadgroup''"
| "storageName Register = ''register''"
| "storageName CoopTensor = ''coop-tensor''"
| "storageName Recompute = ''recompute''"

fun engineName :: "Engine \<Rightarrow> string" where
  "engineName TensorOp = ''tensor-op''"
| "engineName ScalarFma = ''scalar-fma''"
| "engineName SimdVector = ''simd-vector''"

fun exchangeName :: "Exchange \<Rightarrow> string" where
  "exchangeName NoExchange = ''none''"
| "exchangeName ShuffleTree = ''shuffle-tree''"
| "exchangeName ThreadgroupBuffer = ''threadgroup-buffer''"
| "exchangeName AtomicExchange = ''atomic''"
| "exchangeName Collective = ''collective''"

fun prefetchName :: "Prefetch \<Rightarrow> string" where
  "prefetchName AtUse = ''at-use''"
| "prefetchName IterationStart = ''iteration-start''"
| "prefetchName Rotate = ''rotate''"

fun predicateName :: "Predicate \<Rightarrow> string" where
  "predicateName Branch = ''branch''"
| "predicateName SelectClamp = ''select+clamp''"
| "predicateName ZeroPage = ''zero-page''"
| "predicateName NoPredicate = ''none''"

text \<open>A parser returns whether it recognised the name and writes its out parameter only then.\<close>

definition parseBind :: "string \<Rightarrow> Bind option" where
  "parseBind s =
     (if s = ''lane'' then Some Lane
      else if s = ''simdgroup'' then Some Simdgroup
      else if s = ''block.x'' then Some BlockX
      else if s = ''block.y'' then Some BlockY
      else if s = ''block.z'' then Some BlockZ
      else if s = ''unroll'' then Some Unroll
      else if s = ''time'' then Some Time
      else if s = ''replicate'' then Some Replicate
      else if s = ''launch'' then Some Launch
      else if s = ''device'' then Some DeviceBind
      else None)"

definition parseStorage :: "string \<Rightarrow> Storage option" where
  "parseStorage s =
     (if s = ''device'' then Some DeviceStorage
      else if s = ''threadgroup'' then Some Threadgroup
      else if s = ''register'' then Some Register
      else if s = ''coop-tensor'' then Some CoopTensor
      else if s = ''recompute'' then Some Recompute
      else None)"

definition parseEngine :: "string \<Rightarrow> Engine option" where
  "parseEngine s =
     (if s = ''tensor-op'' then Some TensorOp
      else if s = ''scalar-fma'' then Some ScalarFma
      else if s = ''simd-vector'' then Some SimdVector
      else None)"

definition parseExchange :: "string \<Rightarrow> Exchange option" where
  "parseExchange s =
     (if s = ''none'' then Some NoExchange
      else if s = ''shuffle-tree'' then Some ShuffleTree
      else if s = ''threadgroup-buffer'' then Some ThreadgroupBuffer
      else if s = ''atomic'' then Some AtomicExchange
      else if s = ''collective'' then Some Collective
      else None)"

definition parsePrefetch :: "string \<Rightarrow> Prefetch option" where
  "parsePrefetch s =
     (if s = ''at-use'' then Some AtUse
      else if s = ''iteration-start'' then Some IterationStart
      else if s = ''rotate'' then Some Rotate
      else None)"

definition parsePredicate :: "string \<Rightarrow> Predicate option" where
  "parsePredicate s =
     (if s = ''branch'' then Some Branch
      else if s = ''select+clamp'' then Some SelectClamp
      else if s = ''zero-page'' then Some ZeroPage
      else if s = ''none'' then Some NoPredicate
      else None)"

subsection \<open>The schedule\<close>

record factor =
  f_name :: string
  f_coord :: u32
  f_size :: u32
  f_bind :: Bind

record access_storage =
  as_tensor :: u32
  as_kind :: Storage
  ringStages :: u32
  ringBytes :: u32

record stage_schedule =
  factors :: "factor list"
  order :: "string list"
  storage :: "access_storage list"
  exchange :: Exchange
  engine :: Engine
  tensorM :: u32
  tensorN :: u32
  tensorK :: u32
  prefetch :: Prefetch
  predicate :: Predicate
  fusedWith :: "u32 list"
  threadScale :: u32
  smemBytes :: u32

record schedule =
  s_kernel :: string
  s_why :: string
  stages :: "stage_schedule list"

definition factor_init :: factor where
  "factor_init = \<lparr>f_name = [], f_coord = 0, f_size = 0, f_bind = Time\<rparr>"

definition access_storage_init :: access_storage where
  "access_storage_init = \<lparr>as_tensor = 0, as_kind = DeviceStorage, ringStages = 0, ringBytes = 0\<rparr>"

definition stage_init :: stage_schedule where
  "stage_init = \<lparr>factors = [], order = [], storage = [], exchange = NoExchange, engine = ScalarFma,
     tensorM = 32, tensorN = 32, tensorK = 32, prefetch = AtUse, predicate = Branch, fusedWith = [],
     threadScale = 1, smemBytes = 0\<rparr>"

definition schedule_init :: schedule where
  "schedule_init = \<lparr>s_kernel = [], s_why = [], stages = []\<rparr>"

subsection \<open>Well-formedness\<close>

record well_formed =
  wf_ok :: bool
  wf_why :: string

text \<open>The loop over the factors of a stage: the coordinates covered and the names seen so far, or
  the reason of the early return.\<close>

fun wf_factors :: "('e, 'i) program \<Rightarrow> nat \<Rightarrow> factor list \<Rightarrow> u32 set \<Rightarrow> string set
    \<Rightarrow> string + (u32 set \<times> string set)" where
  "wf_factors P si [] covered names = Inr (covered, names)"
| "wf_factors P si (f # fs) covered names =
     (if length (coordNames P) \<le> unat (f_coord f) \<and> coordNames P \<noteq> []
      then Inl (''stage '' @ to_string si @ '' factor '' @ f_name f @ '' coord out of range'')
      else if f_name f \<in> names then Inl (''duplicate factor '' @ f_name f)
      else if f_size f \<noteq> 0 \<and> f_size f AND (f_size f - 1) \<noteq> 0 \<and> f_size f \<noteq> 3
      then Inl (''factor '' @ f_name f @ '' size '' @ to_string (unat (f_size f))
                @ '' is not a split the emitter can strength-reduce'')
      else wf_factors P si fs (insert (f_coord f) covered) (insert (f_name f) names))"

fun wf_covered :: "u32 set \<Rightarrow> nat \<Rightarrow> string list \<Rightarrow> string option" where
  "wf_covered covered j [] = None"
| "wf_covered covered j (c # cs) =
     (if of_nat j \<notin> covered then Some (''coordinate '' @ c @ '' is not bound'')
      else wf_covered covered (j + 1) cs)"

fun wf_order :: "string set \<Rightarrow> string list \<Rightarrow> string option" where
  "wf_order names [] = None"
| "wf_order names (n # ns) =
     (if n \<notin> names then Some (''order names unknown factor '' @ n) else wf_order names ns)"

definition wf_stage :: "('e, 'i) program \<Rightarrow> nat \<Rightarrow> stage_schedule \<Rightarrow> string option" where
  "wf_stage P si st =
     (case wf_factors P si (factors st) {} {} of
        Inl why \<Rightarrow> Some why
      | Inr (covered, names) \<Rightarrow>
        (case wf_covered covered 0 (coordNames P) of Some why \<Rightarrow> Some why | None \<Rightarrow>
        (case wf_order names (order st) of Some why \<Rightarrow> Some why | None \<Rightarrow>
         if threadScale st = 0 \<or> 32 < threadScale st then Some ''thread_scale out of range''
         else if 232448 < smemBytes st then Some ''smem above the spill ceiling''
         else if engine st = TensorOp \<and> (tensorM st < 16 \<or> tensorN st < 8 \<or> tensorK st < 8)
         then Some ''tensor-op shape is below the smallest matmul2d''
         else None)))"

fun wf_stages :: "('e, 'i) program \<Rightarrow> nat \<Rightarrow> stage_schedule list \<Rightarrow> string option" where
  "wf_stages P si [] = None"
| "wf_stages P si (st # sts) =
     (case wf_stage P si st of Some why \<Rightarrow> Some why | None \<Rightarrow> wf_stages P (si + 1) sts)"

definition wellFormed :: "('e, 'i) program \<Rightarrow> schedule \<Rightarrow> well_formed" where
  "wellFormed P S =
     (if stages S = [] then \<lparr>wf_ok = False, wf_why = ''no stages''\<rparr>
      else case wf_stages P 0 (stages S) of
        Some why \<Rightarrow> \<lparr>wf_ok = False, wf_why = why\<rparr>
      | None \<Rightarrow> \<lparr>wf_ok = True, wf_why = []\<rparr>)"

subsection \<open>The source schedule\<close>

definition addAxis :: "(char \<times> u32) list \<Rightarrow> char \<Rightarrow> u32 \<Rightarrow> (char \<times> u32) list" where
  "addAxis axes kind idx = (if (kind, idx) \<in> set axes then axes else axes @ [(kind, idx)])"

definition unsigned_digits :: "string \<Rightarrow> u32" where
  "unsigned_digits ds = foldl (\<lambda>v c. v * 10 + of_nat (digit_val c)) 0 ds"

text \<open>The scan over the text of a physical coordinate: \<open>s\<close> is what is left from position \<open>i\<close> on.\<close>

function parse_phys_loop :: "string \<Rightarrow> (char \<times> u32) list \<Rightarrow> (char \<times> u32) list" where
  "parse_phys_loop [] axes = axes"
| "parse_phys_loop (k # s) axes =
     (if (k = CHR ''b'' \<or> k = CHR ''i'' \<or> k = CHR ''d'') \<and> s \<noteq> [] \<and> isdigit (hd s)
      then parse_phys_loop (dropWhile isdigit s) (addAxis axes k (unsigned_digits (takeWhile isdigit s)))
      else parse_phys_loop s axes)"
  by pat_completeness auto
termination
  by (relation "measure (length o fst)") (auto simp: le_imp_less_Suc length_dropWhile_le)

definition parsePhys :: "string \<Rightarrow> (char \<times> u32) list" where
  "parsePhys s = parse_phys_loop s []"

definition perm_meet :: "permissions \<Rightarrow> permissions \<Rightarrow> permissions" where
  "perm_meet p q = \<lparr>p_partition = (p_partition p \<and> p_partition q), p_reorder = (p_reorder p \<and> p_reorder q),
     p_duplicate = (p_duplicate p \<and> p_duplicate q), p_treeCombine = (p_treeCombine p \<and> p_treeCombine q)\<rparr>"

text \<open>The loop shared by \<open>programPermits\<close> and \<open>legal::permits\<close>: the permissions so far and \<open>any\<close>.\<close>

fun permits_loop :: "loop_stmt list \<Rightarrow> permissions \<Rightarrow> bool \<Rightarrow> permissions \<times> bool" where
  "permits_loop [] p any = (p, any)"
| "permits_loop (L # Ls) p any =
     (if \<not> l_anyData L then permits_loop Ls p any
      else if \<not> any then permits_loop Ls (l_permits L) True
      else permits_loop Ls (perm_meet p (l_permits L)) any)"

definition perm_all :: permissions where
  "perm_all = \<lparr>p_partition = True, p_reorder = True, p_duplicate = True, p_treeCombine = True\<rparr>"

definition programPermits :: "('e, 'i) program \<Rightarrow> permissions" where
  "programPermits P = fst (permits_loop (loops P) perm_all False)"

definition hasAlgebra :: "('e, 'i) program \<Rightarrow> Algebra \<Rightarrow> bool" where
  "hasAlgebra P a \<longleftrightarrow> (\<exists>L \<in> set (loops P). \<exists>kv \<in> set (l_algebra L). fst kv = a)"

definition count_axes :: "((char \<times> u32) \<Rightarrow> bool) \<Rightarrow> (char \<times> u32) list \<Rightarrow> nat" where
  "count_axes p axes = length (List.filter p axes)"

text \<open>\<open>P.coordOutput.empty() || P.coordOutput[j]\<close>. A vector shorter than the coordinates (never
  built: \<open>build\<close> and \<open>direct\<close> push both together) is read past its end by the code; the value
  read is \<open>False\<close> here.\<close>

definition isOutput :: "('e, 'i) program \<Rightarrow> nat \<Rightarrow> bool" where
  "isOutput P j \<longleftrightarrow> coordOutput P = [] \<or> (j < length (coordOutput P) \<and> coordOutput P ! j)"

definition bit_size :: "nat \<Rightarrow> u32" where
  "bit_size n = push_bit (min n 5) 1"

text \<open>The body of the loop over the coordinates: the factors and time-bound names of coordinate
  \<open>j\<close> named \<open>nm\<close>, appended to what the loop has built.\<close>

definition source_coord :: "('e, 'i) program \<Rightarrow> nat \<Rightarrow> string \<Rightarrow> factor list \<times> string list
    \<Rightarrow> factor list \<times> string list" where
  "source_coord P j nm = (\<lambda>(fs, ord).
     let axes = (if j < length (coordPhys P) then parsePhys (coordPhys P ! j) else []);
         tidLo = count_axes (\<lambda>a. fst a = CHR ''b'' \<and> snd a < 5) axes;
         tidHi = count_axes (\<lambda>a. fst a = CHR ''b'' \<and> \<not> snd a < 5) axes;
         hasTid = (\<exists>a \<in> set axes. fst a = CHR ''b'');
         hasIter = (\<exists>a \<in> set axes. fst a = CHR ''i'');
         hasDer = (\<exists>a \<in> set axes. fst a = CHR ''d'');
         mk = (\<lambda>suffix sz b. \<lparr>f_name = nm @ suffix, f_coord = of_nat j, f_size = sz, f_bind = b\<rparr>);
         fs = (if hasTid \<and> tidLo \<noteq> 0 then fs @ [mk ''_lane'' (bit_size tidLo) Lane] else fs);
         fs = (if hasTid \<and> tidHi \<noteq> 0 then fs @ [mk ''_sg'' (bit_size tidHi) Simdgroup] else fs);
         ord = (if hasIter then ord @ [nm @ ''_k''] else ord);
         fs = (if hasIter then fs @ [mk ''_k'' 0 Time] else fs);
         fs = (if hasDer then fs @ [mk ''_u'' 0 Unroll] else fs)
     in if fs = [] \<or> f_coord (last fs) \<noteq> of_nat j
        then if isOutput P j then (fs @ [mk ''_blk'' 1 BlockX], ord)
             else (fs @ [mk ''_r'' 1 Time], ord @ [nm @ ''_r''])
        else (fs, ord))"

fun source_coords :: "('e, 'i) program \<Rightarrow> nat \<Rightarrow> string list \<Rightarrow> factor list \<times> string list
    \<Rightarrow> factor list \<times> string list" where
  "source_coords P j [] acc = acc"
| "source_coords P j (nm # nms) acc = source_coords P (j + 1) nms (source_coord P j nm acc)"

text \<open>The epilogue stage the code builds at the end (\<open>epi\<close>) is never appended to the schedule and
  has no effect on the result.\<close>

definition sourceSchedule :: "('e, 'i) program \<Rightarrow> schedule" where
  "sourceSchedule P =
     (let anyR = (False \<in> set (coordOutput P));
          perm = programPermits P;
          (fs, ord) = source_coords P 0 (coordNames P) ([], []);
          fs = (if coordNames P = []
                then fs @ [\<lparr>f_name = ''c0_lane'', f_coord = 0, f_size = 32, f_bind = Lane\<rparr>] else fs);
          st = stage_init\<lparr>
            engine := (if hasAlgebra P TensorSum then TensorOp else ScalarFma),
            prefetch := IterationStart,
            predicate := (if guards P = [] then NoPredicate else Branch),
            exchange := (if anyR \<and> p_partition perm then ShuffleTree else NoExchange),
            factors := fs,
            order := ord,
            storage := map (\<lambda>t. access_storage_init\<lparr>as_tensor := of_nat t, as_kind := DeviceStorage\<rparr>)
                         [0..<length (tensors P)]\<rparr>
      in \<lparr>s_kernel = kernel P, s_why = ''source'', stages = [st]\<rparr>)"

subsection \<open>Edits\<close>

definition map_stages :: "(stage_schedule \<Rightarrow> stage_schedule) \<Rightarrow> schedule \<Rightarrow> schedule" where
  "map_stages g S = S\<lparr>stages := map g (stages S)\<rparr>"

text \<open>\<open>for (auto& f : st.factors) if (p(f)) { f.bind = b; break; }\<close>.\<close>

fun rebind_first :: "(factor \<Rightarrow> bool) \<Rightarrow> Bind \<Rightarrow> factor list \<Rightarrow> factor list" where
  "rebind_first p b [] = []"
| "rebind_first p b (f # fs) = (if p f then f\<lparr>f_bind := b\<rparr> # fs else f # rebind_first p b fs)"

definition editEngineTensorOp :: "schedule \<Rightarrow> schedule" where
  "editEngineTensorOp S =
     map_stages (\<lambda>st. st\<lparr>engine := TensorOp, tensorM := 32, tensorN := 32, tensorK := 32,
         storage := map (\<lambda>a. if as_kind a = Register then a\<lparr>as_kind := CoopTensor\<rparr> else a) (storage st)\<rparr>)
       (S\<lparr>s_why := ''engine:tensor-op''\<rparr>)"

definition editRestage2 :: "schedule \<Rightarrow> schedule" where
  "editRestage2 S =
     map_stages (\<lambda>st. st\<lparr>
         storage := map (\<lambda>a. if as_kind a = Threadgroup then a\<lparr>ringStages := 2\<rparr> else a) (storage st),
         smemBytes := (if smemBytes st \<noteq> 0 then min (smemBytes st) 32768 else 16384)\<rparr>)
       (S\<lparr>s_why := ''restage:2''\<rparr>)"

definition editSimdSplit :: "schedule \<Rightarrow> u32 \<Rightarrow> schedule" where
  "editSimdSplit S F =
     map_stages (\<lambda>st. st\<lparr>threadScale := F,
         factors :=
           (if \<exists>f \<in> set (factors st). f_bind f = Unroll
            then map (\<lambda>f. if f_bind f = Unroll then f\<lparr>f_bind := Simdgroup\<rparr> else f) (factors st)
            else rebind_first (\<lambda>f. f_bind f = Time \<and> f_size f \<noteq> 1) Simdgroup (factors st))\<rparr>)
       (S\<lparr>s_why := ''split:simdgroup*'' @ to_string (unat F)\<rparr>)"

definition editDeviceStream :: "schedule \<Rightarrow> schedule" where
  "editDeviceStream S =
     map_stages (\<lambda>st. st\<lparr>
         storage := map (\<lambda>a. if as_kind a = Threadgroup then a\<lparr>as_kind := DeviceStorage\<rparr> else a) (storage st),
         prefetch := IterationStart, smemBytes := 0\<rparr>)
       (S\<lparr>s_why := ''storage:device-stream''\<rparr>)"

definition editGuardedZeroPage :: "schedule \<Rightarrow> schedule" where
  "editGuardedZeroPage S =
     map_stages (\<lambda>st. st\<lparr>predicate := ZeroPage\<rparr>) (S\<lparr>s_why := ''predicate:zero-page''\<rparr>)"

definition editReplicate :: "schedule \<Rightarrow> schedule" where
  "editReplicate S =
     map_stages (\<lambda>st. st\<lparr>factors := rebind_first (\<lambda>f. f_bind f = Lane) Replicate (factors st)\<rparr>)
       (S\<lparr>s_why := ''bind:replicate''\<rparr>)"

definition editBindDevice :: "schedule \<Rightarrow> schedule" where
  "editBindDevice S =
     map_stages (\<lambda>st. st\<lparr>factors := rebind_first (\<lambda>f. f_bind f = BlockX) DeviceBind (factors st),
         exchange := Collective\<rparr>)
       (S\<lparr>s_why := ''bind:device''\<rparr>)"

definition stageShape :: "schedule \<Rightarrow> string" where
  "stageShape S =
     (case stages S of [] \<Rightarrow> ''stage-shape none''
      | st # _ \<Rightarrow>
        ''stage-shape contraction stages='' @ to_string (length (stages S))
        @ '' engine='' @ engineName (engine st)
        @ (if \<exists>f \<in> set (factors st). f_bind f = Time then '' k=time'' else []))"

subsection \<open>Names and parsers are inverse\<close>

text \<open>What the text format needs of an enumeration: every printed name parses back, and nothing
  else does.\<close>

locale enum_names =
  fixes name :: "'a \<Rightarrow> string" and parse :: "string \<Rightarrow> 'a option"
  assumes parse_name: "parse (name x) = Some x"
    and name_parse: "parse s = Some x \<Longrightarrow> name x = s"
    and name_token: "is_token (name x)"
begin

lemma name_inject: "name x = name y \<longleftrightarrow> x = y"
  by (metis parse_name option.inject)

lemma parse_iff: "parse s = Some x \<longleftrightarrow> s = name x"
  using parse_name name_parse by blast

lemma parse_none: "parse s = None \<longleftrightarrow> s \<notin> range name"
proof
  assume "parse s = None"
  then show "s \<notin> range name" using parse_name by auto
next
  assume "s \<notin> range name"
  then show "parse s = None" using name_parse by (cases "parse s") auto
qed

end

interpretation bind_enum: enum_names bindName parseBind
proof
  show "parseBind (bindName x) = Some x" for x by (cases x) (simp_all add: parseBind_def)
  show "parseBind s = Some x \<Longrightarrow> bindName x = s" for s x
    unfolding parseBind_def by (auto split: if_splits)
  show "is_token (bindName x)" for x by (cases x) (simp_all add: is_token_def isspace_def)
qed

interpretation storage_enum: enum_names storageName parseStorage
proof
  show "parseStorage (storageName x) = Some x" for x by (cases x) (simp_all add: parseStorage_def)
  show "parseStorage s = Some x \<Longrightarrow> storageName x = s" for s x
    unfolding parseStorage_def by (auto split: if_splits)
  show "is_token (storageName x)" for x by (cases x) (simp_all add: is_token_def isspace_def)
qed

interpretation engine_enum: enum_names engineName parseEngine
proof
  show "parseEngine (engineName x) = Some x" for x by (cases x) (simp_all add: parseEngine_def)
  show "parseEngine s = Some x \<Longrightarrow> engineName x = s" for s x
    unfolding parseEngine_def by (auto split: if_splits)
  show "is_token (engineName x)" for x by (cases x) (simp_all add: is_token_def isspace_def)
qed

interpretation exchange_enum: enum_names exchangeName parseExchange
proof
  show "parseExchange (exchangeName x) = Some x" for x by (cases x) (simp_all add: parseExchange_def)
  show "parseExchange s = Some x \<Longrightarrow> exchangeName x = s" for s x
    unfolding parseExchange_def by (auto split: if_splits)
  show "is_token (exchangeName x)" for x by (cases x) (simp_all add: is_token_def isspace_def)
qed

interpretation prefetch_enum: enum_names prefetchName parsePrefetch
proof
  show "parsePrefetch (prefetchName x) = Some x" for x by (cases x) (simp_all add: parsePrefetch_def)
  show "parsePrefetch s = Some x \<Longrightarrow> prefetchName x = s" for s x
    unfolding parsePrefetch_def by (auto split: if_splits)
  show "is_token (prefetchName x)" for x by (cases x) (simp_all add: is_token_def isspace_def)
qed

interpretation predicate_enum: enum_names predicateName parsePredicate
proof
  show "parsePredicate (predicateName x) = Some x" for x by (cases x) (simp_all add: parsePredicate_def)
  show "parsePredicate s = Some x \<Longrightarrow> predicateName x = s" for s x
    unfolding parsePredicate_def by (auto split: if_splits)
  show "is_token (predicateName x)" for x by (cases x) (simp_all add: is_token_def isspace_def)
qed

lemmas enum_parse_names [text_simps] =
  bind_enum.parse_name storage_enum.parse_name engine_enum.parse_name exchange_enum.parse_name
  prefetch_enum.parse_name predicate_enum.parse_name

lemmas enum_tokens [text_simps] =
  bind_enum.name_token storage_enum.name_token engine_enum.name_token exchange_enum.name_token
  prefetch_enum.name_token predicate_enum.name_token

subsection \<open>Well-formedness: the check against its specification\<close>

text \<open>The sizes the emitter can strength-reduce: \<open>*\<close>, three planes, or a power of two.\<close>

definition legal_size :: "u32 \<Rightarrow> bool" where
  "legal_size z \<longleftrightarrow> z = 0 \<or> z = 3 \<or> (\<exists>k < 32. z = 2 ^ k)"

definition stage_ok :: "('e, 'i) program \<Rightarrow> stage_schedule \<Rightarrow> bool" where
  "stage_ok P st \<longleftrightarrow>
     (coordNames P \<noteq> [] \<longrightarrow> (\<forall>f \<in> set (factors st). unat (f_coord f) < length (coordNames P))) \<and>
     distinct (map f_name (factors st)) \<and>
     (\<forall>f \<in> set (factors st). legal_size (f_size f)) \<and>
     (\<forall>j < length (coordNames P). \<exists>f \<in> set (factors st). f_coord f = of_nat j) \<and>
     set (order st) \<subseteq> f_name ` set (factors st) \<and>
     1 \<le> threadScale st \<and> threadScale st \<le> 32 \<and>
     smemBytes st \<le> 232448 \<and>
     (engine st = TensorOp \<longrightarrow> 16 \<le> tensorM st \<and> 8 \<le> tensorN st \<and> 8 \<le> tensorK st)"

definition schedule_ok :: "('e, 'i) program \<Rightarrow> schedule \<Rightarrow> bool" where
  "schedule_ok P S \<longleftrightarrow> stages S \<noteq> [] \<and> (\<forall>st \<in> set (stages S). stage_ok P st)"

lemma nat_and_pred_pow2: "0 < n \<Longrightarrow> n AND (n - 1) = 0 \<longleftrightarrow> (\<exists>k. n = (2 :: nat) ^ k)"
proof (induction n rule: less_induct)
  case (less n)
  show ?case
  proof (cases "even n")
    case True
    then obtain m where n: "n = 2 * m" by (elim evenE)
    with less.prems have m: "0 < m" "m < n" by simp_all
    have h: "(n - 1) div 2 = m - 1" "odd (n - 1)" using n m by presburger+
    have "n AND (n - 1) = 2 * (m AND (m - 1))"
      using and_rec [of n "n - 1"] h by (simp add: n)
    then have "n AND (n - 1) = 0 \<longleftrightarrow> (\<exists>k. m = 2 ^ k)"
      using less.IH [OF m(2,1)] by simp
    also have "\<dots> \<longleftrightarrow> (\<exists>k. n = 2 ^ k)"
    proof
      assume "\<exists>k. n = 2 ^ k"
      then obtain k where k: "n = 2 ^ k" by blast
      with True have "k \<noteq> 0" by (cases k) auto
      with k n show "\<exists>k. m = 2 ^ k" by (cases k) auto
    next
      assume "\<exists>k. m = 2 ^ k"
      then show "\<exists>k. n = 2 ^ k" using n by (metis power_Suc)
    qed
    finally show ?thesis .
  next
    case False
    then obtain m where n: "n = 2 * m + 1" by (elim oddE)
    then have "n AND (n - 1) = 2 * m"
      using and_rec [of n "n - 1"] by (simp add: n)
    moreover have "(\<exists>k. n = 2 ^ k) \<longleftrightarrow> m = 0"
    proof
      assume "\<exists>k. n = 2 ^ k"
      then obtain k where k: "n = 2 ^ k" by blast
      with False have "k = 0" by (cases k) auto
      with k n show "m = 0" by simp
    next
      assume "m = 0"
      then show "\<exists>k. n = 2 ^ k" using n by (intro exI [of _ 0]) simp
    qed
    ultimately show ?thesis by simp
  qed
qed

lemma word_eq_pow2: "(x :: u32) = 2 ^ k \<longleftrightarrow> unat x = 2 ^ k" if "k < 32"
proof -
  have "(2 :: nat) ^ k < 2 ^ 32"
    using that by (intro power_strict_increasing) simp_all
  then have "take_bit LENGTH(32) ((2 :: nat) ^ k) = 2 ^ k"
    by (intro take_bit_nat_eq_self) simp
  then have "unat (of_nat (2 ^ k) :: u32) = 2 ^ k"
    by (simp only: unsigned_of_nat of_nat_id)
  then have "unat (2 ^ k :: u32) = 2 ^ k" by simp
  then show ?thesis by (metis unat_inject)
qed

lemma and_pred_zero: "x \<noteq> 0 \<Longrightarrow> x AND (x - 1) = 0 \<longleftrightarrow> (\<exists>k < 32. (x :: u32) = 2 ^ k)"
proof -
  assume x: "x \<noteq> 0"
  then have n: "0 < unat x" by (simp add: unsigned_eq_0_iff neq0_conv [symmetric] del: neq0_conv)
  have "unat (x - 1) = unat x - 1"
    using x by (simp add: unat_minus_one)
  then have "unat (x AND (x - 1)) = unat x AND (unat x - 1)"
    by (simp add: unsigned_and_eq)
  then have "x AND (x - 1) = 0 \<longleftrightarrow> (\<exists>k. unat x = 2 ^ k)"
    using nat_and_pred_pow2 [OF n] by (metis unsigned_0 unat_inject)
  also have "\<dots> \<longleftrightarrow> (\<exists>k < 32. x = 2 ^ k)"
  proof
    assume "\<exists>k. unat x = 2 ^ k"
    then obtain k where k: "unat x = 2 ^ k" by blast
    have "(2 :: nat) ^ k < 2 ^ 32" using unat_u32_less [of x] k by simp
    then have "k < 32" by (simp only: power_strict_increasing_iff)
    with k show "\<exists>k < 32. x = 2 ^ k" using word_eq_pow2 by blast
  next
    assume "\<exists>k < 32. x = 2 ^ k"
    then show "\<exists>k. unat x = 2 ^ k" using word_eq_pow2 by blast
  qed
  finally show ?thesis .
qed

lemma size_check: "(z \<noteq> 0 \<and> z AND (z - 1) \<noteq> 0 \<and> z \<noteq> 3) \<longleftrightarrow> \<not> legal_size z"
  using and_pred_zero [of z] by (auto simp: legal_size_def)

lemma wf_factors_ok:
  "wf_factors P si fs covered names = Inr r \<longleftrightarrow>
     (coordNames P \<noteq> [] \<longrightarrow> (\<forall>f \<in> set fs. unat (f_coord f) < length (coordNames P))) \<and>
     distinct (map f_name fs) \<and> f_name ` set fs \<inter> names = {} \<and>
     (\<forall>f \<in> set fs. legal_size (f_size f)) \<and>
     r = (f_coord ` set fs \<union> covered, f_name ` set fs \<union> names)"
proof (induction fs arbitrary: covered names)
  case Nil
  then show ?case by auto
next
  case (Cons f fs)
  show ?case
    by (simp only: wf_factors.simps size_check Cons.IH split: if_split) auto
qed

lemma wf_covered_ok: "wf_covered covered j cs = None \<longleftrightarrow> (\<forall>i < length cs. of_nat (j + i) \<in> covered)"
proof (induction covered j cs rule: wf_covered.induct)
  case (2 covered j c cs)
  have "(\<forall>i < Suc (length cs). of_nat (j + i) \<in> covered) \<longleftrightarrow>
      of_nat j \<in> covered \<and> (\<forall>i < length cs. of_nat (Suc (j + i)) \<in> covered)"
    by (simp only: All_less_Suc2) simp
  with 2 show ?case by simp
qed simp

lemma wf_order_ok: "wf_order names ns = None \<longleftrightarrow> set ns \<subseteq> names"
  by (induction ns) auto

lemma one_le_u32: "1 \<le> (x :: u32) \<longleftrightarrow> x \<noteq> 0"
  by (simp add: word_le_nat_alt Suc_le_eq unsigned_eq_0_iff neq0_conv [symmetric] del: neq0_conv)

lemma wf_stage_ok: "wf_stage P si st = None \<longleftrightarrow> stage_ok P st"
proof (cases "wf_factors P si (factors st) {} {}")
  case (Inl why)
  then have "\<And>r. wf_factors P si (factors st) {} {} \<noteq> Inr r" by simp
  then have "\<not> stage_ok P st" by (auto simp: wf_factors_ok stage_ok_def)
  with Inl show ?thesis by (simp add: wf_stage_def)
next
  case (Inr r)
  then have fs: "coordNames P \<noteq> [] \<longrightarrow> (\<forall>f \<in> set (factors st). unat (f_coord f) < length (coordNames P))"
    "distinct (map f_name (factors st))" "\<forall>f \<in> set (factors st). legal_size (f_size f)"
    and r: "r = (f_coord ` set (factors st), f_name ` set (factors st))"
    by (simp_all add: wf_factors_ok)
  have cov: "wf_covered (f_coord ` set (factors st)) 0 (coordNames P) = None \<longleftrightarrow>
      (\<forall>j < length (coordNames P). \<exists>f \<in> set (factors st). f_coord f = of_nat j)"
    by (simp add: wf_covered_ok image_iff) metis
  have shape: "\<not> (engine st = TensorOp \<and> (tensorM st < 16 \<or> tensorN st < 8 \<or> tensorK st < 8)) \<longleftrightarrow>
      (engine st = TensorOp \<longrightarrow> 16 \<le> tensorM st \<and> 8 \<le> tensorN st \<and> 8 \<le> tensorK st)"
    by (simp only: not_less de_Morgan_conj de_Morgan_disj imp_conv_disj)
  have ts: "threadScale st = 0 \<or> 32 < threadScale st \<longleftrightarrow> \<not> (1 \<le> threadScale st \<and> threadScale st \<le> 32)"
    by (auto simp: one_le_u32)
  have "wf_stage P si st = None \<longleftrightarrow>
     wf_covered (f_coord ` set (factors st)) 0 (coordNames P) = None \<and>
     wf_order (f_name ` set (factors st)) (order st) = None \<and>
     \<not> (threadScale st = 0 \<or> 32 < threadScale st) \<and> \<not> 232448 < smemBytes st \<and>
     \<not> (engine st = TensorOp \<and> (tensorM st < 16 \<or> tensorN st < 8 \<or> tensorK st < 8))"
    by (simp add: wf_stage_def Inr r split: option.split)
  also have "\<dots> \<longleftrightarrow> stage_ok P st"
    unfolding stage_ok_def cov wf_order_ok ts shape not_less not_not using fs by blast
  finally show ?thesis .
qed

lemma wf_stages_ok: "wf_stages P si sts = None \<longleftrightarrow> (\<forall>st \<in> set sts. stage_ok P st)"
proof (induction sts arbitrary: si)
  case (Cons st sts)
  then show ?case
    using wf_stage_ok [of P si st] by (cases "wf_stage P si st") simp_all
qed simp

lemma wellFormed_ok_iff: "wf_ok (wellFormed P S) \<longleftrightarrow> schedule_ok P S"
  by (auto simp: wellFormed_def schedule_ok_def wf_stages_ok [of P 0, symmetric] split: option.split)

text \<open>C12: the well-formedness check accepts exactly the schedules of the specification: some
  stage; in every stage coordinates in range, every coordinate bound, distinct factor names, sizes
  \<open>*\<close>, 3 or a power of two, an order over known factors, a thread scale between 1 and 32, shared
  memory below the spill ceiling and a tensor shape the smallest matmul fits in.\<close>

theorem wellFormed_iff: "wf_ok (wellFormed P S) \<longleftrightarrow> schedule_ok P S"
  by (rule wellFormed_ok_iff)

subsection \<open>The source schedule is well-formed\<close>

text \<open>The factors the loop adds for one coordinate, listed.\<close>

definition coord_factors :: "('e, 'i) program \<Rightarrow> nat \<Rightarrow> string \<Rightarrow> factor list" where
  "coord_factors P j nm =
     (let axes = (if j < length (coordPhys P) then parsePhys (coordPhys P ! j) else []);
          lo = count_axes (\<lambda>a. fst a = CHR ''b'' \<and> snd a < 5) axes;
          hi = count_axes (\<lambda>a. fst a = CHR ''b'' \<and> \<not> snd a < 5) axes;
          mk = (\<lambda>suffix sz b. \<lparr>f_name = nm @ suffix, f_coord = of_nat j, f_size = sz, f_bind = b\<rparr>);
          fs = (if lo \<noteq> 0 then [mk ''_lane'' (bit_size lo) Lane] else [])
             @ (if hi \<noteq> 0 then [mk ''_sg'' (bit_size hi) Simdgroup] else [])
             @ (if \<exists>a \<in> set axes. fst a = CHR ''i'' then [mk ''_k'' 0 Time] else [])
             @ (if \<exists>a \<in> set axes. fst a = CHR ''d'' then [mk ''_u'' 0 Unroll] else [])
      in if fs \<noteq> [] then fs
         else if isOutput P j then [mk ''_blk'' 1 BlockX] else [mk ''_r'' 1 Time])"

definition time_names :: "factor list \<Rightarrow> string list" where
  "time_names fs = map f_name (List.filter (\<lambda>f. f_bind f = Time) fs)"

lemma count_axes_has:
  "count_axes (\<lambda>a. fst a = c \<and> p a) axes \<noteq> 0 \<Longrightarrow> \<exists>a \<in> set axes. fst a = c"
  by (auto simp: count_axes_def filter_empty_conv)

lemma source_coord_factors:
  assumes "fs = [] \<or> f_coord (last fs) \<noteq> of_nat j"
  shows "source_coord P j nm (fs, ord)
    = (fs @ coord_factors P j nm, ord @ time_names (coord_factors P j nm))"
proof -
  define axes where "axes = (if j < length (coordPhys P) then parsePhys (coordPhys P ! j) else [])"
  define lo where "lo = count_axes (\<lambda>a. fst a = CHR ''b'' \<and> snd a < 5) axes"
  define hi where "hi = count_axes (\<lambda>a. fst a = CHR ''b'' \<and> \<not> snd a < 5) axes"
  define b where "b = (\<exists>a \<in> set axes. fst a = CHR ''b'')"
  define i where "i = (\<exists>a \<in> set axes. fst a = CHR ''i'')"
  define d where "d = (\<exists>a \<in> set axes. fst a = CHR ''d'')"
  have b: "lo \<noteq> 0 \<longrightarrow> b" "hi \<noteq> 0 \<longrightarrow> b"
    unfolding lo_def hi_def b_def
    using count_axes_has [of "CHR ''b''" "\<lambda>a. snd a < 5" axes]
      count_axes_has [of "CHR ''b''" "\<lambda>a. \<not> snd a < 5" axes] by blast+
  show ?thesis
    unfolding source_coord_def coord_factors_def Let_def split_conv axes_def [symmetric]
      lo_def [symmetric] hi_def [symmetric] b_def [symmetric] i_def [symmetric] d_def [symmetric]
    using assms b
    by (cases "lo = 0"; cases "hi = 0"; cases i; cases d; cases "isOutput P j")
      (simp_all add: time_names_def)
qed

definition factor_suffixes :: "string set" where
  "factor_suffixes = {''_lane'', ''_sg'', ''_k'', ''_u'', ''_blk'', ''_r''}"

lemma suffix_split:
  assumes "x @ s = y @ t" and "s \<in> factor_suffixes" and "t \<in> factor_suffixes"
  shows "x = y"
proof -
  from assms(1) have "rev s @ rev x = rev t @ rev y" by (metis rev_append)
  with assms(2,3) show ?thesis by (auto simp: factor_suffixes_def)
qed

lemma legal_bit_size: "legal_size (bit_size n)"
proof -
  have "bit_size n = 2 ^ min n 5" by (simp add: bit_size_def push_bit_eq_mult)
  moreover have "min n 5 < (32 :: nat)" by simp
  ultimately show ?thesis unfolding legal_size_def by blast
qed

lemma legal_size_simps [simp]: "legal_size 0" "legal_size 1" "legal_size 32"
proof -
  show "legal_size 0" by (simp add: legal_size_def)
  have "(1 :: u32) = 2 ^ 0" "(32 :: u32) = 2 ^ 5" by simp_all
  moreover have "(0 :: nat) < 32" "(5 :: nat) < 32" by simp_all
  ultimately show "legal_size 1" "legal_size 32" unfolding legal_size_def by blast+
qed

lemma coord_factors_props:
  "coord_factors P j nm \<noteq> []"
  "f \<in> set (coord_factors P j nm) \<Longrightarrow> f_coord f = of_nat j"
  "f \<in> set (coord_factors P j nm) \<Longrightarrow> \<exists>s \<in> factor_suffixes. f_name f = nm @ s"
  "f \<in> set (coord_factors P j nm) \<Longrightarrow> legal_size (f_size f)"
  "distinct (map f_name (coord_factors P j nm))"
  unfolding coord_factors_def Let_def
  by (auto simp: legal_bit_size factor_suffixes_def split: if_splits)

fun all_factors :: "('e, 'i) program \<Rightarrow> nat \<Rightarrow> string list \<Rightarrow> factor list" where
  "all_factors P j [] = []"
| "all_factors P j (nm # nms) = coord_factors P j nm @ all_factors P (j + 1) nms"

lemma of_nat_u32_eq: "i < 4294967296 \<Longrightarrow> j < 4294967296 \<Longrightarrow> (of_nat i :: u32) = of_nat j \<longleftrightarrow> i = j"
proof -
  assume "i < 4294967296" "j < 4294967296"
  then have "take_bit LENGTH(32) i = i" "take_bit LENGTH(32) j = j"
    by (simp_all add: take_bit_nat_eq_self)
  then have "unat (of_nat i :: u32) = i" "unat (of_nat j :: u32) = j"
    by (simp_all only: unsigned_of_nat of_nat_id)
  then show ?thesis by metis
qed

lemma source_coords_factors:
  assumes "fs = [] \<or> (\<exists>i < j. f_coord (last fs) = of_nat i)"
    and "j + length nms \<le> 4294967296"
  shows "source_coords P j nms (fs, ord)
    = (fs @ all_factors P j nms, ord @ time_names (all_factors P j nms))"
  using assms
proof (induction nms arbitrary: j fs ord)
  case Nil
  then show ?case by (simp add: time_names_def)
next
  case (Cons nm nms)
  let ?c = "coord_factors P j nm"
  have "fs = [] \<or> f_coord (last fs) \<noteq> of_nat j"
    using Cons.prems of_nat_u32_eq by fastforce
  then have step: "source_coord P j nm (fs, ord) = (fs @ ?c, ord @ time_names ?c)"
    by (rule source_coord_factors)
  have "f_coord (last (fs @ ?c)) = of_nat j"
    using coord_factors_props(1) [of P j nm] coord_factors_props(2) [of "last ?c" P j nm] by simp
  then have "source_coords P (j + 1) nms (fs @ ?c, ord @ time_names ?c)
      = ((fs @ ?c) @ all_factors P (j + 1) nms, (ord @ time_names ?c) @ time_names (all_factors P (j + 1) nms))"
    using Cons.prems(2) by (intro Cons.IH) (auto intro: exI [of _ j])
  with step show ?case by (simp add: time_names_def)
qed

lemma all_factors_set:
  "f \<in> set (all_factors P j nms) \<longleftrightarrow> (\<exists>i < length nms. f \<in> set (coord_factors P (j + i) (nms ! i)))"
proof (induction nms arbitrary: j)
  case (Cons nm nms)
  have "(\<exists>i < Suc (length nms). f \<in> set (coord_factors P (j + i) ((nm # nms) ! i)))
      \<longleftrightarrow> f \<in> set (coord_factors P j nm) \<or> (\<exists>i < length nms. f \<in> set (coord_factors P (Suc j + i) (nms ! i)))"
    by (simp only: Ex_less_Suc2) simp
  with Cons show ?case by simp
qed simp

lemma all_factors_names: "f \<in> set (all_factors P j nms) \<Longrightarrow> \<exists>nm \<in> set nms. \<exists>s \<in> factor_suffixes. f_name f = nm @ s"
  by (induction nms arbitrary: j) (auto dest: coord_factors_props(3))

lemma all_factors_distinct: "distinct nms \<Longrightarrow> distinct (map f_name (all_factors P j nms))"
proof (induction nms arbitrary: j)
  case (Cons nm nms)
  have "f_name ` set (coord_factors P j nm) \<inter> f_name ` set (all_factors P (j + 1) nms) = {}"
  proof (rule equals0I, elim IntE imageE)
    fix x f g
    assume "f \<in> set (coord_factors P j nm)" and "g \<in> set (all_factors P (j + 1) nms)"
      and "x = f_name f" and "x = f_name g"
    then obtain m s t where "m \<in> set nms" "s \<in> factor_suffixes" "t \<in> factor_suffixes" "nm @ s = m @ t"
      by (metis all_factors_names coord_factors_props(3))
    with Cons.prems show False by (auto dest: suffix_split)
  qed
  with Cons show ?case by (simp add: coord_factors_props(5))
qed simp

lemma time_names_subset: "set (time_names fs) \<subseteq> f_name ` set fs"
  by (auto simp: time_names_def)

lemma source_wellFormed:
  assumes "distinct (coordNames P)" and "length (coordNames P) \<le> 2 ^ 32"
  shows "wf_ok (wellFormed P (sourceSchedule P))"
proof -
  let ?n = "length (coordNames P)"
  let ?fs = "all_factors P 0 (coordNames P)"
  have coords: "source_coords P 0 (coordNames P) ([], []) = (?fs, time_names ?fs)"
    using source_coords_factors [of "[]" 0 "coordNames P" P "[]"] assms(2) by simp
  have f: "\<exists>i < ?n. f_coord f = of_nat i \<and> legal_size (f_size f)" if "f \<in> set ?fs" for f
    using that by (auto simp: all_factors_set dest: coord_factors_props(2,4))
  have cov: "\<exists>f \<in> set ?fs. f_coord f = of_nat j" if "j < ?n" for j
  proof -
    obtain f where "f \<in> set (coord_factors P j (coordNames P ! j))"
      using coord_factors_props(1) by (metis list.set_intros(1) neq_Nil_conv)
    moreover from this that have "f \<in> set ?fs"
      by (auto simp: all_factors_set)
    ultimately show ?thesis using coord_factors_props(2) by blast
  qed
  have range: "unat (f_coord f) < ?n" if "f \<in> set ?fs" for f
  proof -
    from f [OF that] obtain i where "i < ?n" "f_coord f = of_nat i" by blast
    with assms(2) show ?thesis
      by (simp add: unsigned_of_nat take_bit_nat_eq_self)
  qed
  show ?thesis
  proof (cases "coordNames P = []")
    case True
    then show ?thesis
      by (simp add: wellFormed_ok_iff schedule_ok_def stage_ok_def sourceSchedule_def coords Let_def
          stage_init_def)
  next
    case False
    have "stage_ok P (hd (stages (sourceSchedule P)))"
      using False f cov range time_names_subset [of ?fs] all_factors_distinct [OF assms(1), of P 0]
      by (simp add: stage_ok_def sourceSchedule_def coords Let_def stage_init_def) blast
    moreover have "stages (sourceSchedule P) = [hd (stages (sourceSchedule P))]"
      by (simp add: sourceSchedule_def Let_def split: prod.split)
    ultimately show ?thesis
      by (metis wellFormed_ok_iff schedule_ok_def list.set_cases list.distinct(1) set_ConsD empty_iff
          list.set(1))
  qed
qed

text \<open>C18: the source schedule recovered from any program whose coordinate names are distinct is
  well-formed, whatever the physical axes say: every coordinate gets a factor, also one without any
  physical axis, the generated names never clash, and the sizes are splits the emitter accepts.\<close>

theorem sourceSchedule_wellFormed:
  assumes "distinct (coordNames P)" and "length (coordNames P) \<le> 2 ^ 32"
  shows "wf_ok (wellFormed P (sourceSchedule P))"
  using assms by (rule source_wellFormed)

theorem sourceSchedule_wellFormed_witness:
  "wf_ok (wellFormed (gemm ''g'' :: (nat, nat) program)
     (sourceSchedule (gemm ''g'' :: (nat, nat) program)))"
  by (rule sourceSchedule_wellFormed) (simp_all add: gemm_def)

subsection \<open>Which axes the source schedule recognises\<close>

lemma parse_phys_loop_none:
  "\<forall>c \<in> set s. c \<notin> {CHR ''b'', CHR ''i'', CHR ''d''} \<Longrightarrow> parse_phys_loop s axes = axes"
  by (induction s arbitrary: axes) simp_all

lemma coord_factors_none:
  assumes "j < length (coordPhys P) \<longrightarrow> (\<forall>c \<in> set (coordPhys P ! j). c \<notin> {CHR ''b'', CHR ''i'', CHR ''d''})"
    and "f \<in> set (coord_factors P j nm)"
  shows "f_bind f \<in> {BlockX, Time}"
proof -
  have "(if j < length (coordPhys P) then parsePhys (coordPhys P ! j) else []) = []"
    using assms(1) parse_phys_loop_none [of "coordPhys P ! j" "[]"] by (auto simp: parsePhys_def)
  with assms(2) show ?thesis
    by (auto simp: coord_factors_def count_axes_def split: if_splits)
qed

text \<open>C40: the axes coordinate discovery reports for the threads of a block are named \<open>sg\<close> and \<open>lane\<close>
  (\<open>coords.cpp\<close>), and the scan knows only \<open>b\<close>, \<open>i\<close> and \<open>d\<close> followed by a digit. So for a program all
  of whose coordinates combine these two axes, the recovered schedule binds nothing to a lane or a
  simdgroup: every factor is a block or a time factor.\<close>

theorem sourceSchedule_loses_lanes:
  assumes "coordNames P \<noteq> []" and "length (coordNames P) \<le> 2 ^ 32"
    and "\<forall>s \<in> set (coordPhys P). set s \<subseteq> set ''0123456789 +*sg lane''"
    and "st \<in> set (stages (sourceSchedule P))" and "f \<in> set (factors st)"
  shows "f_bind f \<in> {BlockX, Time}"
proof -
  have coords: "source_coords P 0 (coordNames P) ([], [])
      = (all_factors P 0 (coordNames P), time_names (all_factors P 0 (coordNames P)))"
    using source_coords_factors [of "[]" 0 "coordNames P" P "[]"] assms(2) by simp
  have "f \<in> set (all_factors P 0 (coordNames P))"
    using assms(1,4,5) by (simp add: sourceSchedule_def coords Let_def stage_init_def)
  then obtain j where f: "f \<in> set (coord_factors P j (coordNames P ! j))"
    by (auto simp: all_factors_set)
  have "c \<notin> {CHR ''b'', CHR ''i'', CHR ''d''}" if "j < length (coordPhys P)" "c \<in> set (coordPhys P ! j)" for c
  proof -
    have "c \<in> set ''0123456789 +*sg lane''" using assms(3) that nth_mem by blast
    then show ?thesis by auto
  qed
  with f show ?thesis by (intro coord_factors_none [of j P]) auto
qed

theorem sourceSchedule_loses_lanes_witness:
  "map f_bind (factors (hd (stages (sourceSchedule ((program_init :: (nat, nat) program)
     \<lparr>coordNames := [''c0'', ''c1''], coordOutput := [True, True], coordPhys := [''lane'', ''4*sg'']\<rparr>)))))
   = [BlockX, BlockX]"
proof -
  let ?P = "(program_init :: (nat, nat) program)
     \<lparr>coordNames := [''c0'', ''c1''], coordOutput := [True, True], coordPhys := [''lane'', ''4*sg'']\<rparr>"
  have "\<exists>f g. factors (hd (stages (sourceSchedule ?P))) = [f, g] \<and> f_bind f \<noteq> Time \<and> f_bind g \<noteq> Time"
    by (simp add: sourceSchedule_def source_coord_def parsePhys_def count_axes_def isOutput_def
        stage_init_def program_init_def Let_def)
  then obtain f g where fg: "factors (hd (stages (sourceSchedule ?P))) = [f, g]" "f_bind f \<noteq> Time" "f_bind g \<noteq> Time"
    by blast
  have st: "hd (stages (sourceSchedule ?P)) \<in> set (stages (sourceSchedule ?P))"
    by (simp add: sourceSchedule_def Let_def split: prod.split)
  have P: "coordNames ?P \<noteq> []" "length (coordNames ?P) \<le> 2 ^ 32"
    "\<forall>s \<in> set (coordPhys ?P). set s \<subseteq> set ''0123456789 +*sg lane''" by simp_all
  have "x \<in> set (factors (hd (stages (sourceSchedule ?P))))" if "x \<in> {f, g}" for x
    using that unfolding fg(1) by simp
  then have "f_bind x \<in> {BlockX, Time}" if "x \<in> {f, g}" for x
    using that by (intro sourceSchedule_loses_lanes [OF P st])
  from this [of f] this [of g] show ?thesis using fg(2,3) unfolding fg(1) by simp
qed

subsection \<open>What the edits keep\<close>

text \<open>The part of a stage well-formedness reads: the shape (names, coordinates and sizes of the
  factors, the order) and the resources.\<close>

definition same_shape :: "stage_schedule \<Rightarrow> stage_schedule \<Rightarrow> bool" where
  "same_shape st st' \<longleftrightarrow>
     map f_name (factors st') = map f_name (factors st) \<and>
     map f_coord (factors st') = map f_coord (factors st) \<and>
     map f_size (factors st') = map f_size (factors st) \<and> order st' = order st"

definition resources_ok :: "stage_schedule \<Rightarrow> bool" where
  "resources_ok st \<longleftrightarrow> 1 \<le> threadScale st \<and> threadScale st \<le> 32 \<and> smemBytes st \<le> 232448 \<and>
     (engine st = TensorOp \<longrightarrow> 16 \<le> tensorM st \<and> 8 \<le> tensorN st \<and> 8 \<le> tensorK st)"

lemma stage_ok_shape:
  "stage_ok P st \<longleftrightarrow>
     (coordNames P \<noteq> [] \<longrightarrow> (\<forall>c \<in> set (map f_coord (factors st)). unat c < length (coordNames P))) \<and>
     distinct (map f_name (factors st)) \<and>
     (\<forall>z \<in> set (map f_size (factors st)). legal_size z) \<and>
     (\<forall>j < length (coordNames P). of_nat j \<in> set (map f_coord (factors st))) \<and>
     set (order st) \<subseteq> set (map f_name (factors st)) \<and> resources_ok st"
  unfolding stage_ok_def resources_ok_def by (simp add: image_iff) metis

lemma stage_ok_same_shape:
  "same_shape st st' \<Longrightarrow> (resources_ok st \<Longrightarrow> resources_ok st') \<Longrightarrow> stage_ok P st \<Longrightarrow> stage_ok P st'"
  unfolding stage_ok_shape [of P st] stage_ok_shape [of P st'] same_shape_def by (elim conjE) (intro conjI, simp_all only:)

text \<open>The contract of an edit: stage by stage it keeps the shape and the resource bounds, it keeps
  the kernel, and its provenance is never \<open>source\<close>.\<close>

locale schedule_edit =
  fixes edit :: "schedule \<Rightarrow> schedule"
  assumes stagewise: "list_all2 (\<lambda>st st'. same_shape st st' \<and> (resources_ok st \<longrightarrow> resources_ok st'))
      (stages S) (stages (edit S))"
    and same_kernel: "s_kernel (edit S) = s_kernel S"
    and not_source: "s_why (edit S) \<noteq> ''source''"
begin

lemma stage_count: "length (stages (edit S)) = length (stages S)"
  using stagewise [of S] by (simp add: list_all2_lengthD)

lemma keeps_ok: "schedule_ok P S \<Longrightarrow> schedule_ok P (edit S)"
proof -
  assume ok: "schedule_ok P S"
  have "stage_ok P st'" if "st' \<in> set (stages (edit S))" for st'
  proof -
    from that obtain i where i: "i < length (stages S)" "st' = stages (edit S) ! i"
      by (metis in_set_conv_nth stage_count)
    then have "same_shape (stages S ! i) st'" "resources_ok (stages S ! i) \<Longrightarrow> resources_ok st'"
      using list_all2_nthD [OF stagewise i(1)] by simp_all
    moreover have "stage_ok P (stages S ! i)" using ok i(1) by (simp add: schedule_ok_def)
    ultimately show ?thesis by (rule stage_ok_same_shape)
  qed
  moreover have "stages (edit S) \<noteq> []"
    using ok stage_count [of S] by (auto simp: schedule_ok_def)
  ultimately show ?thesis by (simp add: schedule_ok_def)
qed

lemma keeps_wellFormed: "wf_ok (wellFormed P S) \<Longrightarrow> wf_ok (wellFormed P (edit S))"
  unfolding wellFormed_ok_iff by (rule keeps_ok)

end

lemma map_rebind_first:
  "map f_name (rebind_first p b fs) = map f_name fs"
  "map f_coord (rebind_first p b fs) = map f_coord fs"
  "map f_size (rebind_first p b fs) = map f_size fs"
  by (induction fs) simp_all

lemma list_all2_map_self: "list_all2 R xs (map g xs) \<longleftrightarrow> (\<forall>x \<in> set xs. R x (g x))"
  by (induction xs) simp_all

lemmas edit_simps = map_stages_def list_all2_map_self same_shape_def resources_ok_def
  map_rebind_first if_distrib [where f = f_name] if_distrib [where f = f_coord]
  if_distrib [where f = f_size]

interpretation tensor_op_edit: schedule_edit editEngineTensorOp
  by unfold_locales (simp_all add: editEngineTensorOp_def edit_simps)

lemma restage_smem: "(if z \<noteq> 0 then min z 32768 else 16384) \<le> (232448 :: u32)"
proof -
  have "min z 32768 \<le> 32768" by (rule min.cobounded2)
  also have "(32768 :: u32) \<le> 232448" by simp
  finally show ?thesis by simp
qed

interpretation restage2_edit: schedule_edit editRestage2
  using restage_smem by unfold_locales (simp_all add: editRestage2_def edit_simps)

interpretation device_stream_edit: schedule_edit editDeviceStream
  by unfold_locales (simp_all add: editDeviceStream_def edit_simps)

interpretation zero_page_edit: schedule_edit editGuardedZeroPage
  by unfold_locales (simp_all add: editGuardedZeroPage_def edit_simps)

interpretation replicate_edit: schedule_edit editReplicate
  by unfold_locales (simp_all add: editReplicate_def edit_simps)

interpretation bind_device_edit: schedule_edit editBindDevice
  by unfold_locales (simp_all add: editBindDevice_def edit_simps)

text \<open>The thread-scale split is an edit in this sense exactly for the scales the check accepts.\<close>

lemma simd_split_edit: "schedule_edit (\<lambda>S. editSimdSplit S F) \<longleftrightarrow> 1 \<le> F \<and> F \<le> 32"
proof
  assume e: "schedule_edit (\<lambda>S. editSimdSplit S F)"
  have "resources_ok stage_init" by (simp add: resources_ok_def stage_init_def)
  with schedule_edit.stagewise [OF e, of "schedule_init\<lparr>stages := [stage_init]\<rparr>"]
  show "1 \<le> F \<and> F \<le> 32"
    by (simp add: editSimdSplit_def map_stages_def resources_ok_def)
next
  assume "1 \<le> F \<and> F \<le> 32"
  then show "schedule_edit (\<lambda>S. editSimdSplit S F)"
    by unfold_locales (simp_all add: editSimdSplit_def edit_simps)
qed

interpretation simd_split2_edit: schedule_edit "\<lambda>S. editSimdSplit S 2"
  unfolding simd_split_edit by simp

interpretation simd_split4_edit: schedule_edit "\<lambda>S. editSimdSplit S 4"
  unfolding simd_split_edit by simp

text \<open>C19: every edit the search applies, and the two it does not, turns a well-formed schedule into
  a well-formed one; the thread-scale split does so for every scale from 1 to 32.\<close>

theorem edits_keep_wellFormed:
  assumes "wf_ok (wellFormed P S)" and "1 \<le> F" and "F \<le> 32"
    and "E \<in> {editEngineTensorOp S, editRestage2 S, editSimdSplit S F, editDeviceStream S,
              editGuardedZeroPage S, editReplicate S, editBindDevice S}"
  shows "wf_ok (wellFormed P E)"
proof -
  have "schedule_edit (\<lambda>S. editSimdSplit S F)" using assms(2,3) by (simp add: simd_split_edit)
  from schedule_edit.keeps_wellFormed [OF this assms(1)] show ?thesis
    using assms(4) tensor_op_edit.keeps_wellFormed [OF assms(1)] restage2_edit.keeps_wellFormed [OF assms(1)]
      device_stream_edit.keeps_wellFormed [OF assms(1)] zero_page_edit.keeps_wellFormed [OF assms(1)]
      replicate_edit.keeps_wellFormed [OF assms(1)] bind_device_edit.keeps_wellFormed [OF assms(1)]
    by auto
qed

theorem edits_keep_wellFormed_witness:
  "wf_ok (wellFormed (program_init :: (nat, nat) program)
     (editRestage2 (schedule_init\<lparr>stages := [stage_init\<lparr>smemBytes := 65536\<rparr>]\<rparr>)))"
proof -
  have "wf_ok (wellFormed (program_init :: (nat, nat) program)
      (schedule_init\<lparr>stages := [stage_init\<lparr>smemBytes := 65536\<rparr>]\<rparr>))"
    by (simp add: wellFormed_def wf_stage_def program_init_def schedule_init_def stage_init_def)
  then show ?thesis by (rule edits_keep_wellFormed [where F = 1]) simp_all
qed

end
