(* ===== verification/Schedule_Text.thy ===== *)
theory Schedule_Text
  imports Schedule
begin

text \<open>
  The text form of a schedule (\<open>dump\<close>, \<open>parse\<close> and \<open>parseText\<close> of
  \<open>cpp/mvcc-llvm/schedule.cpp\<close>): a line for the schedule, then for every stage a line, its factors,
  its order and its storage. The reader refuses with a message, or an exception of \<open>std::stoul\<close>
  escapes from it; both are values of \<open>parse_error\<close>.

  The lemmas show that reading what was printed gives the schedule back, but for the fields that
  are not printed, as long as no name contains white space, and what happens to a kernel name that
  does (a demangled signature usually has blanks).
\<close>

subsection \<open>Printing\<close>

definition dump_factor :: "factor \<Rightarrow> string" where
  "dump_factor f =
     ''    split '' @ f_name f @ '' coord='' @ to_string (unat (f_coord f)) @ '' size=''
     @ (if f_size f \<noteq> 0 then to_string (unat (f_size f)) else ''*'') @ '' bind='' @ bindName (f_bind f)"

definition dump_storage :: "access_storage \<Rightarrow> string" where
  "dump_storage a =
     ''    storage t'' @ to_string (unat (as_tensor a)) @ '' '' @ storageName (as_kind a)
     @ (if ringStages a \<noteq> 0 then '' ring='' @ to_string (unat (ringStages a)) else [])"

definition dump_stage :: "nat \<Rightarrow> stage_schedule \<Rightarrow> string list" where
  "dump_stage i st =
     [''  stage '' @ to_string i @ '' engine='' @ engineName (engine st)
      @ '' exchange='' @ exchangeName (exchange st) @ '' prefetch='' @ prefetchName (prefetch st)
      @ '' predicate='' @ predicateName (predicate st)
      @ '' thread_scale='' @ to_string (unat (threadScale st))
      @ '' smem='' @ to_string (unat (smemBytes st))]
     @ map dump_factor (factors st)
     @ (if order st \<noteq> [] then [''    order'' @ concat (map (\<lambda>n. '' '' @ n) (order st))] else [])
     @ map dump_storage (storage st)"

fun dump_stages :: "nat \<Rightarrow> stage_schedule list \<Rightarrow> string list" where
  "dump_stages i [] = []"
| "dump_stages i (st # sts) = dump_stage i st @ dump_stages (i + 1) sts"

definition dump :: "schedule \<Rightarrow> string list" where
  "dump S =
     (''schedule '' @ (if s_kernel S = [] then ''_'' else s_kernel S) @ '' why='' @ s_why S
      @ '' stages='' @ to_string (length (stages S)))
     # dump_stages 0 (stages S)"

text \<open>The line feed the text form ends every line with.\<close>

abbreviation newline :: char where
  "newline \<equiv> CHR 0x0A"

definition canon :: "schedule \<Rightarrow> string" where
  "canon S = concat (map (\<lambda>l. l @ [newline]) (dump S))"

subsection \<open>Reading\<close>

datatype parse_error = Refuse string | Throw cpp_exception

definition is_lead :: "char \<Rightarrow> bool" where
  "is_lead c \<longleftrightarrow> c = CHR '' '' \<or> c = CHR 0x09"

definition is_trail :: "char \<Rightarrow> bool" where
  "is_trail c \<longleftrightarrow> c = CHR '' '' \<or> c = CHR 0x09 \<or> c = CHR 0x0D"

definition trim :: "string \<Rightarrow> string" where
  "trim s = rev (dropWhile is_trail (rev (dropWhile is_lead s)))"

definition after :: "string \<Rightarrow> string \<Rightarrow> string" where
  "after s p = trim (drop (length p) s)"

text \<open>A loop over tokens that an exception or a refusal leaves.\<close>

fun fold_tokens :: "(string \<Rightarrow> 's \<Rightarrow> parse_error + 's) \<Rightarrow> string list \<Rightarrow> 's \<Rightarrow> parse_error + 's" where
  "fold_tokens f [] s = Inr s"
| "fold_tokens f (t # ts) s = (case f t s of Inl e \<Rightarrow> Inl e | Inr s \<Rightarrow> fold_tokens f ts s)"

definition with_unsigned :: "string \<Rightarrow> (u32 \<Rightarrow> 's) \<Rightarrow> parse_error + 's" where
  "with_unsigned s k = (case stoul_unsigned s of Inl e \<Rightarrow> Inl (Throw e) | Inr v \<Rightarrow> Inr (k v))"

definition stage_token :: "string \<Rightarrow> stage_schedule \<Rightarrow> parse_error + stage_schedule" where
  "stage_token tok st =
     (if starts tok ''engine='' then
        Inr (case parseEngine (drop 7 tok) of None \<Rightarrow> st | Some e \<Rightarrow> st\<lparr>engine := e\<rparr>)
      else if starts tok ''exchange='' then
        Inr (case parseExchange (drop 9 tok) of None \<Rightarrow> st | Some e \<Rightarrow> st\<lparr>exchange := e\<rparr>)
      else if starts tok ''prefetch='' then
        Inr (case parsePrefetch (drop 9 tok) of None \<Rightarrow> st | Some e \<Rightarrow> st\<lparr>prefetch := e\<rparr>)
      else if starts tok ''predicate='' then
        Inr (case parsePredicate (drop 10 tok) of None \<Rightarrow> st | Some e \<Rightarrow> st\<lparr>predicate := e\<rparr>)
      else if starts tok ''thread_scale='' then
        with_unsigned (drop 13 tok) (\<lambda>v. st\<lparr>threadScale := v\<rparr>)
      else if starts tok ''smem='' then
        with_unsigned (drop 5 tok) (\<lambda>v. st\<lparr>smemBytes := v\<rparr>)
      else Inr st)"

definition split_token :: "string \<Rightarrow> factor \<Rightarrow> parse_error + factor" where
  "split_token tok f =
     (if starts tok ''coord='' then with_unsigned (drop 6 tok) (\<lambda>v. f\<lparr>f_coord := v\<rparr>)
      else if starts tok ''size='' then
        (if drop 5 tok = ''*'' then Inr (f\<lparr>f_size := 0\<rparr>)
         else with_unsigned (drop 5 tok) (\<lambda>v. f\<lparr>f_size := v\<rparr>))
      else if starts tok ''bind='' then
        (case parseBind (drop 5 tok) of None \<Rightarrow> Inl (Refuse (''bad bind '' @ tok))
         | Some b \<Rightarrow> Inr (f\<lparr>f_bind := b\<rparr>))
      else Inr f)"

definition storage_token :: "string \<Rightarrow> access_storage \<Rightarrow> parse_error + access_storage" where
  "storage_token tok a =
     (if starts tok ''ring='' then with_unsigned (drop 5 tok) (\<lambda>v. a\<lparr>ringStages := v\<rparr>)
      else if starts tok ''ring_bytes='' then with_unsigned (drop 11 tok) (\<lambda>v. a\<lparr>ringBytes := v\<rparr>)
      else Inr a)"

text \<open>The pointer \<open>st\<close> of the code is the last stage of the schedule once there is one.\<close>

definition update_last :: "(stage_schedule \<Rightarrow> stage_schedule) \<Rightarrow> schedule \<Rightarrow> schedule" where
  "update_last g S = S\<lparr>stages := butlast (stages S) @ [g (last (stages S))]\<rparr>"

definition parse_schedule_line :: "string \<Rightarrow> schedule \<Rightarrow> schedule" where
  "parse_schedule_line l S =
     (let k = after l ''schedule '' in
      if CHR '' '' \<notin> set k then S\<lparr>s_kernel := k\<rparr>
      else
        let rest = tl (dropWhile (\<lambda>c. c \<noteq> CHR '' '') k);
            S = S\<lparr>s_kernel := takeWhile (\<lambda>c. c \<noteq> CHR '' '') k\<rparr>
        in if starts rest ''why=''
           then S\<lparr>s_why := takeWhile (\<lambda>c. c \<noteq> CHR '' '') (drop 4 rest)\<rparr> else S)"

definition parse_stage_line :: "string \<Rightarrow> schedule \<Rightarrow> parse_error + schedule" where
  "parse_stage_line l S =
     (case fold_tokens stage_token (tokens (after l ''stage '')) stage_init of
        Inl e \<Rightarrow> Inl e
      | Inr st \<Rightarrow> Inr (S\<lparr>stages := stages S @ [st]\<rparr>))"

definition parse_split_line :: "string \<Rightarrow> schedule \<Rightarrow> parse_error + schedule" where
  "parse_split_line l S =
     (let (nm, toks) = (case tokens (after l ''split '') of [] \<Rightarrow> ([], []) | t # ts \<Rightarrow> (t, ts)) in
      case fold_tokens split_token toks (factor_init\<lparr>f_name := nm\<rparr>) of
        Inl e \<Rightarrow> Inl e
      | Inr f \<Rightarrow> Inr (update_last (\<lambda>st. st\<lparr>factors := factors st @ [f]\<rparr>) S))"

definition parse_storage_line :: "string \<Rightarrow> schedule \<Rightarrow> parse_error + schedule" where
  "parse_storage_line l S =
     (let (t, k, toks) =
        (case tokens (after l ''storage '') of [] \<Rightarrow> ([], [], []) | [t] \<Rightarrow> (t, [], [])
         | t # k # ts \<Rightarrow> (t, k, ts)) in
      case (if t \<noteq> [] \<and> hd t = CHR ''t''
            then with_unsigned (tl t) (\<lambda>v. access_storage_init\<lparr>as_tensor := v\<rparr>)
            else Inr access_storage_init) of
        Inl e \<Rightarrow> Inl e
      | Inr a \<Rightarrow>
        (case parseStorage k of
           None \<Rightarrow> Inl (Refuse (''bad storage '' @ k))
         | Some b \<Rightarrow>
           (case fold_tokens storage_token toks (a\<lparr>as_kind := b\<rparr>) of
              Inl e \<Rightarrow> Inl e
            | Inr a \<Rightarrow> Inr (update_last (\<lambda>st. st\<lparr>storage := storage st @ [a]\<rparr>) S))))"

definition parse_line :: "string \<Rightarrow> schedule \<Rightarrow> parse_error + schedule" where
  "parse_line raw S =
     (let l = trim raw in
      if l = [] \<or> hd l = CHR ''#'' then Inr S
      else if starts l ''schedule '' then Inr (parse_schedule_line l S)
      else if starts l ''stage '' then parse_stage_line l S
      else if stages S = [] then Inl (Refuse ''factor before stage'')
      else if starts l ''split '' then parse_split_line l S
      else if starts l ''order'' then
        Inr (update_last (\<lambda>st. st\<lparr>order := order st @ tokens (after l ''order'')\<rparr>) S)
      else if starts l ''storage '' then parse_storage_line l S
      else Inl (Refuse (''unrecognized schedule line: '' @ l)))"

definition parse :: "string list \<Rightarrow> parse_error + schedule" where
  "parse ls =
     (case fold_tokens parse_line ls schedule_init of
        Inl e \<Rightarrow> Inl e
      | Inr S \<Rightarrow> if stages S = [] then Inl (Refuse ''empty schedule'') else Inr S)"

fun split_lines :: "string \<Rightarrow> string \<Rightarrow> string list" where
  "split_lines [] cur = (if cur \<noteq> [] then [cur] else [])"
| "split_lines (c # s) cur =
     (if c = newline then cur # split_lines s [] else split_lines s (cur @ [c]))"

definition parseText :: "string \<Rightarrow> parse_error + schedule" where
  "parseText s = parse (split_lines s [])"

subsection \<open>Lines as words\<close>

fun unwords :: "string list \<Rightarrow> string" where
  "unwords [] = []"
| "unwords [w] = w"
| "unwords (w # ws) = w @ CHR '' '' # unwords ws"

lemma unwords_Cons: "ws \<noteq> [] \<Longrightarrow> unwords (w # ws) = w @ CHR '' '' # unwords ws"
  by (cases ws) simp_all

lemma concat_blank: "ws \<noteq> [] \<Longrightarrow> concat (map (\<lambda>n. CHR '' '' # n) ws) = CHR '' '' # unwords ws"
  by (induction ws rule: unwords.induct) simp_all

lemma tokens_unwords [text_simps]: "list_all is_token ws \<Longrightarrow> tokens (unwords ws) = ws"
  by (induction ws rule: unwords.induct) (simp_all add: text_simps)

lemma lead_space: "is_lead c \<Longrightarrow> isspace c" and trail_space: "is_trail c \<Longrightarrow> isspace c"
  by (auto simp: is_lead_def is_trail_def isspace_def)

lemma unwords_ends:
  "list_all is_token ws \<Longrightarrow> ws \<noteq> [] \<Longrightarrow>
     unwords ws \<noteq> [] \<and> \<not> isspace (hd (unwords ws)) \<and> \<not> isspace (last (unwords ws))"
  by (induction ws rule: unwords.induct) (auto simp: is_token_def hd_append)

text \<open>Blanks before a line of words are all that \<open>trim\<close> removes.\<close>

lemma trim_solid:
  assumes "w \<noteq> []" and "\<not> isspace (hd w)" and "\<not> isspace (last w)"
  shows "trim w = w" and "trim (CHR '' '' # w) = w" and "trim (''  '' @ w) = w" and "trim (''    '' @ w) = w"
proof -
  have lead: "dropWhile is_lead w = w"
    using assms(1,2) lead_space by (cases w) auto
  have "dropWhile is_trail (rev w) = rev w"
    using assms(1,3) trail_space by (cases w rule: rev_cases) auto
  then show "trim w = w" "trim (CHR '' '' # w) = w" "trim (''  '' @ w) = w" "trim (''    '' @ w) = w"
    by (simp_all add: trim_def lead is_lead_def)
qed

lemma trim_unwords:
  assumes "list_all is_token ws" and "ws \<noteq> []"
  shows "trim (unwords ws) = unwords ws" and "trim (CHR '' '' # unwords ws) = unwords ws"
    and "trim (''  '' @ unwords ws) = unwords ws" and "trim (''    '' @ unwords ws) = unwords ws"
  using trim_solid [of "unwords ws"] unwords_ends [OF assms] by simp_all

lemma after_unwords:
  assumes "list_all is_token ws" and "ws \<noteq> []"
  shows "after (w @ CHR '' '' # unwords ws) (w @ '' '') = unwords ws"
  using trim_unwords(1) [OF assms] by (simp add: after_def)

lemma not_prefix_to_string [text_simps]: "\<not> isdigit c \<Longrightarrow> \<not> prefix (c # p) (to_string n)"
  using hd_to_string [of n] by (cases "to_string n") auto

lemma letters_not_digits [simp]:
  "\<not> isdigit CHR ''e''" "\<not> isdigit CHR ''p''" "\<not> isdigit CHR ''t''" "\<not> isdigit CHR ''s''"
  by (simp_all add: isdigit_def)

lemma with_unsigned_to_string [text_simps]: "with_unsigned (to_string (unat v)) k = Inr (k v)"
  by (simp add: with_unsigned_def stoul_unsigned_to_string)

lemma fold_tokens_append:
  "fold_tokens f (xs @ ys) s = (case fold_tokens f xs s of Inl e \<Rightarrow> Inl e | Inr s \<Rightarrow> fold_tokens f ys s)"
  by (induction xs arbitrary: s) (simp_all split: sum.split)

lemma is_token_Cons [text_simps]: "is_token t \<Longrightarrow> is_token (c # t) \<longleftrightarrow> \<not> isspace c"
  and is_token_single [text_simps]: "is_token [c] \<longleftrightarrow> \<not> isspace c"
  by (auto simp: is_token_def)

subsection \<open>Every printed line reads back\<close>

text \<open>The schedules whose names survive tokenisation, and what is not printed set to its default.\<close>

definition printable_stage :: "stage_schedule \<Rightarrow> bool" where
  "printable_stage st \<longleftrightarrow> (\<forall>f \<in> set (factors st). is_token (f_name f)) \<and> (\<forall>n \<in> set (order st). is_token n)"

definition printable :: "schedule \<Rightarrow> bool" where
  "printable S \<longleftrightarrow> stages S \<noteq> [] \<and> is_token (s_kernel S) \<and> (\<forall>c \<in> set (s_why S). \<not> isspace c) \<and>
     (\<forall>st \<in> set (stages S). printable_stage st)"

definition printed_stage :: "stage_schedule \<Rightarrow> stage_schedule" where
  "printed_stage st = st\<lparr>tensorM := 32, tensorN := 32, tensorK := 32, fusedWith := [],
     storage := map (\<lambda>a. a\<lparr>ringBytes := 0\<rparr>) (storage st)\<rparr>"

definition printed :: "schedule \<Rightarrow> schedule" where
  "printed S = S\<lparr>stages := map printed_stage (stages S)\<rparr>"

text \<open>The stage while it is being read: its line has been read, then \<open>fs\<close>, \<open>os\<close> and \<open>as\<close>.\<close>

definition stage_read :: "stage_schedule \<Rightarrow> factor list \<Rightarrow> string list \<Rightarrow> access_storage list \<Rightarrow> stage_schedule" where
  "stage_read st fs os as = stage_init\<lparr>engine := engine st, exchange := exchange st,
     prefetch := prefetch st, predicate := predicate st, threadScale := threadScale st,
     smemBytes := smemBytes st, factors := fs, order := os, storage := as\<rparr>"

lemma printed_stage_read:
  "printed_stage st = stage_read st (factors st) (order st) (map (\<lambda>a. a\<lparr>ringBytes := 0\<rparr>) (storage st))"
  by (simp add: printed_stage_def stage_read_def stage_init_def)

lemma stage_read_simps [simp]:
  "factors (stage_read st fs os as) = fs" "order (stage_read st fs os as) = os"
  "storage (stage_read st fs os as) = as"
  "(stage_read st fs os as)\<lparr>factors := gs\<rparr> = stage_read st gs os as"
  "(stage_read st fs os as)\<lparr>order := ns\<rparr> = stage_read st fs ns as"
  "(stage_read st fs os as)\<lparr>storage := bs\<rparr> = stage_read st fs os bs"
  by (simp_all add: stage_read_def stage_init_def)

lemma starts_unwords: "ws \<noteq> [] \<Longrightarrow> starts (unwords (w # ws)) (w @ '' '')"
  by (simp add: unwords_Cons)

lemma read_stage_line:
  "parse_line (''  stage '' @ to_string i @ '' engine='' @ engineName (engine st)
      @ '' exchange='' @ exchangeName (exchange st) @ '' prefetch='' @ prefetchName (prefetch st)
      @ '' predicate='' @ predicateName (predicate st)
      @ '' thread_scale='' @ to_string (unat (threadScale st))
      @ '' smem='' @ to_string (unat (smemBytes st))) S
   = Inr (S\<lparr>stages := stages S @ [stage_read st [] [] []]\<rparr>)" (is "parse_line ?l S = _")
proof -
  define ws where "ws = [to_string i, ''engine='' @ engineName (engine st),
    ''exchange='' @ exchangeName (exchange st), ''prefetch='' @ prefetchName (prefetch st),
    ''predicate='' @ predicateName (predicate st), ''thread_scale='' @ to_string (unat (threadScale st)),
    ''smem='' @ to_string (unat (smemBytes st))]"
  have tok: "list_all is_token ws" "ws \<noteq> []"
    by (simp_all add: ws_def text_simps isspace_def)
  have l: "?l = ''  '' @ unwords (''stage'' # ws)" by (simp add: ws_def)
  have "trim ?l = unwords (''stage'' # ws)"
    unfolding l by (rule trim_unwords) (use tok in \<open>simp_all add: text_simps isspace_def\<close>)
  then have t: "trim ?l = ''stage '' @ unwords ws"
    by (simp add: unwords_Cons tok)
  have "after (''stage '' @ unwords ws) ''stage '' = unwords ws"
    using after_unwords [OF tok, of "''stage''"] by simp
  then have "parse_stage_line (''stage '' @ unwords ws) S
      = (case fold_tokens stage_token ws stage_init of Inl e \<Rightarrow> Inl e | Inr st \<Rightarrow> Inr (S\<lparr>stages := stages S @ [st]\<rparr>))"
    by (simp add: parse_stage_line_def tokens_unwords [OF tok(1)])
  also have "fold_tokens stage_token ws stage_init = Inr (stage_read st [] [] [])"
    by (simp add: ws_def stage_token_def text_simps stage_read_def) (simp add: stage_init_def)
  finally show ?thesis
    unfolding parse_line_def t Let_def by simp
qed

text \<open>The lines below a stage line update the stage that is being read.\<close>

definition reading :: "schedule \<Rightarrow> stage_schedule list \<Rightarrow> stage_schedule \<Rightarrow> schedule" where
  "reading S pre cur = S\<lparr>stages := pre @ [cur]\<rparr>"

lemma update_last_reading: "update_last g (reading S pre cur) = reading S pre (g cur)"
  by (simp add: update_last_def reading_def)

lemma stages_reading [simp]: "stages (reading S pre cur) \<noteq> []"
  by (simp add: reading_def)

lemma trim_words4:
  "list_all is_token (w # ws) \<Longrightarrow> ws \<noteq> [] \<Longrightarrow> l = ''    '' @ unwords (w # ws) \<Longrightarrow>
     trim l = (w @ '' '') @ unwords ws"
  using trim_unwords(4) [of "w # ws"] by (simp add: unwords_Cons)

lemma read_factor_line:
  assumes "is_token (f_name f)"
  shows "parse_line (dump_factor f) (reading S pre (stage_read st fs os as))
    = Inr (reading S pre (stage_read st (fs @ [f]) os as))"
proof -
  define sz where "sz = (if f_size f \<noteq> 0 then to_string (unat (f_size f)) else ''*'')"
  define ws where "ws = [''coord='' @ to_string (unat (f_coord f)), ''size='' @ sz, ''bind='' @ bindName (f_bind f)]"
  have sz: "is_token sz" by (simp add: sz_def text_simps isspace_def)
  have tok: "list_all is_token (f_name f # ws)"
    using assms sz by (simp add: ws_def text_simps isspace_def)
  have "dump_factor f = ''    '' @ unwords (''split'' # f_name f # ws)"
    by (simp add: dump_factor_def ws_def sz_def)
  then have t: "trim (dump_factor f) = (''split'' @ '' '') @ unwords (f_name f # ws)"
    using tok by (intro trim_words4) (simp_all add: text_simps isspace_def)
  have "after ((''split'' @ '' '') @ unwords (f_name f # ws)) ''split '' = unwords (f_name f # ws)"
    using after_unwords [OF tok, of "''split''"] by simp
  then have "tokens (after ((''split'' @ '' '') @ unwords (f_name f # ws)) ''split '') = f_name f # ws"
    by (simp only: tokens_unwords [OF tok])
  moreover have "fold_tokens split_token ws (factor_init\<lparr>f_name := f_name f\<rparr>) = Inr f"
  proof (cases "f_size f = 0")
    case True
    then show ?thesis
      by (simp add: ws_def sz_def split_token_def text_simps factor_init_def)
  next
    case False
    then have "to_string (unat (f_size f)) \<noteq> ''*''"
      by (metis hd_to_string_not(4) list.sel(1))
    with False show ?thesis
      by (simp add: ws_def sz_def split_token_def text_simps factor_init_def)
  qed
  ultimately have "parse_split_line ((''split'' @ '' '') @ unwords (f_name f # ws)) (reading S pre (stage_read st fs os as))
      = Inr (reading S pre (stage_read st (fs @ [f]) os as))"
    by (simp add: parse_split_line_def update_last_reading)
  then show ?thesis
    unfolding parse_line_def t Let_def by simp
qed

lemma read_order_line:
  assumes "list_all is_token ns" and "ns \<noteq> []"
  shows "parse_line (''    order'' @ concat (map (\<lambda>n. '' '' @ n) ns)) (reading S pre (stage_read st fs os as))
    = Inr (reading S pre (stage_read st fs (os @ ns) as))"
proof -
  have t: "trim (''    order'' @ concat (map (\<lambda>n. '' '' @ n) ns)) = (''order'' @ '' '') @ unwords ns"
    using assms by (intro trim_words4) (simp_all add: text_simps isspace_def concat_blank unwords_Cons)
  have "tokens (after ((''order'' @ '' '') @ unwords ns) ''order'') = ns"
    using assms by (simp add: after_def trim_unwords tokens_unwords)
  then show ?thesis
    unfolding parse_line_def t Let_def by (simp add: update_last_reading)
qed

lemma read_storage_line:
  "parse_line (dump_storage a) (reading S pre (stage_read st fs os as))
    = Inr (reading S pre (stage_read st fs os (as @ [a\<lparr>ringBytes := 0\<rparr>])))"
proof -
  define r where "r = (if ringStages a \<noteq> 0 then [''ring='' @ to_string (unat (ringStages a))] else [])"
  define t where "t = ''t'' @ to_string (unat (as_tensor a))"
  define ws where "ws = t # storageName (as_kind a) # r"
  have tok: "list_all is_token ws" "ws \<noteq> []"
    by (simp_all add: ws_def t_def r_def text_simps isspace_def)
  have "dump_storage a = ''    '' @ unwords (''storage'' # ws)"
    by (simp add: dump_storage_def ws_def t_def r_def)
  then have trm: "trim (dump_storage a) = (''storage'' @ '' '') @ unwords ws"
    using tok by (intro trim_words4) (simp_all add: text_simps isspace_def)
  have "after ((''storage'' @ '' '') @ unwords ws) ''storage '' = unwords ws"
    using after_unwords [OF tok, of "''storage''"] by simp
  then have "tokens (after ((''storage'' @ '' '') @ unwords ws) ''storage '') = t # storageName (as_kind a) # r"
    by (simp only: tokens_unwords [OF tok(1)]) (simp only: ws_def)
  moreover have "fold_tokens storage_token r (access_storage_init\<lparr>as_tensor := as_tensor a, as_kind := as_kind a\<rparr>)
      = Inr (a\<lparr>ringBytes := 0\<rparr>)"
    by (simp add: r_def storage_token_def text_simps access_storage_init_def)
  ultimately have "parse_storage_line ((''storage'' @ '' '') @ unwords ws) (reading S pre (stage_read st fs os as))
      = Inr (reading S pre (stage_read st fs os (as @ [a\<lparr>ringBytes := 0\<rparr>])))"
    by (simp add: parse_storage_line_def t_def text_simps update_last_reading)
  then show ?thesis
    unfolding parse_line_def trm Let_def by simp
qed

lemma read_factors:
  "\<forall>f \<in> set gs. is_token (f_name f) \<Longrightarrow>
     fold_tokens parse_line (map dump_factor gs) (reading S pre (stage_read st fs os as))
     = Inr (reading S pre (stage_read st (fs @ gs) os as))"
  by (induction gs arbitrary: fs) (simp_all add: read_factor_line)

lemma read_storages:
  "fold_tokens parse_line (map dump_storage bs) (reading S pre (stage_read st fs os as))
     = Inr (reading S pre (stage_read st fs os (as @ map (\<lambda>a. a\<lparr>ringBytes := 0\<rparr>) bs)))"
  by (induction bs arbitrary: as) (simp_all add: read_storage_line)

lemma read_stage:
  assumes "printable_stage st"
  shows "fold_tokens parse_line (dump_stage i st) S = Inr (S\<lparr>stages := stages S @ [printed_stage st]\<rparr>)"
proof -
  let ?r = "\<lambda>fs os as. reading S (stages S) (stage_read st fs os as)"
  have "fold_tokens parse_line (if order st \<noteq> [] then [''    order'' @ concat (map (\<lambda>n. '' '' @ n) (order st))] else [])
      (?r (factors st) [] []) = Inr (?r (factors st) (order st) [])"
    using assms read_order_line [of "order st" S "stages S" st "factors st" "[]" "[]"]
    by (simp add: printable_stage_def list_all_iff)
  moreover have "fold_tokens parse_line (map dump_factor (factors st)) (?r [] [] []) = Inr (?r (factors st) [] [])"
    using assms read_factors [of "factors st"] by (simp add: printable_stage_def)
  ultimately show ?thesis
    unfolding dump_stage_def fold_tokens_append
    by (simp only: fold_tokens.simps read_stage_line sum.case)
      (simp add: reading_def [symmetric] read_storages printed_stage_read)
qed

lemma read_stages:
  "\<forall>st \<in> set sts. printable_stage st \<Longrightarrow>
     fold_tokens parse_line (dump_stages i sts) S = Inr (S\<lparr>stages := stages S @ map printed_stage sts\<rparr>)"
proof (induction sts arbitrary: i S)
  case (Cons st sts)
  then show ?case by (simp add: fold_tokens_append read_stage)
qed simp

subsection \<open>The schedule line\<close>

definition header :: "string \<Rightarrow> string \<Rightarrow> nat \<Rightarrow> string" where
  "header k w n = k @ '' why='' @ w @ '' stages='' @ to_string n"

lemma last_to_string: "\<not> isspace (last (to_string n))"
  using to_string_no_space [of "last (to_string n)" n] by simp

lemma parse_header:
  assumes "k \<noteq> []" and "\<not> isspace (hd k)"
  shows "parse_line (''schedule '' @ header k w n) S =
    (let rest = tl (dropWhile (\<lambda>c. c \<noteq> CHR '' '') (header k w n));
         S = S\<lparr>s_kernel := takeWhile (\<lambda>c. c \<noteq> CHR '' '') (header k w n)\<rparr>
     in Inr (if starts rest ''why=''
             then S\<lparr>s_why := takeWhile (\<lambda>c. c \<noteq> CHR '' '') (drop 4 rest)\<rparr> else S))"
proof -
  have h: "header k w n \<noteq> []" "\<not> isspace (hd (header k w n))" "\<not> isspace (last (header k w n))"
    using assms by (simp_all add: header_def last_to_string)
  have "trim (''schedule '' @ header k w n) = ''schedule '' @ header k w n"
    using h by (intro trim_solid) (simp_all add: isspace_def)
  moreover have "after (''schedule '' @ header k w n) ''schedule '' = header k w n"
    using trim_solid(1) [OF h] by (simp add: after_def)
  moreover have "CHR '' '' \<in> set (header k w n)" by (simp add: header_def)
  ultimately show ?thesis
    by (simp add: parse_line_def parse_schedule_line_def Let_def)
qed

lemma cut_blank:
  "CHR '' '' \<notin> set a \<Longrightarrow> takeWhile (\<lambda>c. c \<noteq> CHR '' '') (a @ CHR '' '' # b) = a"
  "CHR '' '' \<notin> set a \<Longrightarrow> dropWhile (\<lambda>c. c \<noteq> CHR '' '') (a @ CHR '' '' # b) = CHR '' '' # b"
  by (induction a) auto

lemma read_header_token:
  assumes "is_token k" and "\<forall>c \<in> set w. \<not> isspace c"
  shows "parse_line (''schedule '' @ header k w n) S = Inr (S\<lparr>s_kernel := k, s_why := w\<rparr>)"
proof -
  have k: "k \<noteq> []" "\<not> isspace (hd k)" "CHR '' '' \<notin> set k" "CHR '' '' \<notin> set w"
    using assms by (auto simp: is_token_def)
  show ?thesis
    unfolding parse_header [OF k(1,2)]
    using k(3,4) by (simp add: header_def cut_blank Let_def)
qed

lemma read_header_blank:
  assumes "is_token a" and "\<not> prefix ''why='' b"
  shows "parse_line (''schedule '' @ header (a @ CHR '' '' # b) w n) S = Inr (S\<lparr>s_kernel := a\<rparr>)"
proof -
  have a: "a @ CHR '' '' # b \<noteq> []" "\<not> isspace (hd (a @ CHR '' '' # b))" "CHR '' '' \<notin> set a"
    using assms(1) by (auto simp: is_token_def)
  have "\<not> prefix ''why='' (b @ '' why='' @ w @ '' stages='' @ to_string n)"
    using assms(2) by (auto simp: prefix_append Cons_eq_append_conv)
  then show ?thesis
    unfolding parse_header [OF a(1,2)]
    using a(3) by (simp add: header_def cut_blank Let_def)
qed

lemma dump_header:
  "dump S = (''schedule '' @ header (if s_kernel S = [] then ''_'' else s_kernel S) (s_why S) (length (stages S)))
     # dump_stages 0 (stages S)"
  by (simp add: dump_def header_def)

lemma parse_dump:
  assumes "printable S"
  shows "parse (dump S) = Inr (printed S)"
proof -
  have tok: "is_token (s_kernel S)" "\<forall>c \<in> set (s_why S). \<not> isspace c"
    "\<forall>st \<in> set (stages S). printable_stage st"
    using assms by (simp_all add: printable_def)
  have k: "(if s_kernel S = [] then ''_'' else s_kernel S) = s_kernel S"
    using tok(1) by (simp add: is_token_def)
  have "fold_tokens parse_line (dump S) schedule_init = Inr (printed S)"
    unfolding dump_header k fold_tokens.simps read_header_token [OF tok(1,2)] sum.case read_stages [OF tok(3)]
    by (simp add: schedule_init_def printed_def)
  moreover have "stages (printed S) \<noteq> []"
    using assms by (simp add: printed_def printable_def)
  ultimately show ?thesis by (simp add: parse_def)
qed

lemma split_lines_line:
  "newline \<notin> set l \<Longrightarrow> split_lines (l @ newline # s) cur = (cur @ l) # split_lines s []"
  by (induction l arbitrary: cur) auto

lemma split_lines_unlines:
  "\<forall>l \<in> set ls. newline \<notin> set l \<Longrightarrow> split_lines (concat (map (\<lambda>l. l @ [newline]) ls)) [] = ls"
  by (induction ls) (simp_all add: split_lines_line)

lemma isspace_newline: "isspace newline"
  by (simp add: isspace_def)

lemma token_no_newline: "is_token t \<Longrightarrow> newline \<notin> set t"
  using isspace_newline unfolding is_token_def by blast

lemmas no_newline = token_no_newline [OF is_token_to_string] token_no_newline [OF bind_enum.name_token]
  token_no_newline [OF storage_enum.name_token] token_no_newline [OF engine_enum.name_token]
  token_no_newline [OF exchange_enum.name_token] token_no_newline [OF prefetch_enum.name_token]
  token_no_newline [OF predicate_enum.name_token]

lemma factor_no_newline: "is_token (f_name f) \<Longrightarrow> newline \<notin> set (dump_factor f)"
  by (simp add: dump_factor_def no_newline token_no_newline)

lemma storage_no_newline: "newline \<notin> set (dump_storage a)"
  by (simp add: dump_storage_def no_newline)

lemma order_no_newline: "\<forall>n \<in> set ns. is_token n \<Longrightarrow> newline \<notin> set (concat (map (\<lambda>n. '' '' @ n) ns))"
  by (induction ns) (simp_all add: token_no_newline)

lemma dump_stages_no_newline:
  "\<forall>st \<in> set sts. printable_stage st \<Longrightarrow> \<forall>l \<in> set (dump_stages i sts). newline \<notin> set l"
proof (induction sts arbitrary: i)
  case (Cons st sts)
  have "\<forall>l \<in> set (dump_stage i st). newline \<notin> set l"
    using Cons.prems
    unfolding dump_stage_def printable_stage_def
    by (auto simp: factor_no_newline storage_no_newline order_no_newline no_newline
        simp del: set_concat)
  with Cons show ?case by auto
qed simp

lemma dump_no_newline: "printable S \<Longrightarrow> \<forall>l \<in> set (dump S). newline \<notin> set l"
proof -
  assume p: "printable S"
  then have "newline \<notin> set (s_kernel S)" by (simp add: printable_def token_no_newline)
  moreover have "newline \<notin> set (s_why S)"
    using p isspace_newline unfolding printable_def by blast
  moreover have "\<forall>l \<in> set (dump_stages 0 (stages S)). newline \<notin> set l"
    using p by (intro dump_stages_no_newline) (simp add: printable_def)
  ultimately show ?thesis by (simp add: dump_def no_newline)
qed

lemma parseText_canon: "printable S \<Longrightarrow> parseText (canon S) = Inr (printed S)"
  unfolding parseText_def canon_def
  by (simp add: split_lines_unlines [OF dump_no_newline] parse_dump)

text \<open>C11: reading the printed text of a schedule gives the schedule back, whatever its factors,
  orders, storage and resources, as long as there is a stage and the names are words; only the
  fields that are not printed (tensor shape, fusion partners, ring bytes) come back as defaults.\<close>

theorem parseText_dump:
  assumes "printable S"
  shows "parseText (canon S) = Inr (printed S)"
  using assms by (rule parseText_canon)

theorem parseText_dump_witness:
  "parseText (canon (sourceSchedule (gemm ''g'' :: (nat, nat) program)))
   = Inr (sourceSchedule (gemm ''g'' :: (nat, nat) program))"
proof -
  have "printable (sourceSchedule (gemm ''g'' :: (nat, nat) program))" by code_simp
  moreover have "printed (sourceSchedule (gemm ''g'' :: (nat, nat) program))
      = sourceSchedule (gemm ''g'' :: (nat, nat) program)" by code_simp
  ultimately show ?thesis using parseText_dump by metis
qed

text \<open>The text the search uses to recognise a schedule it has seen identifies the schedule, up
  to the fields that are not printed.\<close>

lemma canon_inject:
  assumes "printable S" and "printable T"
  shows "canon S = canon T \<longleftrightarrow> printed S = printed T"
proof
  assume "canon S = canon T"
  then show "printed S = printed T"
    using parseText_canon [OF assms(1)] parseText_canon [OF assms(2)] by simp
next
  assume "printed S = printed T"
  moreover have "canon (printed U) = canon U" for U
  proof -
    have "dump_stages i (map printed_stage sts) = dump_stages i sts" for i sts
      by (induction sts arbitrary: i)
        (simp_all add: dump_stage_def printed_stage_def dump_storage_def cong: if_cong)
    then show ?thesis by (simp add: canon_def dump_def printed_def)
  qed
  ultimately show "canon S = canon T" by metis
qed

theorem canon_inject_witness:
  "canon (schedule_init\<lparr>s_kernel := ''k'', stages := [stage_init]\<rparr>)
     = canon (schedule_init\<lparr>s_kernel := ''k'', stages := [stage_init\<lparr>tensorM := 16\<rparr>]\<rparr>) \<and>
   canon (schedule_init\<lparr>s_kernel := ''k'', stages := [stage_init]\<rparr>)
     \<noteq> canon (schedule_init\<lparr>s_kernel := ''k'', stages := [stage_init\<lparr>smemBytes := 16\<rparr>]\<rparr>)"
proof -
  let ?S = "\<lambda>st. schedule_init\<lparr>s_kernel := ''k'', stages := [st]\<rparr>"
  have p: "printable (?S stage_init)" "printable (?S (stage_init\<lparr>tensorM := 16\<rparr>))"
    "printable (?S (stage_init\<lparr>smemBytes := 16\<rparr>))"
    by (simp_all add: printable_def printable_stage_def stage_init_def schedule_init_def text_simps isspace_def)
  show ?thesis
    unfolding canon_inject [OF p(1,2)] canon_inject [OF p(1,3)]
    by (simp add: printed_def printed_stage_def stage_init_def schedule_init_def)
qed

text \<open>A kernel name with a blank in it, as demangled signatures have, does not survive: the
  reader keeps the name up to the first blank and drops the provenance of the schedule.\<close>

lemma parse_dump_blank_kernel:
  assumes "is_token a" and "\<not> prefix ''why='' b" and "printable (S\<lparr>s_kernel := a\<rparr>)"
  shows "parse (dump (S\<lparr>s_kernel := a @ CHR '' '' # b\<rparr>)) = Inr (printed (S\<lparr>s_kernel := a, s_why := []\<rparr>))"
proof -
  have st: "\<forall>st \<in> set (stages (S\<lparr>s_kernel := a @ CHR '' '' # b\<rparr>)). printable_stage st"
    using assms(3) by (simp add: printable_def)
  have k: "(if s_kernel (S\<lparr>s_kernel := a @ CHR '' '' # b\<rparr>) = [] then ''_''
      else s_kernel (S\<lparr>s_kernel := a @ CHR '' '' # b\<rparr>)) = a @ CHR '' '' # b"
    by simp
  have "fold_tokens parse_line (dump (S\<lparr>s_kernel := a @ CHR '' '' # b\<rparr>)) schedule_init
      = Inr (printed (S\<lparr>s_kernel := a, s_why := []\<rparr>))"
    unfolding dump_header k fold_tokens.simps read_header_blank [OF assms(1,2)] sum.case read_stages [OF st]
    by (simp add: schedule_init_def printed_def)
  moreover have "stages (printed (S\<lparr>s_kernel := a, s_why := []\<rparr>)) \<noteq> []"
    using assms(3) by (simp add: printed_def printable_def)
  ultimately show ?thesis by (simp add: parse_def)
qed

theorem parse_dump_blank_kernel_witness:
  "parse (dump (schedule_init\<lparr>s_why := ''source'', stages := [stage_init], s_kernel := ''void k(int)''\<rparr>))
   = Inr (schedule_init\<lparr>stages := [stage_init], s_kernel := ''void''\<rparr>)"
proof -
  let ?S = "schedule_init\<lparr>s_why := ''source'', stages := [stage_init]\<rparr>"
  have "is_token ''void''" by (simp add: text_simps isspace_def)
  moreover have "printable (?S\<lparr>s_kernel := ''void''\<rparr>)"
    by (simp add: printable_def printable_stage_def stage_init_def schedule_init_def text_simps isspace_def)
  ultimately have "parse (dump (?S\<lparr>s_kernel := ''void'' @ CHR '' '' # ''k(int)''\<rparr>))
      = Inr (printed (?S\<lparr>s_kernel := ''void'', s_why := []\<rparr>))"
    by (intro parse_dump_blank_kernel) simp_all
  then show ?thesis
    by (simp add: printed_def printed_stage_def stage_init_def schedule_init_def)
qed

end
