(* ===== verification/Legality.thy ===== *)
theory Legality
  imports Schedule_Text
begin

text \<open>
  The legality checker (\<open>cpp/mvcc-llvm/legality.h\<close> and \<open>legality.cpp\<close>): obligations L1 to L10 and
  L13 of a schedule against its program, the graph obligations L11, L12, L14 and L15, and the
  reader of graph files.

  Every obligation is a step on the result, as in the code; its meaning is a predicate
  \<open>violates_L\<close>. The lemmas show that the checker fails an obligation exactly when it is violated,
  discharges it exactly when it is not, and accepts exactly the schedules that violate none. The
  predicates say what the code tests. Where its comments ask for more (the producer of a value
  in a register, L4; a tensor read back, L9) the lemmas say that nothing is tested.
\<close>

subsection \<open>Results\<close>

record obligation =
  ob_n :: nat
  ob_stage :: string
  ob_detail :: string

definition obligation_str :: "obligation \<Rightarrow> string" where
  "obligation_str b = ''legality: L'' @ to_string (ob_n b)
     @ (if ob_stage b = [] then [] else '' '' @ ob_stage b) @ '' '' @ ob_detail b"

record legal_result =
  r_ok :: bool
  failed :: "obligation list"
  discharged :: "string list"

definition result_init :: legal_result where
  "result_init = \<lparr>r_ok = True, failed = [], discharged = []\<rparr>"

definition first_failure :: "legal_result \<Rightarrow> string" where
  "first_failure R = (case failed R of [] \<Rightarrow> ''legality: ok'' | b # _ \<Rightarrow> obligation_str b)"

definition fail :: "nat \<Rightarrow> string \<Rightarrow> string \<Rightarrow> legal_result \<Rightarrow> legal_result" where
  "fail n stage d R = R\<lparr>r_ok := False, failed := failed R @ [\<lparr>ob_n = n, ob_stage = stage, ob_detail = d\<rparr>]\<rparr>"

definition ok_label :: "nat \<Rightarrow> string \<Rightarrow> string" where
  "ok_label n nm = ''L'' @ to_string n @ '' '' @ nm"

definition ok :: "nat \<Rightarrow> string \<Rightarrow> legal_result \<Rightarrow> legal_result" where
  "ok n nm R = R\<lparr>discharged := discharged R @ [ok_label n nm]\<rparr>"

text \<open>\<open>if (R.failed.empty() || R.failed.back().n != n) ok(R, n, nm)\<close>.\<close>

definition ok_unless_last :: "nat \<Rightarrow> string \<Rightarrow> legal_result \<Rightarrow> legal_result" where
  "ok_unless_last n nm R = (if failed R = [] \<or> ob_n (last (failed R)) \<noteq> n then ok n nm R else R)"

subsection \<open>What the obligations read\<close>

fun parallel :: "Bind \<Rightarrow> bool" where
  "parallel b = (b = Lane \<or> b = Simdgroup \<or> b = BlockX \<or> b = BlockY \<or> b = BlockZ \<or> b = Launch \<or> b = DeviceBind)"

definition permits :: "('e, 'i) program \<Rightarrow> permissions" where
  "permits P = (let (p, any) = permits_loop (loops P) perm_all False
                in if any then p else permissions_init)"

definition isContraction :: "('e, 'i) program \<Rightarrow> bool" where
  "isContraction P \<longleftrightarrow> hasAlgebra P Sum \<or> hasAlgebra P TensorSum"

text \<open>\<open>f.coord < P.coordOutput.size() && !P.coordOutput[f.coord]\<close>.\<close>

definition reduces :: "('e, 'i) program \<Rightarrow> factor \<Rightarrow> bool" where
  "reduces P f \<longleftrightarrow> unat (f_coord f) < length (coordOutput P) \<and> \<not> coordOutput P ! unat (f_coord f)"

definition stage_name :: "nat \<Rightarrow> string" where
  "stage_name si = ''stage'' @ to_string si"

text \<open>\<open>for (size_t si = 0; si < S.stages.size(); si++) { ... S.stages[si] ... }\<close>.\<close>

definition for_stages :: "(nat \<Rightarrow> stage_schedule \<Rightarrow> legal_result \<Rightarrow> legal_result) \<Rightarrow> schedule
    \<Rightarrow> legal_result \<Rightarrow> legal_result" where
  "for_stages body S R = fold (\<lambda>(si, st). body si st) (List.enumerate 0 (stages S)) R"

subsection \<open>The obligations of one schedule\<close>

definition check_L1 :: "('e, 'i) program \<Rightarrow> schedule \<Rightarrow> legal_result \<Rightarrow> legal_result" where
  "check_L1 P S = for_stages (\<lambda>si st. fold (\<lambda>j R.
       if \<exists>f \<in> set (factors st). f_coord f = of_nat j \<and> f_bind f \<noteq> Replicate then R
       else fail 1 (stage_name si) (''coordinate '' @ coordNames P ! j @ '' has no non-replicate owner'') R)
     [0..<length (coordNames P)]) S"

definition check_L2 :: "permissions \<Rightarrow> schedule \<Rightarrow> legal_result \<Rightarrow> legal_result" where
  "check_L2 perm S = for_stages (\<lambda>si st. fold (\<lambda>f R.
       if f_bind f = Replicate \<and> \<not> p_duplicate perm
       then fail 2 (stage_name si) (''factor '' @ f_name f @ '' is replicated but the algebra does not grant duplicate'') R
       else R) (factors st)) S"

definition check_L3 :: "('e, 'i) program \<Rightarrow> permissions \<Rightarrow> schedule \<Rightarrow> legal_result \<Rightarrow> legal_result" where
  "check_L3 P perm S = for_stages (\<lambda>si st. fold (\<lambda>f R.
       if \<not> reduces P f \<or> \<not> parallel (f_bind f) then R
       else if \<not> p_partition perm
       then fail 3 (stage_name si) (''reduction '' @ f_name f @ '' bound to '' @ bindName (f_bind f)
              @ '' without partition permission'') R
       else if exchange st = NoExchange
       then fail 3 (stage_name si) (''reduction '' @ f_name f @ '' is partitioned with exchange=none'') R
       else if exchange st = AtomicExchange \<and> \<not> hasAlgebra P Sum \<and> \<not> hasAlgebra P And
            \<and> \<not> hasAlgebra P Or \<and> \<not> hasAlgebra P Xor
       then fail 3 (stage_name si) ''atomic exchange is only legal for int-exact / fp-reassoc(*)'' R
       else R) (factors st)) S"

definition check_L4 :: "schedule \<Rightarrow> legal_result \<Rightarrow> legal_result" where
  "check_L4 S = for_stages (\<lambda>si st. fold (\<lambda>t R.
       if length (stages S) \<le> unat t then fail 4 (stage_name si) ''fusion target out of range'' R
       else
         let ot = stages S ! unat t;
             share = (\<exists>n \<in> set (order st). n \<in> set (order ot))
         in if \<not> share \<and> order st \<noteq> [] \<and> order ot \<noteq> []
            then fail 4 (stage_name si) (''fused with stage '' @ to_string (unat t) @ '' but time factors do not overlap'') R
            else R) (fusedWith st)) S"

definition check_L5 :: "('e, 'i) program \<Rightarrow> schedule \<Rightarrow> legal_result \<Rightarrow> legal_result" where
  "check_L5 P S = for_stages (\<lambda>si st R.
       if \<not> (\<exists>f \<in> set (factors st). f_bind f = Replicate) then R
       else fold (\<lambda>ac R. if ac_store ac \<or> ac_atomic ac
              then fail 5 (stage_name si) ''observable effect on a replicated axis (must predicate to one owner)'' R
              else R) (accesses P) R) S"

definition check_L6 :: "('e, 'i) program \<Rightarrow> schedule \<Rightarrow> legal_result \<Rightarrow> legal_result" where
  "check_L6 P S = for_stages (\<lambda>si st R.
       if guards P \<noteq> [] \<and> predicate st = NoPredicate
       then fail 6 (stage_name si) ''guards exist but predicate=none (dropped boundary)'' R else R) S"

definition check_L7 :: "('e, 'i) program \<Rightarrow> permissions \<Rightarrow> schedule \<Rightarrow> legal_result \<Rightarrow> legal_result" where
  "check_L7 P perm S = for_stages (\<lambda>si st R.
       let R = (if engine st = TensorOp \<and> \<not> isContraction P
                then fail 7 (stage_name si) ''tensor-op on a stage that is not a contraction (no sum / tensor-sum algebra)'' R
                else R);
           reordersR = (\<exists>f \<in> set (factors st). reduces P f \<and> f_bind f = Unroll)
       in if reordersR \<and> \<not> p_reorder perm
          then fail 7 (stage_name si) ''reordering a reduction the algebra does not grant reorder for'' R
          else R) S"

definition check_L8 :: "schedule \<Rightarrow> legal_result \<Rightarrow> legal_result" where
  "check_L8 S = for_stages (\<lambda>si st R.
       let R = (if 32768 < smemBytes st
                then fail 8 (stage_name si) (''threadgroup bytes '' @ to_string (unat (smemBytes st))
                       @ '' exceed 32 KB (spill is a runtime twin, not a recovered body)'') R
                else R)
       in if 32 < threadScale st then fail 8 (stage_name si) ''thread_scale exceeds 32'' R else R) S"

text \<open>L9: the loop over the tensors computes whether a tensor that is read and written lives on the
  device and then does nothing (its only statement is empty), so the obligation is discharged
  whatever the program.\<close>

definition check_L10 :: "('e, 'i) program \<Rightarrow> legal_result \<Rightarrow> legal_result" where
  "check_L10 P R =
     (if unfitted P \<noteq> []
      then fail 10 [] (''unfitted sites become assume premises the runtime cannot evaluate (''
             @ to_string (length (unfitted P)) @ '')'') R
      else ok 10 ''assumptions'' R)"

definition check_L13 :: "('e, 'i) program \<Rightarrow> legal_result \<Rightarrow> legal_result" where
  "check_L13 P R =
     (let cls = (if numClass P = [] then ''inherit'' else numClass P) in
      if cls \<noteq> ''inherit'' \<and> cls \<noteq> ''explicit-budget''
      then fail 13 [] (''precision='' @ cls @ '' is silent quantization; default is inherit'') R
      else ok 13 ''numerical-budget'' R)"

definition check :: "('e, 'i) program \<Rightarrow> schedule \<Rightarrow> legal_result" where
  "check P S =
     (let R = result_init; wf = wellFormed P S in
      if \<not> wf_ok wf then fail 1 [] (''schedule is not well-formed: '' @ wf_why wf) R
      else
        let perm = permits P;
            R = check_L1 P S R;
            R = (if r_ok R then ok 1 ''coverage'' R else R);
            R = ok_unless_last 2 ''no-illegal-duplication'' (check_L2 perm S R);
            R = ok_unless_last 3 ''partial-state-combine'' (check_L3 P perm S R);
            R = ok_unless_last 4 ''dependency-order'' (check_L4 S R);
            R = ok_unless_last 5 ''effect-order'' (check_L5 P S R);
            R = ok_unless_last 6 ''predicates'' (check_L6 P S R);
            R = ok_unless_last 7 ''numerical-class'' (check_L7 P perm S R);
            R = ok_unless_last 8 ''resources'' (check_L8 S R);
            R = ok 9 ''freshness'' R;
            R = check_L10 P R
        in check_L13 P R)"

subsection \<open>Graphs\<close>

record graph_edge =
  ge_from :: u32
  ge_to :: u32
  ge_tensor :: string
  sameBlock :: bool
  hostVisible :: bool

record graph =
  kernels :: "string list"
  edges :: "graph_edge list"
  deviceOf :: "u32 list"
  world :: u32

definition arrow :: string where
  "arrow = [CHR 0xE2, CHR 0x86, CHR 0x92]"

definition check_edge :: "graph \<Rightarrow> graph_edge \<Rightarrow> legal_result \<Rightarrow> legal_result" where
  "check_edge G e R =
     (if length (kernels G) \<le> unat (ge_from e) \<or> length (kernels G) \<le> unat (ge_to e)
      then fail 11 [] ''edge endpoint out of range'' R
      else
        let R = (if \<not> sameBlock e
                 then fail 11 (kernels G ! unat (ge_from e) @ arrow @ kernels G ! unat (ge_to e))
                        ''consumer reads bytes another block wrote (Metal has no grid barrier)'' R
                 else R)
        in if hostVisible e
           then fail 12 (ge_tensor e) ''host-visible pointer aliases an intermediate; layout is not free'' R
           else R)"

definition check_devices :: "graph \<Rightarrow> legal_result \<Rightarrow> legal_result" where
  "check_devices G R =
     (if deviceOf G \<noteq> [] \<and> length (deviceOf G) \<noteq> length (kernels G)
      then fail 15 [] ''deviceOf length does not match kernels'' R
      else
        let R = ok 14 ''collective-consistency'' R;
            w = (if world G \<noteq> 0 then world G else 1);
            R' = fold (\<lambda>d R. if w \<le> d
                   then fail 15 [] (''device '' @ to_string (unat d) @ '' is outside world '' @ to_string (unat w)) R
                   else R) (deviceOf G) R
        in if \<exists>d \<in> set (deviceOf G). w \<le> d then R' else ok 15 ''residency'' R')"

definition checkGraph :: "graph \<Rightarrow> legal_result" where
  "checkGraph G =
     (let R = fold (check_edge G) (edges G) result_init;
          R = ok_unless_last 11 ''cross-launch-dependency'' R;
          R = ok_unless_last 12 ''layout-agreement'' R
      in check_devices G R)"

text \<open>\<open>None\<close> stands for \<open>-1\<close>. The second argument is the kernels from index \<open>i\<close> on.\<close>

fun kern_index_from :: "nat \<Rightarrow> string list \<Rightarrow> string \<Rightarrow> nat option" where
  "kern_index_from i [] nm = None"
| "kern_index_from i (k # ks) nm =
     (if k = nm \<or> prefix nm k then Some i
      else if str_find k nm \<noteq> None then Some i
      else kern_index_from (i + 1) ks nm)"

definition kernIndex :: "graph \<Rightarrow> string \<Rightarrow> nat option" where
  "kernIndex G nm = kern_index_from 0 (kernels G) nm"

text \<open>\<open>is >> v\<close> for an \<open>int\<close> that holds \<open>old\<close>: the new value and, while the stream is good, what is
  left of it. At the end of the input nothing is stored, without digits zero is, out of range the
  nearest bound is.\<close>

definition read_int :: "string \<Rightarrow> int \<Rightarrow> int \<times> string option" where
  "read_int s old =
     (let s = dropWhile isspace s in
      if s = [] then (old, None)
      else
        let neg = (hd s = CHR ''-'');
            s = (if hd s = CHR ''-'' \<or> hd s = CHR ''+'' then tl s else s);
            ds = takeWhile isdigit s;
            v = (if neg then - int (digits_val ds) else int (digits_val ds))
        in if ds = [] then (0, None)
           else if 2147483647 < v then (2147483647, None)
           else if v < - 2147483648 then (- 2147483648, None)
           else (v, Some (dropWhile isdigit s)))"

text \<open>One line of a graph file: unchanged, an edge more, or the error that ends the loop.\<close>

definition load_graph_line :: "string \<Rightarrow> graph \<Rightarrow> string + graph" where
  "load_graph_line line G =
     (if line = [] \<or> hd line = CHR ''#'' then Inr G
      else case read_token line of None \<Rightarrow> Inr G | Some (src, s) \<Rightarrow>
        (case read_token s of None \<Rightarrow> Inr G | Some (dst, s) \<Rightarrow>
          let (tensor, s) = (case read_token s of None \<Rightarrow> (''x'', None) | Some (t, s) \<Rightarrow> (t, Some s));
              (same, s) = (case s of None \<Rightarrow> (1, None) | Some s \<Rightarrow> read_int s 1);
              (host, s) = (case s of None \<Rightarrow> (0, None) | Some s \<Rightarrow> read_int s 0)
          in case (kernIndex G src, kernIndex G dst) of
               (Some a, Some b) \<Rightarrow>
                 Inr (G\<lparr>edges := edges G @ [\<lparr>ge_from = of_nat a, ge_to = of_nat b, ge_tensor = tensor,
                        sameBlock = (same \<noteq> 0), hostVisible = (host \<noteq> 0)\<rparr>]\<rparr>)
             | _ \<Rightarrow> Inl (''unknown kernel in edge '' @ src @ '' '' @ arrow @ '' '' @ dst)))"

fun load_graph_lines :: "string list \<Rightarrow> graph \<Rightarrow> string option \<times> graph" where
  "load_graph_lines [] G = (None, G)"
| "load_graph_lines (l # ls) G =
     (case load_graph_line l G of Inl err \<Rightarrow> (Some err, G) | Inr G \<Rightarrow> load_graph_lines ls G)"

text \<open>The content of the file at \<open>path\<close> is an argument, \<open>None\<close> when it cannot be opened; the result
  is the error, if any, and the graph with the edges read before it.\<close>

definition loadGraphFile :: "string \<Rightarrow> string option \<Rightarrow> graph \<Rightarrow> string option \<times> graph" where
  "loadGraphFile path content G =
     (case content of None \<Rightarrow> (Some (''cannot read '' @ path), G)
      | Some s \<Rightarrow> load_graph_lines (split_lines s []) G)"

definition inferModuleSequentialEdges :: "graph \<Rightarrow> graph" where
  "inferModuleSequentialEdges G =
     (if length (kernels G) < 2 then G
      else G\<lparr>edges := edges G @ map (\<lambda>i. \<lparr>ge_from = of_nat i, ge_to = of_nat (i + 1), ge_tensor = ''x'',
             sameBlock = True, hostVisible = False\<rparr>) [0..<length (kernels G) - 1]\<rparr>)"

subsection \<open>The meaning of the obligations\<close>

definition violates_L1 :: "('e, 'i) program \<Rightarrow> schedule \<Rightarrow> bool" where
  "violates_L1 P S \<longleftrightarrow> (\<exists>st \<in> set (stages S). \<exists>j < length (coordNames P).
     \<not> (\<exists>f \<in> set (factors st). f_coord f = of_nat j \<and> f_bind f \<noteq> Replicate))"

definition violates_L2 :: "permissions \<Rightarrow> schedule \<Rightarrow> bool" where
  "violates_L2 perm S \<longleftrightarrow> \<not> p_duplicate perm \<and>
     (\<exists>st \<in> set (stages S). \<exists>f \<in> set (factors st). f_bind f = Replicate)"

definition violates_L3 :: "('e, 'i) program \<Rightarrow> permissions \<Rightarrow> schedule \<Rightarrow> bool" where
  "violates_L3 P perm S \<longleftrightarrow> (\<exists>st \<in> set (stages S). \<exists>f \<in> set (factors st).
     reduces P f \<and> parallel (f_bind f) \<and>
     (p_partition perm \<longrightarrow> exchange st = NoExchange \<or>
       exchange st = AtomicExchange \<and> (\<forall>a \<in> {Sum, And, Or, Xor}. \<not> hasAlgebra P a)))"

text \<open>L4 as the code tests it: a fusion target that exists and a shared time factor. The comment in
  the code (\<open>legality.cpp\<close>, line 92) adds that register storage requires a producer on the same lane;
  the code has no test of it, and neither has the predicate.\<close>

definition violates_L4 :: "schedule \<Rightarrow> bool" where
  "violates_L4 S \<longleftrightarrow> (\<exists>st \<in> set (stages S). \<exists>t \<in> set (fusedWith st).
     unat t < length (stages S) \<longrightarrow>
       order st \<noteq> [] \<and> order (stages S ! unat t) \<noteq> [] \<and>
       set (order st) \<inter> set (order (stages S ! unat t)) = {})"

definition violates_L5 :: "('e, 'i) program \<Rightarrow> schedule \<Rightarrow> bool" where
  "violates_L5 P S \<longleftrightarrow> (\<exists>ac \<in> set (accesses P). ac_store ac \<or> ac_atomic ac) \<and>
     (\<exists>st \<in> set (stages S). \<exists>f \<in> set (factors st). f_bind f = Replicate)"

definition violates_L6 :: "('e, 'i) program \<Rightarrow> schedule \<Rightarrow> bool" where
  "violates_L6 P S \<longleftrightarrow> guards P \<noteq> [] \<and> (\<exists>st \<in> set (stages S). predicate st = NoPredicate)"

definition violates_L7 :: "('e, 'i) program \<Rightarrow> permissions \<Rightarrow> schedule \<Rightarrow> bool" where
  "violates_L7 P perm S \<longleftrightarrow> (\<exists>st \<in> set (stages S).
     engine st = TensorOp \<and> \<not> isContraction P \<or>
     \<not> p_reorder perm \<and> (\<exists>f \<in> set (factors st). reduces P f \<and> f_bind f = Unroll))"

definition violates_L8 :: "schedule \<Rightarrow> bool" where
  "violates_L8 S \<longleftrightarrow> (\<exists>st \<in> set (stages S). 32768 < smemBytes st \<or> 32 < threadScale st)"

definition violates_L13 :: "('e, 'i) program \<Rightarrow> bool" where
  "violates_L13 P \<longleftrightarrow> numClass P \<notin> {[], ''inherit'', ''explicit-budget''}"

text \<open>A step that can only add failures of obligation \<open>n\<close>, and adds one iff \<open>v\<close>.\<close>

definition adds :: "nat \<Rightarrow> bool \<Rightarrow> legal_result \<Rightarrow> legal_result \<Rightarrow> bool" where
  "adds n v R R' \<longleftrightarrow> (\<exists>new. failed R' = failed R @ new \<and> (\<forall>b \<in> set new. ob_n b = n) \<and>
     (new \<noteq> [] \<longleftrightarrow> v) \<and> (r_ok R' \<longleftrightarrow> r_ok R \<and> \<not> v) \<and> discharged R' = discharged R)"

lemma adds_refl: "adds n False R R"
  by (simp add: adds_def)

lemma adds_fail: "adds n True R (fail n st d R)"
  by (simp add: adds_def fail_def)

lemma adds_if: "v' = v \<Longrightarrow> adds n v R (if v' then fail n st d R else R)"
  by (simp add: adds_refl adds_fail)

lemma adds_unless: "adds n (\<not> v) R (if v then R else fail n st d R)"
  by (simp add: adds_refl adds_fail)

lemma adds_if_else_if:
  "adds n (v \<or> w) R (if v then fail n st d R else if w then fail n st' d' R else R)"
  by (simp add: adds_refl adds_fail)

lemma adds_trans: "adds n v R R1 \<Longrightarrow> adds n w R1 R2 \<Longrightarrow> adds n (v \<or> w) R R2"
proof -
  assume "adds n v R R1" and "adds n w R1 R2"
  then obtain new1 new2 where
    "failed R1 = failed R @ new1" "\<forall>b \<in> set new1. ob_n b = n" "new1 \<noteq> [] \<longleftrightarrow> v"
    "r_ok R1 \<longleftrightarrow> r_ok R \<and> \<not> v" "discharged R1 = discharged R"
    "failed R2 = failed R1 @ new2" "\<forall>b \<in> set new2. ob_n b = n" "new2 \<noteq> [] \<longleftrightarrow> w"
    "r_ok R2 \<longleftrightarrow> r_ok R1 \<and> \<not> w" "discharged R2 = discharged R1"
    unfolding adds_def by blast
  then show ?thesis
    unfolding adds_def by (intro exI [of _ "new1 @ new2"]) auto
qed

lemma adds_cong: "adds n v R R' \<Longrightarrow> v = w \<Longrightarrow> adds n w R R'"
  by simp

lemma adds_fold:
  "(\<And>x R. x \<in> set xs \<Longrightarrow> adds n (v x) R (f x R)) \<Longrightarrow> adds n (\<exists>x \<in> set xs. v x) R (fold f xs R)"
proof (induction xs arbitrary: R)
  case (Cons x xs)
  have "adds n (v x \<or> (\<exists>x \<in> set xs. v x)) R (fold f xs (f x R))"
    by (rule adds_trans [of _ _ _ "f x R"]) (use Cons in simp_all)
  then show ?case by simp
qed (simp add: adds_refl)

lemma adds_stages:
  assumes "\<And>si st R. st \<in> set (stages S) \<Longrightarrow> adds n (v st) R (body si st R)"
  shows "adds n (\<exists>st \<in> set (stages S). v st) R (for_stages body S R)"
proof -
  have "adds n (\<exists>x \<in> set (List.enumerate 0 (stages S)). v (snd x)) R (for_stages body S R)"
    unfolding for_stages_def
    by (rule adds_fold) (auto simp: in_set_enumerate_eq intro!: assms nth_mem)
  moreover have "(\<exists>x \<in> set (List.enumerate 0 (stages S)). v (snd x)) \<longleftrightarrow>
      (\<exists>st \<in> snd ` set (List.enumerate 0 (stages S)). v st)" by blast
  moreover have "snd ` set (List.enumerate 0 (stages S)) = set (stages S)"
    by (simp only: set_map [symmetric] map_snd_enumerate)
  ultimately show ?thesis by simp
qed

text \<open>The contract of an obligation: its step adds failures of its own number only, and does so iff
  the predicate that gives its meaning holds.\<close>

locale checked_obligation =
  fixes n :: nat and violated :: bool and run :: "legal_result \<Rightarrow> legal_result"
  assumes adds_run: "adds n violated R (run R)"
begin

text \<open>After the step and the discharge that follows it, the obligation is settled: it is among the
  failures or among the discharged, according to \<open>violated\<close>, and nothing else changed.\<close>

lemma settle:
  assumes "\<forall>b \<in> set (failed R). ob_n b \<noteq> n"
  shows "ob_n ` set (failed (ok_unless_last n nm (run R))) = ob_n ` set (failed R) \<union> (if violated then {n} else {})"
    and "discharged (ok_unless_last n nm (run R)) = discharged R @ (if violated then [] else [ok_label n nm])"
    and "r_ok (ok_unless_last n nm (run R)) \<longleftrightarrow> r_ok R \<and> \<not> violated"
proof -
  obtain new where new: "failed (run R) = failed R @ new" "\<forall>b \<in> set new. ob_n b = n"
    "new \<noteq> [] \<longleftrightarrow> violated" "r_ok (run R) \<longleftrightarrow> r_ok R \<and> \<not> violated" "discharged (run R) = discharged R"
    using adds_run [of R] unfolding adds_def by blast
  have last: "failed (run R) = [] \<or> ob_n (last (failed (run R))) \<noteq> n \<longleftrightarrow> \<not> violated"
  proof (cases "new = []")
    case True
    then show ?thesis
      using new(1,3) assms by (cases "failed R" rule: rev_cases) simp_all
  next
    case False
    then show ?thesis using new(1,2,3) by simp
  qed
  have img: "ob_n ` set new = (if violated then {n} else {})"
    using new(2,3) by (cases new) auto
  show "ob_n ` set (failed (ok_unless_last n nm (run R))) = ob_n ` set (failed R) \<union> (if violated then {n} else {})"
    by (simp only: ok_unless_last_def last) (simp add: ok_def new(1) image_Un img)
  show "discharged (ok_unless_last n nm (run R)) = discharged R @ (if violated then [] else [ok_label n nm])"
    "r_ok (ok_unless_last n nm (run R)) \<longleftrightarrow> r_ok R \<and> \<not> violated"
    by (simp_all only: ok_unless_last_def last) (simp_all add: ok_def new(4,5))
qed

end

subsection \<open>Every obligation of the code meets the contract\<close>

lemma adds_L1: "adds 1 (violates_L1 P S) R (check_L1 P S R)"
  unfolding check_L1_def violates_L1_def
proof (rule adds_stages)
  fix si st R
  let ?owned = "\<lambda>j. \<exists>f \<in> set (factors st). f_coord f = of_nat j \<and> f_bind f \<noteq> Replicate"
  have "adds 1 (\<exists>j \<in> set [0..<length (coordNames P)]. \<not> ?owned j) R
    (fold (\<lambda>j R. if ?owned j then R
       else fail 1 (stage_name si) (''coordinate '' @ coordNames P ! j @ '' has no non-replicate owner'') R)
     [0..<length (coordNames P)] R)"
    by (rule adds_fold) (rule adds_unless)
  then show "adds 1 (\<exists>j < length (coordNames P). \<not> ?owned j) R
    (fold (\<lambda>j R. if ?owned j then R
       else fail 1 (stage_name si) (''coordinate '' @ coordNames P ! j @ '' has no non-replicate owner'') R)
     [0..<length (coordNames P)] R)"
    by (rule adds_cong) auto
qed

lemma adds_L2: "adds 2 (violates_L2 perm S) R (check_L2 perm S R)"
proof -
  have "adds 2 (\<exists>st \<in> set (stages S). \<exists>f \<in> set (factors st). f_bind f = Replicate \<and> \<not> p_duplicate perm)
      R (check_L2 perm S R)"
    unfolding check_L2_def by (intro adds_stages adds_fold adds_if refl)
  then show ?thesis by (rule adds_cong) (auto simp: violates_L2_def)
qed

lemma adds_L3: "adds 3 (violates_L3 P perm S) R (check_L3 P perm S R)"
  unfolding check_L3_def violates_L3_def
  by (intro adds_stages adds_fold) (auto simp: adds_refl adds_fail)

lemma adds_L4: "adds 4 (violates_L4 S) R (check_L4 S R)"
proof -
  have "adds 4 (\<exists>st \<in> set (stages S). \<exists>t \<in> set (fusedWith st).
      length (stages S) \<le> unat t \<or>
      (\<not> (\<exists>n \<in> set (order st). n \<in> set (order (stages S ! unat t)))
       \<and> order st \<noteq> [] \<and> order (stages S ! unat t) \<noteq> [])) R (check_L4 S R)"
    unfolding check_L4_def Let_def by (intro adds_stages adds_fold adds_if_else_if)
  then show ?thesis
    by (rule adds_cong) (unfold violates_L4_def not_less [symmetric] disjoint_iff, blast)
qed

lemma adds_L5: "adds 5 (violates_L5 P S) R (check_L5 P S R)"
proof -
  have "adds 5 (\<exists>st \<in> set (stages S). (\<exists>f \<in> set (factors st). f_bind f = Replicate) \<and>
      (\<exists>ac \<in> set (accesses P). ac_store ac \<or> ac_atomic ac)) R (check_L5 P S R)"
    unfolding check_L5_def
  proof (rule adds_stages)
    fix si st R
    let ?loop = "fold (\<lambda>ac R. if ac_store ac \<or> ac_atomic ac
      then fail 5 (stage_name si) ''observable effect on a replicated axis (must predicate to one owner)'' R
      else R) (accesses P) R"
    have "adds 5 (\<exists>ac \<in> set (accesses P). ac_store ac \<or> ac_atomic ac) R ?loop"
      by (intro adds_fold adds_if refl)
    then show "adds 5 ((\<exists>f \<in> set (factors st). f_bind f = Replicate) \<and>
        (\<exists>ac \<in> set (accesses P). ac_store ac \<or> ac_atomic ac)) R
      (if \<not> (\<exists>f \<in> set (factors st). f_bind f = Replicate) then R else ?loop)"
      by (cases "\<exists>f \<in> set (factors st). f_bind f = Replicate") (simp_all add: adds_refl)
  qed
  then show ?thesis by (rule adds_cong) (unfold violates_L5_def, blast)
qed

lemma adds_L6: "adds 6 (violates_L6 P S) R (check_L6 P S R)"
proof -
  have "adds 6 (\<exists>st \<in> set (stages S). guards P \<noteq> [] \<and> predicate st = NoPredicate) R (check_L6 P S R)"
    unfolding check_L6_def by (intro adds_stages adds_if refl)
  then show ?thesis by (rule adds_cong) (auto simp: violates_L6_def)
qed

lemma adds_L7: "adds 7 (violates_L7 P perm S) R (check_L7 P perm S R)"
proof -
  have "adds 7 (\<exists>st \<in> set (stages S). (engine st = TensorOp \<and> \<not> isContraction P) \<or>
      (\<exists>f \<in> set (factors st). reduces P f \<and> f_bind f = Unroll) \<and> \<not> p_reorder perm) R (check_L7 P perm S R)"
    unfolding check_L7_def Let_def
    by (rule adds_stages) (rule adds_trans, (rule adds_if, rule refl)+)
  then show ?thesis by (rule adds_cong) (unfold violates_L7_def, blast)
qed

lemma adds_L8: "adds 8 (violates_L8 S) R (check_L8 S R)"
  unfolding check_L8_def violates_L8_def Let_def
  by (rule adds_stages) (rule adds_trans, (rule adds_if, rule refl)+)

interpretation L1: checked_obligation 1 "violates_L1 P S" "check_L1 P S" for P S
  by unfold_locales (rule adds_L1)

interpretation L2: checked_obligation 2 "violates_L2 perm S" "check_L2 perm S" for perm S
  by unfold_locales (rule adds_L2)

interpretation L3: checked_obligation 3 "violates_L3 P perm S" "check_L3 P perm S" for P perm S
  by unfold_locales (rule adds_L3)

interpretation L4: checked_obligation 4 "violates_L4 S" "check_L4 S" for S
  by unfold_locales (rule adds_L4)

interpretation L5: checked_obligation 5 "violates_L5 P S" "check_L5 P S" for P S
  by unfold_locales (rule adds_L5)

interpretation L6: checked_obligation 6 "violates_L6 P S" "check_L6 P S" for P S
  by unfold_locales (rule adds_L6)

interpretation L7: checked_obligation 7 "violates_L7 P perm S" "check_L7 P perm S" for P perm S
  by unfold_locales (rule adds_L7)

interpretation L8: checked_obligation 8 "violates_L8 S" "check_L8 S" for S
  by unfold_locales (rule adds_L8)

subsection \<open>The checker as a whole\<close>

text \<open>The obligations of a schedule in the order of the code: number, name, and whether it is
  violated. L9 never is.\<close>

definition obligations :: "('e, 'i) program \<Rightarrow> schedule \<Rightarrow> (nat \<times> string \<times> bool) list" where
  "obligations P S =
     [(1, ''coverage'', violates_L1 P S),
      (2, ''no-illegal-duplication'', violates_L2 (permits P) S),
      (3, ''partial-state-combine'', violates_L3 P (permits P) S),
      (4, ''dependency-order'', violates_L4 S),
      (5, ''effect-order'', violates_L5 P S),
      (6, ''predicates'', violates_L6 P S),
      (7, ''numerical-class'', violates_L7 P (permits P) S),
      (8, ''resources'', violates_L8 S),
      (9, ''freshness'', False),
      (10, ''assumptions'', unfitted P \<noteq> []),
      (13, ''numerical-budget'', violates_L13 P)]"

definition legal :: "('e, 'i) program \<Rightarrow> schedule \<Rightarrow> bool" where
  "legal P S \<longleftrightarrow> schedule_ok P S \<and> (\<forall>(n, nm, v) \<in> set (obligations P S). \<not> v)"

text \<open>What a result says when the obligations \<open>ks\<close> have been dealt with.\<close>

definition settled :: "(nat \<times> string \<times> bool) list \<Rightarrow> legal_result \<Rightarrow> bool" where
  "settled ks R \<longleftrightarrow>
     ob_n ` set (failed R) = {n. \<exists>nm. (n, nm, True) \<in> set ks} \<and>
     discharged R = map (\<lambda>(n, nm, v). ok_label n nm) (List.filter (\<lambda>(n, nm, v). \<not> v) ks) \<and>
     (r_ok R \<longleftrightarrow> (\<forall>(n, nm, v) \<in> set ks. \<not> v))"

lemma settled_init: "settled [] result_init"
  by (simp add: settled_def result_init_def)

context checked_obligation begin

lemma settle_next:
  assumes "settled ks R" and "n \<notin> fst ` set ks"
  shows "settled (ks @ [(n, nm, violated)]) (ok_unless_last n nm (run R))"
proof -
  have "\<forall>b \<in> set (failed R). ob_n b \<noteq> n"
  proof (intro ballI notI)
    fix b
    assume "b \<in> set (failed R)" and "ob_n b = n"
    then have "n \<in> ob_n ` set (failed R)" by blast
    then obtain l where "(n, l, True) \<in> set ks"
      using assms(1) by (auto simp: settled_def)
    then have "n \<in> fst ` set ks" by (rule image_eqI [rotated]) simp
    with assms(2) show False by contradiction
  qed
  note s = settle [OF this, of nm]
  have "{m. \<exists>l. (m, l, True) \<in> set (ks @ [(n, nm, violated)])}
      = {m. \<exists>l. (m, l, True) \<in> set ks} \<union> (if violated then {n} else {})"
    by auto
  moreover have "ob_n ` set (failed R) = {m. \<exists>l. (m, l, True) \<in> set ks}"
    "discharged R = map (\<lambda>(n, nm, v). ok_label n nm) (List.filter (\<lambda>(n, nm, v). \<not> v) ks)"
    "r_ok R \<longleftrightarrow> (\<forall>(n, nm, v) \<in> set ks. \<not> v)"
    using assms(1) by (simp_all only: settled_def)
  ultimately show ?thesis
    unfolding settled_def s by (simp only: filter_append map_append set_append ball_Un) simp
qed

end

lemma settled_ok: "settled ks R \<Longrightarrow> settled (ks @ [(n, nm, False)]) (ok n nm R)"
  by (simp add: settled_def ok_def)

lemma settled_fail: "settled ks R \<Longrightarrow> settled (ks @ [(n, nm, True)]) (fail n st d R)"
proof -
  assume "settled ks R"
  moreover have "{m. \<exists>l. (m, l, True) \<in> set (ks @ [(n, nm, True)])} = insert n {m. \<exists>l. (m, l, True) \<in> set ks}"
    by auto
  ultimately show ?thesis unfolding settled_def fail_def by simp
qed

lemma settled_if:
  "settled ks R \<Longrightarrow> v' = v \<Longrightarrow> settled (ks @ [(n, nm, v)]) (if v' then fail n st d R else ok n nm R)"
  by (simp add: settled_ok settled_fail)

lemma settled_L13:
  "settled ks R \<Longrightarrow> settled (ks @ [(13, ''numerical-budget'', violates_L13 P)]) (check_L13 P R)"
  unfolding check_L13_def Let_def by (rule settled_if) (auto simp: violates_L13_def)

lemma ok_unless_first:
  "(if r_ok (check_L1 P S result_init) then ok 1 nm (check_L1 P S result_init) else check_L1 P S result_init)
   = ok_unless_last 1 nm (check_L1 P S result_init)"
proof -
  obtain new where "failed (check_L1 P S result_init) = new" "\<forall>b \<in> set new. ob_n b = 1"
    "new \<noteq> [] \<longleftrightarrow> violates_L1 P S" "r_ok (check_L1 P S result_init) \<longleftrightarrow> \<not> violates_L1 P S"
    using adds_L1 [of P S result_init] by (auto simp: adds_def result_init_def)
  then show ?thesis by (cases "new = []") (simp_all add: ok_unless_last_def)
qed

lemma check_settled:
  assumes "schedule_ok P S"
  shows "settled (obligations P S) (check P S)"
proof -
  define R1 where "R1 = ok_unless_last 1 ''coverage'' (check_L1 P S result_init)"
  define R2 where "R2 = ok_unless_last 2 ''no-illegal-duplication'' (check_L2 (permits P) S R1)"
  define R3 where "R3 = ok_unless_last 3 ''partial-state-combine'' (check_L3 P (permits P) S R2)"
  define R4 where "R4 = ok_unless_last 4 ''dependency-order'' (check_L4 S R3)"
  define R5 where "R5 = ok_unless_last 5 ''effect-order'' (check_L5 P S R4)"
  define R6 where "R6 = ok_unless_last 6 ''predicates'' (check_L6 P S R5)"
  define R7 where "R7 = ok_unless_last 7 ''numerical-class'' (check_L7 P (permits P) S R6)"
  define R8 where "R8 = ok_unless_last 8 ''resources'' (check_L8 S R7)"
  define R9 where "R9 = ok 9 ''freshness'' R8"
  have c: "check P S = check_L13 P (check_L10 P R9)"
    using assms
    by (simp add: check_def wellFormed_ok_iff ok_unless_first Let_def R1_def R2_def R3_def R4_def R5_def
        R6_def R7_def R8_def R9_def)
  have "settled (((((((((([] @ [(1, ''coverage'', violates_L1 P S)])
      @ [(2, ''no-illegal-duplication'', violates_L2 (permits P) S)])
      @ [(3, ''partial-state-combine'', violates_L3 P (permits P) S)])
      @ [(4, ''dependency-order'', violates_L4 S)])
      @ [(5, ''effect-order'', violates_L5 P S)])
      @ [(6, ''predicates'', violates_L6 P S)])
      @ [(7, ''numerical-class'', violates_L7 P (permits P) S)])
      @ [(8, ''resources'', violates_L8 S)])
      @ [(9, ''freshness'', False)])
      @ [(10, ''assumptions'', unfitted P \<noteq> [])]) (check_L10 P R9)"
    unfolding check_L10_def R9_def R8_def R7_def R6_def R5_def R4_def R3_def R2_def R1_def
    by (intro settled_if settled_ok settled_init refl L1.settle_next L2.settle_next L3.settle_next
        L4.settle_next L5.settle_next L6.settle_next L7.settle_next L8.settle_next) simp_all
  from settled_L13 [OF this] show ?thesis
    by (simp only: c obligations_def append_Nil append_Cons)
qed


lemma check_not_ok: "\<not> schedule_ok P S \<Longrightarrow> \<not> r_ok (check P S) \<and> ob_n ` set (failed (check P S)) = {1}"
  by (simp add: check_def wellFormed_ok_iff Let_def fail_def result_init_def)

lemma check_legal: "r_ok (check P S) \<longleftrightarrow> legal P S"
proof (cases "schedule_ok P S")
  case True
  with check_settled [OF True] show ?thesis by (simp add: settled_def legal_def)
next
  case False
  with check_not_ok [OF False] show ?thesis by (simp add: legal_def)
qed

text \<open>No obligation reads where values are kept: replacing the storage of every stage, whatever it was
  and whatever it becomes, leaves the whole report as it is.\<close>

definition with_storage :: "(stage_schedule \<Rightarrow> access_storage list) \<Rightarrow> schedule \<Rightarrow> schedule" where
  "with_storage g S = map_stages (\<lambda>st. st\<lparr>storage := g st\<rparr>) S"

lemma stages_with_storage: "stages (with_storage g S) = map (\<lambda>st. st\<lparr>storage := g st\<rparr>) (stages S)"
  by (simp add: with_storage_def map_stages_def)

lemma for_stages_with_storage:
  assumes "\<And>si st. body' si (st\<lparr>storage := g st\<rparr>) = body si st"
  shows "for_stages body' (with_storage g S) = for_stages body S"
proof -
  have "fold (\<lambda>(si, st). body' si st) (List.enumerate k (map (\<lambda>st. st\<lparr>storage := g st\<rparr>) sts)) R
      = fold (\<lambda>(si, st). body si st) (List.enumerate k sts) R" for k sts R
    by (induction sts arbitrary: k R) (simp_all add: assms)
  then show ?thesis by (simp add: for_stages_def stages_with_storage fun_eq_iff)
qed

lemma wellFormed_with_storage: "wellFormed P (with_storage g S) = wellFormed P S"
proof -
  have "wf_stage P k (st\<lparr>storage := as\<rparr>) = wf_stage P k st" for k st as
    by (simp add: wf_stage_def cong: sum.case_cong prod.case_cong option.case_cong if_cong)
  then have "wf_stages P k (map (\<lambda>st. st\<lparr>storage := g st\<rparr>) sts) = wf_stages P k sts" for k sts
    by (induction sts arbitrary: k) (simp_all cong: option.case_cong)
  then show ?thesis by (simp add: wellFormed_def stages_with_storage)
qed

lemma L4_with_storage: "check_L4 (with_storage g S) = check_L4 S"
proof -
  have "order (stages (with_storage g S) ! i) = order (stages S ! i)" if "i < length (stages S)" for i
    using that by (simp add: stages_with_storage)
  then show ?thesis
    unfolding check_L4_def
    by (intro for_stages_with_storage) (auto simp: stages_with_storage Let_def not_le intro!: fold_cong ext)
qed

lemma check_with_storage: "check P (with_storage g S) = check P S"
proof -
  have "check_L1 P (with_storage g S) = check_L1 P S" "check_L2 p (with_storage g S) = check_L2 p S"
    "check_L3 P p (with_storage g S) = check_L3 P p S" "check_L5 P (with_storage g S) = check_L5 P S"
    "check_L6 P (with_storage g S) = check_L6 P S" "check_L7 P p (with_storage g S) = check_L7 P p S"
    "check_L8 (with_storage g S) = check_L8 S" for p
    unfolding check_L1_def check_L2_def check_L3_def check_L5_def check_L6_def check_L7_def check_L8_def
    by (rule for_stages_with_storage, simp cong: if_cong)+
  then show ?thesis by (simp only: check_def wellFormed_with_storage L4_with_storage)
qed

text \<open>C4: the checker accepts exactly the legal schedules: those that are well-formed and violate
  none of L1 to L8, L10 and L13 as the code tests them. Of the dependency order (L4) the code tests
  that fused stages share a time factor. The comment above it (\<open>legality.cpp\<close>, line 92) asks in
  addition that a value kept in a register is produced on the lane that uses it. No such test
  exists: the report is the same whatever the storage of the stages, so a schedule stays accepted
  when every value of it is moved to registers, whatever the lanes of its factors.\<close>

theorem check_ok_iff:
  "(r_ok (check P S) \<longleftrightarrow> legal P S) \<and> check P (with_storage g S) = check P S"
  by (simp only: check_legal check_with_storage simp_thms)

text \<open>C16: on a well-formed schedule the report is exact: the numbers among the failures are those
  of the violated obligations, and the discharged list names the other ones, in order; no
  obligation is both failed and discharged, none is missing. The obligations are those the code
  tests: L4 without the register clause of its comment (C4), and L9 always discharged.\<close>

theorem check_report:
  assumes "wf_ok (wellFormed P S)"
  shows "ob_n ` set (failed (check P S)) = {n. \<exists>nm. (n, nm, True) \<in> set (obligations P S)} \<and>
         discharged (check P S)
           = map (\<lambda>(n, nm, v). ok_label n nm) (List.filter (\<lambda>(n, nm, v). \<not> v) (obligations P S))"
  using check_settled [of P S] assms by (simp add: settled_def wellFormed_ok_iff)

text \<open>A one-factor schedule that replicates its lane, for the empty program.\<close>

definition replicated :: schedule where
  "replicated = schedule_init\<lparr>stages := [stage_init\<lparr>factors := [factor_init\<lparr>f_name := ''r'', f_bind := Replicate\<rparr>]\<rparr>]\<rparr>"

theorem check_report_witness:
  "ob_n ` set (failed (check (program_init :: (nat, nat) program) replicated)) = {2} \<and>
   ''L1 coverage'' \<in> set (discharged (check (program_init :: (nat, nat) program) replicated))"
proof -
  have wf: "wf_ok (wellFormed (program_init :: (nat, nat) program) replicated)" by code_simp
  have "violates_L1 (program_init :: (nat, nat) program) replicated = False"
    "violates_L2 (permits (program_init :: (nat, nat) program)) replicated = True"
    "violates_L3 (program_init :: (nat, nat) program) (permits program_init) replicated = False"
    "violates_L4 replicated = False" "violates_L5 (program_init :: (nat, nat) program) replicated = False"
    "violates_L6 (program_init :: (nat, nat) program) replicated = False"
    "violates_L7 (program_init :: (nat, nat) program) (permits program_init) replicated = False"
    "violates_L8 replicated = False" "violates_L13 (program_init :: (nat, nat) program) = False"
    "unfitted (program_init :: (nat, nat) program) = []"
    by (simp_all add: violates_L1_def violates_L2_def violates_L3_def violates_L4_def violates_L5_def
        violates_L6_def violates_L7_def violates_L8_def violates_L13_def replicated_def program_init_def
        schedule_init_def stage_init_def factor_init_def permits_def permissions_init_def reduces_def)
  note v = this
  have o: "obligations (program_init :: (nat, nat) program) replicated =
    [(1, ''coverage'', False), (2, ''no-illegal-duplication'', True), (3, ''partial-state-combine'', False),
     (4, ''dependency-order'', False), (5, ''effect-order'', False), (6, ''predicates'', False),
     (7, ''numerical-class'', False), (8, ''resources'', False), (9, ''freshness'', False),
     (10, ''assumptions'', False), (13, ''numerical-budget'', False)]"
    unfolding obligations_def v by simp
  have "ok_label 1 ''coverage'' = ''L1 coverage''" by code_simp
  then show ?thesis
    using check_report [OF wf] unfolding o by auto
qed

subsection \<open>The source schedule is legal\<close>

lemma permits_loop_any: "any \<Longrightarrow> snd (permits_loop Ls p any)"
  by (induction Ls p any rule: permits_loop.induct) simp_all

lemma permits_programPermits: "p_partition (permits P) \<Longrightarrow> permits P = programPermits P"
  by (auto simp: permits_def programPermits_def permissions_init_def Let_def split: prod.splits if_splits)

lemma hasAlgebra_contraction: "hasAlgebra P TensorSum \<Longrightarrow> isContraction P"
  by (simp add: isContraction_def)

lemma coord_factors_not_replicate: "f \<in> set (coord_factors P j nm) \<Longrightarrow> f_bind f \<noteq> Replicate"
  unfolding coord_factors_def Let_def by (auto split: if_splits)

lemma all_factors_not_replicate: "f \<in> set (all_factors P j nms) \<Longrightarrow> f_bind f \<noteq> Replicate"
  by (auto simp: all_factors_set coord_factors_not_replicate)

text \<open>The single stage of the source schedule, field by field.\<close>

lemma source_stage:
  assumes "length (coordNames P) \<le> 2 ^ 32"
  shows "\<exists>st. stages (sourceSchedule P) = [st] \<and>
    (\<forall>f \<in> set (factors st). f_bind f \<noteq> Replicate) \<and> fusedWith st = [] \<and>
    (predicate st = NoPredicate \<longleftrightarrow> guards P = []) \<and>
    (engine st = TensorOp \<longrightarrow> hasAlgebra P TensorSum) \<and>
    (False \<in> set (coordOutput P) \<and> p_partition (programPermits P) \<longrightarrow> exchange st = ShuffleTree) \<and>
    smemBytes st = 0 \<and> threadScale st = 1"
proof -
  have coords: "source_coords P 0 (coordNames P) ([], [])
      = (all_factors P 0 (coordNames P), time_names (all_factors P 0 (coordNames P)))"
    using source_coords_factors [of "[]" 0 "coordNames P" P "[]"] assms by simp
  show ?thesis
    by (simp add: sourceSchedule_def coords Let_def stage_init_def all_factors_not_replicate)
qed

lemma reduces_output: "reduces P f \<Longrightarrow> False \<in> set (coordOutput P)"
  by (metis (full_types) reduces_def nth_mem)

text \<open>C17: the schedule recovered from a kernel is accepted. It passes every obligation as soon as
  every access site was fitted, the numerical class is one of the two the checker knows, and the
  loops grant partition and reorder wherever a reduction coordinate is bound to a parallel or
  unrolled axis.\<close>

theorem sourceSchedule_legal:
  assumes "distinct (coordNames P)" and "length (coordNames P) \<le> 2 ^ 32"
    and "unfitted P = []" and "numClass P \<in> {[], ''inherit'', ''explicit-budget''}"
    and "False \<in> set (coordOutput P) \<Longrightarrow> p_partition (permits P) \<and> p_reorder (permits P)"
  shows "r_ok (check P (sourceSchedule P))"
proof -
  obtain st where st: "stages (sourceSchedule P) = [st]" "\<forall>f \<in> set (factors st). f_bind f \<noteq> Replicate"
    "fusedWith st = []" "predicate st = NoPredicate \<longleftrightarrow> guards P = []"
    "engine st = TensorOp \<longrightarrow> hasAlgebra P TensorSum"
    "False \<in> set (coordOutput P) \<and> p_partition (programPermits P) \<longrightarrow> exchange st = ShuffleTree"
    "smemBytes st = 0" "threadScale st = 1"
    using source_stage [OF assms(2)] by blast
  have ok: "schedule_ok P (sourceSchedule P)"
    using source_wellFormed [OF assms(1,2)] by (simp only: wellFormed_ok_iff)
  have "\<not> violates_L1 P (sourceSchedule P)"
    using ok st(1,2) by (fastforce simp: violates_L1_def schedule_ok_def stage_ok_def)
  moreover have "\<not> violates_L2 (permits P) (sourceSchedule P)"
    using st(1,2) by (simp add: violates_L2_def)
  moreover have "\<not> violates_L3 P (permits P) (sourceSchedule P)"
    using st(1,6) assms(5) permits_programPermits [of P] reduces_output [of P]
    by (auto simp: violates_L3_def)
  moreover have "\<not> violates_L4 (sourceSchedule P)" using st(1,3) by (simp add: violates_L4_def)
  moreover have "\<not> violates_L5 P (sourceSchedule P)" using st(1,2) by (simp add: violates_L5_def)
  moreover have "\<not> violates_L6 P (sourceSchedule P)" using st(1,4) by (simp add: violates_L6_def)
  moreover have "\<not> violates_L7 P (permits P) (sourceSchedule P)"
    using st(1,5) assms(5) hasAlgebra_contraction [of P] reduces_output [of P]
    by (auto simp: violates_L7_def)
  moreover have "\<not> violates_L8 (sourceSchedule P)" using st(1,7,8) by (simp add: violates_L8_def)
  moreover have "\<not> violates_L13 P" using assms(4) by (simp add: violates_L13_def)
  ultimately show ?thesis
    using ok assms(3) by (simp add: check_legal legal_def obligations_def)
qed

theorem sourceSchedule_legal_witness:
  "r_ok (check (attention ''a'' :: (nat, nat) program) (sourceSchedule (attention ''a'' :: (nat, nat) program)))"
proof (rule sourceSchedule_legal)
  have "p_partition (permits (attention ''a'' :: (nat, nat) program)) = True"
    "p_reorder (permits (attention ''a'' :: (nat, nat) program)) = True"
    by code_simp+
  then show "p_partition (permits (attention ''a'' :: (nat, nat) program)) \<and>
      p_reorder (permits (attention ''a'' :: (nat, nat) program))" by simp
qed (simp_all add: attention_def program_init_def)

subsection \<open>Graphs\<close>

definition edge_ok :: "graph \<Rightarrow> graph_edge \<Rightarrow> bool" where
  "edge_ok G e \<longleftrightarrow> unat (ge_from e) < length (kernels G) \<and> unat (ge_to e) < length (kernels G) \<and>
     sameBlock e \<and> \<not> hostVisible e"

definition graph_ok :: "graph \<Rightarrow> bool" where
  "graph_ok G \<longleftrightarrow> (\<forall>e \<in> set (edges G). edge_ok G e) \<and>
     (deviceOf G = [] \<or> length (deviceOf G) = length (kernels G)) \<and>
     (\<forall>d \<in> set (deviceOf G). d < (if world G \<noteq> 0 then world G else 1))"

lemma check_edge_ok: "r_ok (check_edge G e R) \<longleftrightarrow> r_ok R \<and> edge_ok G e"
  by (auto simp: check_edge_def edge_ok_def fail_def Let_def)

lemma check_edges_ok: "r_ok (fold (check_edge G) es R) \<longleftrightarrow> r_ok R \<and> (\<forall>e \<in> set es. edge_ok G e)"
  by (induction es arbitrary: R) (auto simp: check_edge_ok)

lemma ok_r_ok [simp]: "r_ok (ok n nm R) = r_ok R" "r_ok (ok_unless_last n nm R) = r_ok R"
  by (simp_all add: ok_def ok_unless_last_def)

lemma devices_ok:
  "r_ok (fold (\<lambda>d R. if w \<le> d then fail n st (detail d) R else R) ds R) \<longleftrightarrow> r_ok R \<and> (\<forall>d \<in> set ds. d < (w :: u32))"
  by (induction ds arbitrary: R) (auto simp: fail_def not_le)

lemma checkGraph_graph_ok: "r_ok (checkGraph G) \<longleftrightarrow> graph_ok G"
proof -
  let ?w = "if world G \<noteq> 0 then world G else 1"
  have "r_ok (check_devices G R) \<longleftrightarrow> r_ok R \<and>
      (deviceOf G = [] \<or> length (deviceOf G) = length (kernels G)) \<and> (\<forall>d \<in> set (deviceOf G). d < ?w)" for R
    unfolding check_devices_def Let_def
    by (cases "deviceOf G \<noteq> [] \<and> length (deviceOf G) \<noteq> length (kernels G)";
        cases "\<exists>d \<in> set (deviceOf G). ?w \<le> d")
      (auto simp: devices_ok fail_def not_le simp del: if_split)
  then show ?thesis
    by (simp add: checkGraph_def Let_def check_edges_ok graph_ok_def result_init_def)
qed

text \<open>A graph is accepted exactly when every edge joins two of its kernels inside one block and
  through memory the host does not see, and every kernel, if any is placed, is placed on a device
  of the world.\<close>

lemma checkGraph_ok_iff: "r_ok (checkGraph G) \<longleftrightarrow> graph_ok G"
  by (rule checkGraph_graph_ok)

text \<open>C26: the graph report is not exact. When the last edge both crosses a block and is visible to
  the host, L11 fails and is discharged at the same time: the test reads the number of the last
  failure only, and L12 was recorded after L11.\<close>

theorem checkGraph_discharges_failed_L11:
  assumes "edges G = es @ [e]" and "unat (ge_from e) < length (kernels G)"
    and "unat (ge_to e) < length (kernels G)" and "\<not> sameBlock e" and "hostVisible e"
  shows "11 \<in> ob_n ` set (failed (checkGraph G)) \<and>
         ''L11 cross-launch-dependency'' \<in> set (discharged (checkGraph G))"
proof -
  have label: "ok_label 11 ''cross-launch-dependency'' = ''L11 cross-launch-dependency''" by code_simp
  define R where "R = fold (check_edge G) es result_init"
  define R1 where "R1 = check_edge G e R"
  have R1: "failed R1 = failed R @ [\<lparr>ob_n = 11, ob_stage = kernels G ! unat (ge_from e) @ arrow @ kernels G ! unat (ge_to e),
      ob_detail = ''consumer reads bytes another block wrote (Metal has no grid barrier)''\<rparr>,
      \<lparr>ob_n = 12, ob_stage = ge_tensor e, ob_detail = ''host-visible pointer aliases an intermediate; layout is not free''\<rparr>]"
    using assms(2-5) by (simp add: R1_def check_edge_def fail_def not_le [symmetric])
  have keep: "set (failed Q) \<subseteq> set (failed (check_devices G Q))"
    "set (discharged Q) \<subseteq> set (discharged (check_devices G Q))" for Q
  proof -
    have f: "set (failed Q) \<subseteq> set (failed (fold (\<lambda>d R. if w \<le> d then fail n st (det d) R else R) ds Q))
        \<and> discharged (fold (\<lambda>d R. if w \<le> d then fail n st (det d) R else R) ds Q) = discharged Q" for w :: u32 and n st det ds Q
      by (induction ds arbitrary: Q) (force simp: fail_def)+
    show "set (failed Q) \<subseteq> set (failed (check_devices G Q))"
      "set (discharged Q) \<subseteq> set (discharged (check_devices G Q))"
      using f [where Q = "ok 14 ''collective-consistency'' Q"]
      by (auto simp: check_devices_def Let_def ok_def fail_def)
  qed
  have "checkGraph G = check_devices G (ok_unless_last 12 ''layout-agreement''
      (ok 11 ''cross-launch-dependency'' R1))"
    by (simp add: checkGraph_def assms(1) R_def [symmetric] R1_def [symmetric] Let_def
        ok_unless_last_def [of 11] R1)
  moreover have "\<lparr>ob_n = 11, ob_stage = kernels G ! unat (ge_from e) @ arrow @ kernels G ! unat (ge_to e),
      ob_detail = ''consumer reads bytes another block wrote (Metal has no grid barrier)''\<rparr>
      \<in> set (failed (ok_unless_last 12 ''layout-agreement'' (ok 11 ''cross-launch-dependency'' R1)))"
    by (simp add: ok_unless_last_def ok_def R1)
  moreover have "''L11 cross-launch-dependency'' \<in>
      set (discharged (ok_unless_last 12 ''layout-agreement'' (ok 11 ''cross-launch-dependency'' R1)))"
    by (simp add: ok_unless_last_def ok_def label)
  ultimately show ?thesis using keep by force
qed

definition crossing_graph :: graph where
  "crossing_graph = \<lparr>kernels = [''norm'', ''gemm''],
     edges = [\<lparr>ge_from = 0, ge_to = 1, ge_tensor = ''x'', sameBlock = False, hostVisible = True\<rparr>],
     deviceOf = [], world = 1\<rparr>"

theorem checkGraph_discharges_failed_L11_witness:
  "11 \<in> ob_n ` set (failed (checkGraph crossing_graph)) \<and>
   ''L11 cross-launch-dependency'' \<in> set (discharged (checkGraph crossing_graph))"
  by (rule checkGraph_discharges_failed_L11
      [where es = "[]" and e = "\<lparr>ge_from = 0, ge_to = 1, ge_tensor = ''x'', sameBlock = False, hostVisible = True\<rparr>"])
    (simp_all add: crossing_graph_def)

lemma unat_of_nat_small: "n < 4294967296 \<Longrightarrow> unat (of_nat n :: u32) = n"
  by (simp add: unsigned_of_nat take_bit_nat_eq_self)

text \<open>The edges inferred from the module order never make an accepted graph illegal.\<close>

lemma inferModuleSequentialEdges_legal:
  assumes "r_ok (checkGraph G)" and "length (kernels G) \<le> 2 ^ 32"
  shows "r_ok (checkGraph (inferModuleSequentialEdges G))"
  using assms unfolding checkGraph_graph_ok
  by (auto simp: inferModuleSequentialEdges_def graph_ok_def edge_ok_def unat_of_nat_small
      simp del: of_nat_Suc of_nat_add)

theorem inferModuleSequentialEdges_legal_witness:
  "r_ok (checkGraph (inferModuleSequentialEdges
     \<lparr>kernels = [''norm'', ''gemm'', ''silu''], edges = [], deviceOf = [0, 1, 0], world = 2\<rparr>))"
  by (rule inferModuleSequentialEdges_legal) (simp_all add: checkGraph_graph_ok graph_ok_def)

definition contains_text :: "string \<Rightarrow> string \<Rightarrow> bool" where
  "contains_text k nm \<longleftrightarrow> (\<exists>u v. k = u @ nm @ v)"

lemma contains_iff: "str_find k nm \<noteq> None \<longleftrightarrow> contains_text k nm"
proof
  assume "str_find k nm \<noteq> None"
  then obtain n where "str_find k nm = Some n" by auto
  then have "prefix nm (drop n k)" by (auto dest: str_find_sound)
  then obtain v where "drop n k = nm @ v" by (auto simp: prefix_def)
  then show "contains_text k nm" unfolding contains_text_def by (metis append_take_drop_id)
next
  assume "contains_text k nm"
  then obtain u v where "k = u @ nm @ v" unfolding contains_text_def by blast
  then have "prefix nm (drop (length u) k)" "length u \<le> length k" by simp_all
  then show "str_find k nm \<noteq> None" using str_find_complete by fastforce
qed

lemma prefix_contains: "prefix nm k \<Longrightarrow> contains_text k nm"
  unfolding contains_text_def by (metis append_Nil prefix_def)

lemma kern_index_from_Some:
  "kern_index_from i ks nm = Some j \<longleftrightarrow>
     (\<exists>m < length ks. j = i + m \<and> contains_text (ks ! m) nm \<and> (\<forall>l < m. \<not> contains_text (ks ! l) nm))"
proof (induction i ks nm rule: kern_index_from.induct)
  case (1 i nm)
  then show ?case by simp
next
  case (2 i k ks nm)
  have step: "kern_index_from i (k # ks) nm
      = (if contains_text k nm then Some i else kern_index_from (Suc i) ks nm)"
    using prefix_contains [of nm k] unfolding contains_iff [symmetric] by auto
  show ?case
  proof (cases "contains_text k nm")
    case True
    then show ?thesis
      by (auto simp: step less_Suc_eq_0_disj simp del: kern_index_from.simps intro!: exI [of _ 0])
  next
    case False
    then have "kern_index_from (i + 1) ks nm = Some j \<longleftrightarrow>
      (\<exists>m < length ks. j = i + 1 + m \<and> contains_text (ks ! m) nm \<and> (\<forall>l < m. \<not> contains_text (ks ! l) nm))"
      using 2 prefix_contains [of nm k] unfolding contains_iff [symmetric] by auto
    with False show ?thesis
      by (simp add: step All_less_Suc2 Ex_less_Suc2 del: kern_index_from.simps)
  qed
qed

text \<open>A name in a graph file stands for the first kernel that contains it anywhere. An exact
  or prefix match further down loses to an earlier kernel that merely contains the name.\<close>

lemma kernIndex_first_containing:
  "kernIndex G nm = Some i \<longleftrightarrow>
     i < length (kernels G) \<and> contains_text (kernels G ! i) nm \<and>
     (\<forall>l < i. \<not> contains_text (kernels G ! l) nm)"
  by (simp add: kernIndex_def kern_index_from_Some)

theorem kernIndex_first_containing_witness:
  "kernIndex \<lparr>kernels = [''fused_gemm'', ''gemm''], edges = [], deviceOf = [], world = 1\<rparr> ''gemm'' = Some 0"
proof -
  have "contains_text ''fused_gemm'' ''gemm''"
    unfolding contains_text_def by (rule exI [of _ "''fused_''"]) simp
  then show ?thesis by (simp add: kernIndex_first_containing)
qed

lemma kernIndex_less: "kernIndex G nm = Some i \<Longrightarrow> i < length (kernels G)"
  by (auto simp: kernIndex_def kern_index_from_Some)

text \<open>What a reader adds to a graph: edges between its kernels, and nothing else.\<close>

definition extends_edges :: "graph \<Rightarrow> graph \<Rightarrow> bool" where
  "extends_edges G H \<longleftrightarrow> (\<exists>new. H = G\<lparr>edges := edges G @ new\<rparr> \<and>
     (\<forall>e \<in> set new. unat (ge_from e) < length (kernels G) \<and> unat (ge_to e) < length (kernels G)))"

lemma extends_refl: "extends_edges G G"
  unfolding extends_edges_def by (rule exI [of _ "[]"]) simp

lemma extends_trans: "extends_edges G H \<Longrightarrow> extends_edges H K \<Longrightarrow> extends_edges G K"
proof -
  assume "extends_edges G H" and "extends_edges H K"
  then obtain new new' where "H = G\<lparr>edges := edges G @ new\<rparr>" "K = H\<lparr>edges := edges H @ new'\<rparr>"
    "\<forall>e \<in> set new. unat (ge_from e) < length (kernels G) \<and> unat (ge_to e) < length (kernels G)"
    "\<forall>e \<in> set new'. unat (ge_from e) < length (kernels H) \<and> unat (ge_to e) < length (kernels H)"
    unfolding extends_edges_def by blast
  then show ?thesis
    unfolding extends_edges_def by (intro exI [of _ "new @ new'"]) auto
qed

lemma load_graph_line_extends:
  assumes "load_graph_line l G = Inr H" and "length (kernels G) \<le> 2 ^ 32"
  shows "extends_edges G H"
proof -
  have "H = G \<or> (\<exists>a b t s h. kernIndex G a \<noteq> None \<and> kernIndex G b \<noteq> None \<and>
      H = G\<lparr>edges := edges G @ [\<lparr>ge_from = of_nat (the (kernIndex G a)), ge_to = of_nat (the (kernIndex G b)),
        ge_tensor = t, sameBlock = s, hostVisible = h\<rparr>]\<rparr>)"
    using assms(1) unfolding load_graph_line_def Let_def
    by (auto split: if_splits option.splits prod.splits) (metis option.sel option.distinct(1))+
  then show ?thesis
  proof (elim disjE exE conjE)
    fix a b t s h
    assume ab: "kernIndex G a \<noteq> None" "kernIndex G b \<noteq> None"
      and H: "H = G\<lparr>edges := edges G @ [\<lparr>ge_from = of_nat (the (kernIndex G a)), ge_to = of_nat (the (kernIndex G b)),
        ge_tensor = t, sameBlock = s, hostVisible = h\<rparr>]\<rparr>"
    have "the (kernIndex G a) < length (kernels G)" "the (kernIndex G b) < length (kernels G)"
      using ab kernIndex_less by fastforce+
    with assms(2) show ?thesis
      unfolding extends_edges_def H
      by (intro exI [of _ "[\<lparr>ge_from = of_nat (the (kernIndex G a)), ge_to = of_nat (the (kernIndex G b)),
        ge_tensor = t, sameBlock = s, hostVisible = h\<rparr>]"]) (simp add: unat_of_nat_small)
  qed (simp add: extends_refl)
qed

lemma load_graph_lines_extends:
  "load_graph_lines ls G = (e, H) \<Longrightarrow> length (kernels G) \<le> 2 ^ 32 \<Longrightarrow> extends_edges G H"
proof (induction ls arbitrary: G)
  case (Cons l ls)
  show ?case
  proof (cases "load_graph_line l G")
    case (Inr G')
    from load_graph_line_extends [OF Inr Cons.prems(2)] have x: "extends_edges G G'" .
    then have "length (kernels G') \<le> 2 ^ 32"
      using Cons.prems(2) by (auto simp: extends_edges_def)
    then have "extends_edges G' H" using Cons Inr by simp
    with x show ?thesis by (rule extends_trans)
  qed (use Cons.prems in \<open>simp add: extends_refl\<close>)
qed (simp add: extends_refl)

text \<open>Whatever a graph file holds, reading it, also when it fails half way, only appends edges,
  and both ends of every appended edge are kernels of the graph: the endpoint check of L11 cannot
  fail for an edge that came from a file.\<close>

lemma loadGraphFile_extends:
  assumes "loadGraphFile path content G = (err, H)" and "length (kernels G) \<le> 2 ^ 32"
  shows "extends_edges G H"
  using assms load_graph_lines_extends [of _ G err H]
  by (auto simp: loadGraphFile_def extends_refl split: option.splits)

theorem loadGraphFile_extends_witness:
  "\<exists>err H. loadGraphFile ''g'' (Some ''norm gemm x 1 0'') \<lparr>kernels = [''norm'', ''gemm''], edges = [], deviceOf = [], world = 1\<rparr>
     = (err, H) \<and> extends_edges \<lparr>kernels = [''norm'', ''gemm''], edges = [], deviceOf = [], world = 1\<rparr> H \<and> length (edges H) = 1"
proof -
  let ?G = "\<lparr>kernels = [''norm'', ''gemm''], edges = [], deviceOf = [], world = 1\<rparr>"
  have "loadGraphFile ''g'' (Some ''norm gemm x 1 0'') ?G = (None, ?G\<lparr>edges :=
      [\<lparr>ge_from = 0, ge_to = 1, ge_tensor = ''x'', sameBlock = True, hostVisible = False\<rparr>]\<rparr>)"
    by code_simp
  from this loadGraphFile_extends [OF this] show ?thesis by simp
qed

end
