(* ===== verification/Double.thy ===== *)
theory Double
  imports Prelude "HOL-Library.Log_Nat"
begin

text \<open>
  \<open>double\<close> arithmetic as the cost model uses it. A finite \<open>double\<close> is its rational value; an
  operation is the exact one followed by \<open>fl\<close>, rounding to 53 significant bits, ties to even. The
  values of the cost model are zero or between \<open>10 ^ -12\<close> and \<open>10 ^ 25\<close>, so the bounds of the
  exponent are out of reach and are left out: no overflow, no subnormal number, no NaN.
\<close>

text \<open>The nearest integer, the even one of two equally near.\<close>

definition round_even :: "rat \<Rightarrow> int" where
  "round_even q =
     (let f = \<lfloor>q\<rfloor>; r = q - of_int f in
      if r < 1 / 2 then f else if 1 / 2 < r then f + 1 else if even f then f else f + 1)"

text \<open>The exponent \<open>e\<close> with \<open>2 ^ e \<le> q < 2 ^ (e + 1)\<close>, for positive \<open>q\<close>.\<close>

definition exponent :: "rat \<Rightarrow> int" where
  "exponent q =
     (let (a, b) = quotient_of q; e = bitlen a - bitlen b in if 2 powi e \<le> q then e else e - 1)"

definition fl :: "rat \<Rightarrow> rat" where
  "fl q =
     (if q = 0 then 0
      else let u = 2 powi (exponent \<bar>q\<bar> - 52) in of_int (round_even (q / u)) * u)"

lemma round_even_nonneg: "0 \<le> q \<Longrightarrow> 0 \<le> round_even q"
  by (auto simp: round_even_def Let_def)

lemma round_even_near: "\<bar>of_int (round_even q) - q\<bar> \<le> 1 / 2"
proof -
  have f: "of_int \<lfloor>q\<rfloor> \<le> q" "q < of_int \<lfloor>q\<rfloor> + 1" by linarith+
  then show ?thesis
    unfolding round_even_def Let_def by (auto simp: abs_le_iff)
qed

lemma round_even_mono: "p \<le> q \<Longrightarrow> round_even p \<le> round_even q"
proof (rule ccontr)
  assume pq: "p \<le> q" and "\<not> round_even p \<le> round_even q"
  then have "round_even q + 1 \<le> round_even p" by simp
  then have le: "of_int (round_even q) + 1 \<le> (of_int (round_even p) :: rat)"
    by (metis of_int_1 of_int_add of_int_le_iff)
  with pq round_even_near [of p] round_even_near [of q]
  have "p = q" by linarith
  with le show False by simp
qed

lemma round_even_int: "round_even (of_int k) = k"
  by (simp add: round_even_def)

lemma fl_zero [simp]: "fl 0 = 0"
  by (simp add: fl_def)

lemma two_powi_pos: "0 < (2 :: rat) powi e"
  by simp

lemma fl_nonneg: "0 \<le> q \<Longrightarrow> 0 \<le> fl q"
proof (cases "q = 0")
  case False
  assume "0 \<le> q"
  define u where "u = (2 :: rat) powi (exponent \<bar>q\<bar> - 52)"
  have u: "0 < u" unfolding u_def by simp
  then have "0 \<le> q / u" using \<open>0 \<le> q\<close> by simp
  then have "0 \<le> round_even (q / u)" by (rule round_even_nonneg)
  with u False show ?thesis
    by (simp add: fl_def u_def [symmetric] Let_def)
qed simp

lemma bitlen_range:
  assumes "0 < (a :: int)"
  shows "(2 :: rat) powi (bitlen a - 1) \<le> of_int a" and "of_int a < (2 :: rat) powi bitlen a"
proof -
  from bitlen_bounds [OF assms] have b: "2 ^ nat (bitlen a - 1) \<le> a" "a < 2 ^ nat (bitlen a)" by simp_all
  have pos: "0 < bitlen a" using assms bitlen_eq_zero_iff [of a] bitlen_nonneg [of a] by linarith
  have e1: "(2 :: rat) powi (bitlen a - 1) = of_int (2 ^ nat (bitlen a - 1))"
    using pos by (simp add: power_int_def)
  have e2: "(2 :: rat) powi bitlen a = of_int (2 ^ nat (bitlen a))"
    using pos by (simp add: power_int_def)
  show "(2 :: rat) powi (bitlen a - 1) \<le> of_int a" "of_int a < (2 :: rat) powi bitlen a"
    unfolding e1 e2 of_int_le_iff of_int_less_iff using b by simp_all
qed

lemma exponent_range:
  assumes "0 < q"
  shows "2 powi exponent q \<le> q" and "q < 2 powi (exponent q + 1)"
proof -
  obtain a b where ab: "quotient_of q = (a, b)" by fastforce
  then have q: "q = of_int a / of_int b" and b: "0 < b"
    by (simp_all add: quotient_of_div quotient_of_denom_pos)
  with assms have a: "0 < a" by (simp add: zero_less_divide_iff)
  note ra = bitlen_range [OF a] and rb = bitlen_range [OF b]
  have lower: "2 powi (bitlen a - bitlen b - 1) \<le> q"
  proof -
    have "(2 :: rat) powi (bitlen a - bitlen b - 1) = 2 powi (bitlen a - 1) / 2 powi (bitlen b)"
      by (simp add: power_int_diff)
    also have "\<dots> \<le> of_int a / of_int b"
      using ra(1) rb(2) a b by (intro frac_le) simp_all
    finally show ?thesis by (simp only: q)
  qed
  have upper: "q < 2 powi (bitlen a - bitlen b + 1)"
  proof -
    have "of_int a / of_int b < (2 :: rat) powi (bitlen a) / 2 powi (bitlen b - 1)"
      using ra rb(1) a by (intro frac_less) simp_all
    also have "\<dots> = 2 powi (bitlen a - bitlen b + 1)"
      by (simp add: power_int_diff power_int_add)
    finally show ?thesis by (simp only: q)
  qed
  show "2 powi exponent q \<le> q" "q < 2 powi (exponent q + 1)"
    using lower upper by (auto simp: exponent_def ab Let_def)
qed

lemma powi_mono: "i \<le> j \<Longrightarrow> (2 :: rat) powi i \<le> 2 powi j"
  by (simp add: power_int_increasing)

lemma exponent_mono: "0 < p \<Longrightarrow> p \<le> q \<Longrightarrow> exponent p \<le> exponent q"
proof (rule ccontr)
  assume "0 < p" "p \<le> q" "\<not> exponent p \<le> exponent q"
  then have "(2 :: rat) powi (exponent q + 1) \<le> 2 powi exponent p" by (intro powi_mono) simp
  with exponent_range [of p] exponent_range [of q] \<open>0 < p\<close> \<open>p \<le> q\<close> show False by simp
qed

lemma fl_pos: "0 < q \<Longrightarrow> fl q = of_int (round_even (q / 2 powi (exponent q - 52))) * 2 powi (exponent q - 52)"
  by (simp add: fl_def Let_def)

text \<open>Rounding stays inside the binade.\<close>

lemma fl_range:
  assumes "0 < q"
  shows "2 powi exponent q \<le> fl q" and "fl q \<le> 2 powi (exponent q + 1)"
proof -
  define u where "u = (2 :: rat) powi (exponent q - 52)"
  have u: "0 < u" unfolding u_def by simp
  have lo: "2 powi exponent q = of_int (2 ^ 52) * u" and hi: "2 powi (exponent q + 1) = of_int (2 ^ 53) * u"
    by (simp_all add: u_def power_int_diff power_int_add)
  have "of_int (2 ^ 52) \<le> q / u" "q / u \<le> of_int (2 ^ 53)"
    using exponent_range [OF assms] u unfolding lo hi by (simp_all add: field_simps)
  then have "2 ^ 52 \<le> round_even (q / u)" "round_even (q / u) \<le> 2 ^ 53"
    using round_even_mono [of "of_int (2 ^ 52)" "q / u"] round_even_mono [of "q / u" "of_int (2 ^ 53)"]
    by (simp_all only: round_even_int)
  then show "2 powi exponent q \<le> fl q" "fl q \<le> 2 powi (exponent q + 1)"
    unfolding fl_pos [OF assms] u_def [symmetric] lo hi
    using u by (simp_all only: mult_le_cancel_right_pos of_int_le_iff)
qed

lemma fl_mono:
  assumes "0 \<le> p" and "p \<le> q"
  shows "fl p \<le> fl q"
proof (cases "p = 0")
  case True
  with assms show ?thesis by (simp add: fl_nonneg)
next
  case False
  with assms have pq: "0 < p" "0 < q" by simp_all
  show ?thesis
  proof (cases "exponent p = exponent q")
    case True
    have "0 < (2 :: rat) powi (exponent q - 52)" by simp
    with assms(2) have "p / 2 powi (exponent q - 52) \<le> q / 2 powi (exponent q - 52)"
      by (simp add: divide_right_mono)
    then have "round_even (p / 2 powi (exponent q - 52)) \<le> round_even (q / 2 powi (exponent q - 52))"
      by (rule round_even_mono)
    then show ?thesis
      unfolding fl_pos [OF pq(1)] fl_pos [OF pq(2)] True
      by (intro mult_right_mono) simp_all
  next
    case False
    with exponent_mono [OF pq(1) assms(2)] have "exponent p + 1 \<le> exponent q" by simp
    then have "fl p \<le> 2 powi exponent q"
      using fl_range(2) [OF pq(1)] powi_mono by (meson order_trans)
    with fl_range(1) [OF pq(2)] show ?thesis by simp
  qed
qed

text \<open>Values with at most 53 significant bits are exact; the counts of the cost model are.\<close>

lemma fl_error: "0 < q \<Longrightarrow> \<bar>fl q - q\<bar> \<le> 2 powi (exponent q - 53)"
proof -
  assume q: "0 < q"
  define u where "u = (2 :: rat) powi (exponent q - 52)"
  have u: "0 < u" unfolding u_def by simp
  have "fl q - q = (of_int (round_even (q / u)) - q / u) * u"
    using u by (simp add: fl_pos [OF q] u_def [symmetric] left_diff_distrib)
  then have "\<bar>fl q - q\<bar> \<le> 1 / 2 * u"
    using round_even_near [of "q / u"] u by (simp add: abs_mult mult_right_mono)
  also have "1 / 2 * u = 2 powi (exponent q - 53)"
    by (simp add: u_def power_int_diff)
  finally show ?thesis .
qed

lemma exponent_unique: "2 powi e \<le> q \<Longrightarrow> q < 2 powi (e + 1) \<Longrightarrow> exponent q = e"
proof -
  assume a: "2 powi e \<le> q" "q < 2 powi (e + 1)"
  have "0 < (2 :: rat) powi e" by simp
  with a have q: "0 < q" by linarith
  have "\<not> exponent q + 1 \<le> e"
    using powi_mono [of "exponent q + 1" e] exponent_range [OF q] a by auto
  moreover have "\<not> e + 1 \<le> exponent q"
    using powi_mono [of "e + 1" "exponent q"] exponent_range [OF q] a by auto
  ultimately show ?thesis by linarith
qed

text \<open>A rounded value is a \<open>double\<close>: rounding it again changes nothing.\<close>

lemma fl_idem: "0 \<le> q \<Longrightarrow> fl (fl q) = fl q"
proof (cases "q = 0")
  case False
  assume "0 \<le> q"
  with False have q: "0 < q" by simp
  define e where "e = exponent q"
  define k where "k = round_even (q / 2 powi (e - 52))"
  have f: "fl q = of_int k * 2 powi (e - 52)" by (simp add: fl_pos [OF q] e_def k_def)
  have pos: "0 < fl q"
    using fl_range(1) [OF q] by (rule less_le_trans [rotated]) simp
  show ?thesis
  proof (cases "fl q < 2 powi (e + 1)")
    case True
    then have "exponent (fl q) = e"
      using fl_range(1) [OF q] by (intro exponent_unique) (simp_all add: e_def)
    moreover have "fl q / 2 powi (e - 52) = of_int k" by (simp add: f)
    ultimately show ?thesis
      using fl_pos [OF pos] by (simp add: round_even_int f)
  next
    case False
    with fl_range(2) [OF q] have top: "fl q = 2 powi (e + 1)" by (simp add: e_def)
    then have ex: "exponent (fl q) = e + 1"
      by (intro exponent_unique) (simp_all add: power_int_add)
    have "fl q / 2 powi (exponent (fl q) - 52) = of_int (2 ^ 52)"
      unfolding top ex [unfolded top] by (simp add: power_int_diff power_int_add)
    then have "fl (fl q) = of_int (2 ^ 52) * 2 powi (exponent (fl q) - 52)"
      using fl_pos [OF pos] by (simp only: round_even_int)
    also have "\<dots> = fl q"
      unfolding top ex [unfolded top] by (simp add: power_int_diff power_int_add)
    finally show ?thesis .
  qed
qed simp

lemma fl_positive: "0 < q \<Longrightarrow> 0 < fl q"
  using fl_range(1) [of q] by (rule less_le_trans [rotated]) simp_all

lemma fl_expand: "0 \<le> p \<Longrightarrow> fl p \<le> q \<Longrightarrow> fl p \<le> fl q"
  using fl_mono [of "fl p" q] by (simp add: fl_nonneg fl_idem)

end
