(* ===== verification/Schedule_Search.thy ===== *)
theory Schedule_Search
  imports Schedule_Text Double
begin

text \<open>
  The cost model and the search over schedules (\<open>costOf\<close> and \<open>candidates\<close> of
  \<open>cpp/mvcc-llvm/schedule.cpp\<close>). The text \<open>Cost::breakdown\<close>, which only reports print, is in the theory of the engine.
  \<open>std::sort\<close> is not stable and fixes only what every sort guarantees: it is an argument, under the
  contract \<open>std_sort\<close>.

  The lemmas show that the search returns well-formed schedules, no more than the window, the source
  schedule always among them, and nothing cheaper left out; and that streaming from the device never
  raises the cost of a schedule that reads the device anyway.
\<close>

subsection \<open>The cost model\<close>

record cost =
  deviceBytes :: rat
  smemKB :: rat
  occupancy :: rat
  tensorOps :: rat
  alu :: rat
  barriers :: rat
  seconds :: rat

text \<open>The locals of the loop over the stages.\<close>

record cost_state =
  cs_tensorOps :: rat
  cs_alu :: rat
  cs_barriers :: rat
  anyDevice :: bool
  anySmem :: bool
  cs_smem :: u32

definition acc_samples :: "('e, 'i) program \<Rightarrow> rat" where
  "acc_samples P =
     (let n = fold (\<lambda>a n. fl (n + of_nat (unat (if ac_samples a \<noteq> 0 then ac_samples a else 1)))) (accesses P) 0
      in if n = 0 then 256 else n)"

definition cost_storage :: "access_storage \<Rightarrow> cost_state \<Rightarrow> cost_state" where
  "cost_storage a c =
     (let c = (if as_kind a = DeviceStorage then c\<lparr>anyDevice := True\<rparr> else c)
      in if as_kind a = Threadgroup
         then c\<lparr>anySmem := True, cs_smem := max (cs_smem c) (if ringBytes a \<noteq> 0 then ringBytes a else 8192)\<rparr>
         else c)"

definition cost_stage :: "rat \<Rightarrow> stage_schedule \<Rightarrow> cost_state \<Rightarrow> cost_state" where
  "cost_stage samples st c =
     (let c = c\<lparr>cs_smem := max (cs_smem c) (smemBytes st)\<rparr>;
          c = fold cost_storage (storage st) c;
          c = (if engine st = TensorOp then c\<lparr>cs_tensorOps := fl (cs_tensorOps c + 1)\<rparr> else c);
          c = (if engine st = ScalarFma then c\<lparr>cs_alu := fl (cs_alu c + samples)\<rparr> else c);
          c = (if exchange st = ThreadgroupBuffer
               then c\<lparr>cs_smem := max (cs_smem c) 8192, cs_barriers := fl (cs_barriers c + 2)\<rparr> else c);
          c = (if exchange st = ShuffleTree then c\<lparr>cs_alu := fl (cs_alu c + 32)\<rparr> else c)
      in if anySmem c \<or> smemBytes st \<noteq> 0 then c\<lparr>cs_barriers := fl (cs_barriers c + 1)\<rparr> else c)"

definition cost_init :: cost_state where
  "cost_init = \<lparr>cs_tensorOps = 0, cs_alu = 0, cs_barriers = 0, anyDevice = False, anySmem = False, cs_smem = 0\<rparr>"

definition occupancy_of :: "rat \<Rightarrow> rat" where
  "occupancy_of kb = (if kb \<le> 1 / 2 then 1 else min 1 (fl (16 / max kb 1)))"

definition tensor_time :: "rat \<Rightarrow> rat \<Rightarrow> rat" where
  "tensor_time ops occ =
     fl (fl (fl (fl (fl (ops * 32) * 32) * 32) * 2) / fl (18500000000000 * max occ (fl (1 / 20))))"

definition roofline :: "rat \<Rightarrow> rat \<Rightarrow> cost_state \<Rightarrow> rat" where
  "roofline bytes occ c =
     (let memT = fl (bytes / 125000000000);
          aluT = tensor_time (cs_tensorOps c) occ;
          scalarT = fl (cs_alu c / 10000000000);
          s = fl (max memT (max aluT scalarT) + fl (cs_barriers c * fl (2 / 10000000)))
      in if anySmem c \<and> 32768 < cs_smem c then fl (s * 8) else s)"

definition costOf :: "('e, 'i) program \<Rightarrow> schedule \<Rightarrow> cost" where
  "costOf P S =
     (let samples = acc_samples P;
          c = fold (cost_stage samples) (stages S) cost_init;
          bytes = (if anyDevice c then fl (samples * 16) else 0);
          kb = fl (of_nat (unat (cs_smem c)) / 1024);
          occ = occupancy_of kb
      in \<lparr>deviceBytes = bytes, smemKB = kb, occupancy = occ, tensorOps = cs_tensorOps c, alu = cs_alu c,
          barriers = cs_barriers c, seconds = roofline bytes occ c\<rparr>)"

subsection \<open>The search\<close>

record candidate =
  c_S :: schedule
  c_cost :: cost

abbreviation c_seconds :: "candidate \<Rightarrow> rat" where
  "c_seconds c \<equiv> seconds (c_cost c)"

text \<open>The state of the search: \<open>out\<close> and \<open>seen\<close>.\<close>

definition consider_cand :: "('e, 'i) program \<Rightarrow> schedule \<Rightarrow> candidate list \<times> string set \<Rightarrow> candidate list \<times> string set" where
  "consider_cand P S = (\<lambda>(out, seen).
     if \<not> wf_ok (wellFormed P S) then (out, seen)
     else if canon S \<in> seen then (out, seen)
     else (out @ [\<lparr>c_S = S, c_cost = costOf P S\<rparr>], insert (canon S) seen))"

definition search_edits :: "schedule \<Rightarrow> schedule list" where
  "search_edits S = [editEngineTensorOp S, editRestage2 S, editSimdSplit S 2, editSimdSplit S 4,
     editDeviceStream S, editGuardedZeroPage S]"

text \<open>One round: every edit of every schedule of the frontier is considered and becomes part of the
  next frontier.\<close>

definition search_round :: "('e, 'i) program \<Rightarrow> schedule list \<Rightarrow> candidate list \<times> string set
    \<Rightarrow> (candidate list \<times> string set) \<times> schedule list" where
  "search_round P frontier st =
     fold (\<lambda>S (st, nxt). fold (\<lambda>E (st, nxt). (consider_cand P E st, nxt @ [E])) (search_edits S) (st, nxt))
       frontier (st, [])"

fun search_rounds :: "('e, 'i) program \<Rightarrow> nat \<Rightarrow> schedule list \<Rightarrow> candidate list \<times> string set
    \<Rightarrow> candidate list \<times> string set" where
  "search_rounds P 0 frontier st = st"
| "search_rounds P (Suc d) frontier st =
     (let (st, nxt) = search_round P frontier st in search_rounds P d nxt st)"

text \<open>\<open>std::sort\<close> on the candidates, by predicted seconds, is the argument \<open>srt\<close>. Shrinking an empty
  vector (a window of zero) is the undefined behaviour \<open>None\<close>.\<close>

definition candidates :: "(candidate list \<Rightarrow> candidate list) \<Rightarrow> ('e, 'i) program \<Rightarrow> nat \<Rightarrow> nat
    \<Rightarrow> candidate list option" where
  "candidates srt P depth width =
     (let src = sourceSchedule P;
          (out, seen) = search_rounds P depth [src] (consider_cand P src ([], {}));
          out = srt out;
          out = (if width < length out then take width out else out);
          hasSrc = (\<exists>c \<in> set out. s_why (c_S c) = ''source'')
      in if \<not> hasSrc \<and> wf_ok (wellFormed P src)
         then if length out = width \<and> out = [] then None
              else Some ((if length out = width then butlast out else out)
                         @ [\<lparr>c_S = src, c_cost = costOf P src\<rparr>])
         else Some out)"

subsection \<open>What a sort guarantees\<close>

locale std_sort =
  fixes key :: "'a \<Rightarrow> 'k :: linorder" and srt :: "'a list \<Rightarrow> 'a list"
  assumes sort_mset: "mset (srt xs) = mset xs"
    and sort_sorted: "sorted (map key (srt xs))"
begin

lemma sort_set: "set (srt xs) = set xs"
  using sort_mset by (metis set_mset_mset)

lemma sort_length: "length (srt xs) = length xs"
  using sort_mset by (metis size_mset)

text \<open>What falls out of a window of \<open>n\<close> is no smaller than what stays.\<close>

lemma window:
  assumes "x \<in> set xs" and "x \<notin> set (take n (srt xs))" and "y \<in> set (take n (srt xs))"
  shows "key y \<le> key x"
proof -
  have "x \<in> set (drop n (srt xs))"
    using assms(1,2) sort_set [of xs] by (metis Un_iff append_take_drop_id set_append)
  moreover have "sorted (map key (take n (srt xs)) @ map key (drop n (srt xs)))"
    using sort_sorted [of xs] by (simp only: map_append [symmetric] append_take_drop_id)
  ultimately show ?thesis using assms(3) by (auto simp: sorted_append)
qed

end

interpretation cost_sort: std_sort c_seconds "sort_key c_seconds"
  by unfold_locales simp_all

subsection \<open>What the rounds find\<close>

lemma search_round_eq:
  "search_round P frontier st = (fold (consider_cand P) (concat (map search_edits frontier)) st,
     concat (map search_edits frontier))"
proof -
  have inner: "fold (\<lambda>E (st, nxt). (consider_cand P E st, nxt @ [E])) Es (st, nxt)
      = (fold (consider_cand P) Es st, nxt @ Es)" for Es st nxt
    by (induction Es arbitrary: st nxt) simp_all
  have "fold (\<lambda>S (st, nxt). fold (\<lambda>E (st, nxt). (consider_cand P E st, nxt @ [E])) (search_edits S) (st, nxt))
      frontier (st, nxt)
      = (fold (consider_cand P) (concat (map search_edits frontier)) st, nxt @ concat (map search_edits frontier))" for nxt
    by (induction frontier arbitrary: st nxt) (simp_all add: inner)
  then show ?thesis by (simp add: search_round_def)
qed

text \<open>The schedules of the rounds, in the order they are considered.\<close>

fun layers :: "nat \<Rightarrow> schedule list \<Rightarrow> schedule list" where
  "layers 0 frontier = []"
| "layers (Suc d) frontier =
     (let nxt = concat (map search_edits frontier) in nxt @ layers d nxt)"

lemma search_rounds_eq: "search_rounds P d frontier st = fold (consider_cand P) (layers d frontier) st"
  by (induction d arbitrary: frontier st) (simp_all add: search_round_eq Let_def)

text \<open>A schedule reached from the source by at most \<open>d\<close> edits.\<close>

inductive reached :: "('e, 'i) program \<Rightarrow> nat \<Rightarrow> schedule \<Rightarrow> bool" for P where
  reached_source: "reached P d (sourceSchedule P)"
| reached_edit: "reached P d S \<Longrightarrow> E \<in> set (search_edits S) \<Longrightarrow> reached P (Suc d) E"

inductive_cases reachedE: "reached P d S"

abbreviation edit_all :: "schedule list \<Rightarrow> schedule list" where
  "edit_all F \<equiv> concat (map search_edits F)"

lemma layers_set: "set (layers d F) = (\<Union>k \<in> {1..d}. set ((edit_all ^^ k) F))"
proof (induction d arbitrary: F)
  case (Suc d)
  have split: "(\<Union>k \<in> {1..Suc d}. f k) = f 1 \<union> (\<Union>k \<in> {1..d}. f (Suc k))" for f :: "nat \<Rightarrow> schedule set"
  proof -
    have "{1..Suc d} = insert 1 (Suc ` {1..d})" by (auto simp: image_iff Bex_def)
    then have "(\<Union>k \<in> {1..Suc d}. f k) = f 1 \<union> (\<Union>k \<in> Suc ` {1..d}. f k)" by (simp only: UN_insert)
    also have "(\<Union>k \<in> Suc ` {1..d}. f k) = (\<Union>k \<in> {1..d}. f (Suc k))" by blast
    finally show ?thesis .
  qed
  have "(\<Union>k \<in> {1..Suc d}. set ((edit_all ^^ k) F))
      = set (edit_all F) \<union> (\<Union>k \<in> {1..d}. set ((edit_all ^^ k) (edit_all F)))"
    unfolding split funpow_Suc_right by simp
  with Suc [of "edit_all F"] show ?case by (simp only: layers.simps Let_def set_append)
qed simp

lemma reached_mono: "reached P d S \<Longrightarrow> d \<le> e \<Longrightarrow> reached P e S"
proof (induction arbitrary: e rule: reached.induct)
  case (reached_edit d S E)
  then obtain e' where "e = Suc e'" "d \<le> e'" by (cases e) auto
  with reached_edit show ?case by (auto intro: reached.reached_edit)
qed (rule reached.reached_source)

lemma reached_iff_layers:
  "reached P d S \<longleftrightarrow> S \<in> set (sourceSchedule P # layers d [sourceSchedule P])"
proof
  assume "reached P d S"
  then have "\<exists>k \<le> d. S \<in> set ((edit_all ^^ k) [sourceSchedule P])"
  proof (induction rule: reached.induct)
    case (reached_source d)
    then show ?case by (intro exI [of _ 0]) simp
  next
    case (reached_edit d S E)
    then obtain k where "k \<le> d" "S \<in> set ((edit_all ^^ k) [sourceSchedule P])" by blast
    with reached_edit(2) show ?case by (intro exI [of _ "Suc k"]) auto
  qed
  then obtain k where k: "k \<le> d" "S \<in> set ((edit_all ^^ k) [sourceSchedule P])" by blast
  then show "S \<in> set (sourceSchedule P # layers d [sourceSchedule P])"
    by (cases "k = 0") (auto simp: layers_set simp del: funpow.simps intro!: bexI [of _ k])
next
  have step: "S \<in> set ((edit_all ^^ k) [sourceSchedule P]) \<Longrightarrow> reached P k S" for k S
  proof (induction k arbitrary: S)
    case 0
    then show ?case by (simp add: reached.reached_source)
  next
    case (Suc k)
    then show ?case by (auto intro: reached.reached_edit)
  qed
  assume "S \<in> set (sourceSchedule P # layers d [sourceSchedule P])"
  then show "reached P d S"
    by (auto simp: layers_set intro: reached.reached_source reached_mono [OF step])
qed

text \<open>The edits of the search are edits in the sense of the contract of \<open>Schedule\<close>.\<close>

lemma search_edit_contract:
  assumes "E \<in> set (search_edits S)"
  shows "\<exists>e. schedule_edit e \<and> E = e S"
  using assms tensor_op_edit.schedule_edit_axioms restage2_edit.schedule_edit_axioms
    simd_split2_edit.schedule_edit_axioms simd_split4_edit.schedule_edit_axioms
    device_stream_edit.schedule_edit_axioms zero_page_edit.schedule_edit_axioms
  unfolding search_edits_def by auto

lemma reached_wellFormed:
  "reached P d S \<Longrightarrow> wf_ok (wellFormed P (sourceSchedule P)) \<Longrightarrow> wf_ok (wellFormed P S)"
proof (induction rule: reached.induct)
  case (reached_edit d S E)
  then show ?case using search_edit_contract schedule_edit.keeps_wellFormed by metis
qed

lemma source_why: "s_why (sourceSchedule P) = ''source''"
  by (simp add: sourceSchedule_def Let_def split: prod.split)

lemma reached_source_why: "reached P d S \<Longrightarrow> s_why S = ''source'' \<longleftrightarrow> S = sourceSchedule P"
proof (induction rule: reached.induct)
  case (reached_edit d S E)
  then have "s_why E \<noteq> ''source''"
    using search_edit_contract schedule_edit.not_source by metis
  then show ?case using source_why by metis
qed (simp add: source_why)

subsection \<open>The canonical text determines the cost\<close>

text \<open>What every schedule of the search has: the kernel, the one stage and the storage and exchange of
  the source schedule (whose values are all on the device), and a provenance of one word. Only the
  bytes of a ring, which the cost reads and the text leaves out, could tell two schedules of the
  same text apart, and no schedule of the search has a ring.\<close>

definition source_storage :: "('e, 'i) program \<Rightarrow> access_storage list" where
  "source_storage P = map (\<lambda>t. access_storage_init\<lparr>as_tensor := of_nat t, as_kind := DeviceStorage\<rparr>)
     [0..<length (tensors P)]"

definition search_shape :: "('e, 'i) program \<Rightarrow> schedule \<Rightarrow> bool" where
  "search_shape P S \<longleftrightarrow> s_kernel S = kernel P \<and> (\<forall>c \<in> set (s_why S). \<not> isspace c) \<and>
     (\<exists>st. stages S = [st] \<and> storage st = source_storage P \<and>
        exchange st = exchange (hd (stages (sourceSchedule P))))"

lemma source_shape: "search_shape P (sourceSchedule P)"
  by (simp add: search_shape_def sourceSchedule_def source_storage_def Let_def isspace_def split: prod.split)

lemma source_storage_kinds [simp]:
  "map (\<lambda>a. if as_kind a = Register then f a else a) (source_storage P) = source_storage P"
  "map (\<lambda>a. if as_kind a = Threadgroup then f a else a) (source_storage P) = source_storage P"
  by (simp_all add: source_storage_def)

lemma split_whys: "c \<in> set (s_why (editSimdSplit S k)) \<Longrightarrow> \<not> isspace c"
  using to_string_no_space [of c "unat k"] by (auto simp: editSimdSplit_def map_stages_def isspace_def)

lemma edit_shape:
  assumes "search_shape P S" and "E \<in> set (search_edits S)"
  shows "search_shape P E"
proof -
  obtain st where st: "stages S = [st]" "storage st = source_storage P"
    "exchange st = exchange (hd (stages (sourceSchedule P)))" "s_kernel S = kernel P"
    using assms(1) by (auto simp: search_shape_def)
  have "search_shape P (editSimdSplit S k)" for k
    using split_whys [of _ S k] by (auto simp: search_shape_def editSimdSplit_def map_stages_def st)
  moreover have "search_shape P (editEngineTensorOp S)" "search_shape P (editRestage2 S)"
    "search_shape P (editDeviceStream S)" "search_shape P (editGuardedZeroPage S)"
    by (simp_all add: search_shape_def editEngineTensorOp_def editRestage2_def editDeviceStream_def
        editGuardedZeroPage_def map_stages_def isspace_def st)
  ultimately show ?thesis using assms(2) by (auto simp: search_edits_def)
qed

lemma reached_shape: "reached P d S \<Longrightarrow> search_shape P S"
  by (induction rule: reached.induct) (auto intro: source_shape edit_shape)

text \<open>Two texts that start with a word each: the words are the same, and so is the rest.\<close>

lemma word_cut:
  assumes "a @ c # x = b @ d # y" and "\<forall>c \<in> set a. \<not> isspace c" and "\<forall>c \<in> set b. \<not> isspace c"
    and "isspace c" and "isspace d"
  shows "a = b \<and> x = y"
  using assms
proof (induction a arbitrary: b)
  case Nil
  then show ?case by (cases b) auto
next
  case (Cons k a)
  then show ?case by (cases b) auto
qed

lemma token_cut:
  assumes "is_token a" and "is_token b" and "isspace c" and "isspace d"
  shows "a @ c # x = b @ d # y \<longleftrightarrow> a = b \<and> c = d \<and> x = y"
  using word_cut [of a c x b d y] assms by (auto simp: is_token_def)

lemma stage_text_cost:
  assumes "concat (map (\<lambda>l. l @ [newline]) (dump_stage 0 st)) = concat (map (\<lambda>l. l @ [newline]) (dump_stage 0 st'))"
  shows "engine st = engine st' \<and> smemBytes st = smemBytes st'"
proof -
  have sp: "isspace CHR '' ''" "isspace newline" by (simp_all add: isspace_def)
  note t = engine_enum.name_token exchange_enum.name_token prefetch_enum.name_token predicate_enum.name_token
    is_token_to_string
  show ?thesis
    using assms by (simp add: dump_stage_def token_cut t sp engine_enum.name_inject word_unat_eq_iff)
qed

lemma canon_cost:
  assumes "search_shape P S" and "search_shape P T" and "canon S = canon T"
  shows "costOf P S = costOf P T"
proof -
  obtain st st' where st: "stages S = [st]" "stages T = [st']" "storage st = storage st'" "exchange st = exchange st'"
    using assms(1,2) by (auto simp: search_shape_def)
  have k: "s_kernel S = s_kernel T" "\<forall>c \<in> set (s_why S). \<not> isspace c" "\<forall>c \<in> set (s_why T). \<not> isspace c"
    using assms(1,2) by (simp_all add: search_shape_def)
  have "s_why S @ CHR '' '' # (''stages='' @ to_string 1 @ newline # concat (map (\<lambda>l. l @ [newline]) (dump_stage 0 st)))
      = s_why T @ CHR '' '' # (''stages='' @ to_string 1 @ newline # concat (map (\<lambda>l. l @ [newline]) (dump_stage 0 st')))"
    using assms(3) by (simp add: canon_def dump_def st k(1))
  from word_cut [OF this k(2,3)] have "engine st = engine st' \<and> smemBytes st = smemBytes st'"
    by (intro stage_text_cost) (simp add: isspace_def)
  then have "cost_stage n st c = cost_stage n st' c" for n c
    by (simp add: cost_stage_def st)
  then show ?thesis by (simp add: costOf_def st)
qed

subsection \<open>What the search collects\<close>

definition cand :: "('e, 'i) program \<Rightarrow> schedule \<Rightarrow> candidate" where
  "cand P S = \<lparr>c_S = S, c_cost = costOf P S\<rparr>"

text \<open>The entries so far: well-formed, costed, one for each canonical text seen.\<close>

definition search_inv :: "('e, 'i) program \<Rightarrow> candidate list \<Rightarrow> string set \<Rightarrow> bool" where
  "search_inv P out seen \<longleftrightarrow> seen = (canon o c_S) ` set out \<and> distinct (map (canon o c_S) out) \<and>
     (\<forall>c \<in> set out. c = cand P (c_S c) \<and> wf_ok (wellFormed P (c_S c)))"

lemma consider_fold:
  assumes "fold (consider_cand P) xs (out, seen) = (out', seen')" and "search_inv P out seen"
  shows "search_inv P out' seen' \<and> set out \<subseteq> set out' \<and>
    (\<forall>x \<in> set xs. wf_ok (wellFormed P x) \<longrightarrow> canon x \<in> seen') \<and>
    (\<forall>c \<in> set out'. c \<in> set out \<or> c_S c \<in> set xs)"
  using assms
proof (induction xs arbitrary: out seen)
  case Nil
  then show ?case by simp
next
  case (Cons x xs)
  obtain out1 seen1 where step: "consider_cand P x (out, seen) = (out1, seen1)" by fastforce
  then have inv1: "search_inv P out1 seen1" and sub: "set out \<subseteq> set out1"
    and x: "wf_ok (wellFormed P x) \<longrightarrow> canon x \<in> seen1" and from_x: "\<forall>c \<in> set out1. c \<in> set out \<or> c_S c = x"
    using Cons.prems(2) by (auto simp: consider_cand_def search_inv_def cand_def split: if_splits)
  from Cons.prems(1) step have rest: "fold (consider_cand P) xs (out1, seen1) = (out', seen')" by simp
  have ih: "search_inv P out' seen'" "set out1 \<subseteq> set out'"
    "\<forall>x \<in> set xs. wf_ok (wellFormed P x) \<longrightarrow> canon x \<in> seen'" "\<forall>c \<in> set out'. c \<in> set out1 \<or> c_S c \<in> set xs"
    using Cons.IH [OF rest inv1] by blast+
  have "seen1 \<subseteq> seen'"
    using inv1 ih(1,2) by (auto simp: search_inv_def)
  with ih x sub from_x show ?case by auto
qed

text \<open>The entries of a search of depth \<open>d\<close>, before the sort.\<close>

definition entries :: "('e, 'i) program \<Rightarrow> nat \<Rightarrow> candidate list" where
  "entries P d = fst (fold (consider_cand P) (sourceSchedule P # layers d [sourceSchedule P]) ([], {}))"

lemma entries_props:
  "distinct (map (canon o c_S) (entries P d))"
  "c \<in> set (entries P d) \<Longrightarrow> c = cand P (c_S c) \<and> wf_ok (wellFormed P (c_S c)) \<and> reached P d (c_S c)"
  "reached P d S \<Longrightarrow> wf_ok (wellFormed P S) \<Longrightarrow> \<exists>c \<in> set (entries P d). canon (c_S c) = canon S"
  "wf_ok (wellFormed P (sourceSchedule P)) \<Longrightarrow> cand P (sourceSchedule P) \<in> set (entries P d)"
proof -
  let ?xs = "sourceSchedule P # layers d [sourceSchedule P]"
  obtain out seen where run: "fold (consider_cand P) ?xs ([], {}) = (out, seen)" by fastforce
  have "search_inv P [] {}" by (simp add: search_inv_def)
  note f = consider_fold [OF run this]
  have out: "entries P d = out" by (simp only: entries_def run fst_conv)
  show "distinct (map (canon o c_S) (entries P d))"
    using f by (simp add: search_inv_def out)
  show "c \<in> set (entries P d) \<Longrightarrow> c = cand P (c_S c) \<and> wf_ok (wellFormed P (c_S c)) \<and> reached P d (c_S c)"
    using f unfolding reached_iff_layers out search_inv_def by auto
  show "reached P d S \<Longrightarrow> wf_ok (wellFormed P S) \<Longrightarrow> \<exists>c \<in> set (entries P d). canon (c_S c) = canon S"
    using f unfolding reached_iff_layers out search_inv_def by force
  show "wf_ok (wellFormed P (sourceSchedule P)) \<Longrightarrow> cand P (sourceSchedule P) \<in> set (entries P d)"
  proof -
    assume wf: "wf_ok (wellFormed P (sourceSchedule P))"
    have rest: "fold (consider_cand P) (layers d [sourceSchedule P])
        ([cand P (sourceSchedule P)], {canon (sourceSchedule P)}) = (out, seen)"
      using run wf by (simp add: consider_cand_def cand_def)
    have "search_inv P [cand P (sourceSchedule P)] {canon (sourceSchedule P)}"
      using wf by (simp add: search_inv_def cand_def)
    from consider_fold [OF rest this] show ?thesis by (simp add: out)
  qed
qed

subsection \<open>What the search returns\<close>

lemma candidates_eq:
  "candidates srt P d w =
     (let out = take w (srt (entries P d)) in
      if \<not> (\<exists>c \<in> set out. s_why (c_S c) = ''source'') \<and> wf_ok (wellFormed P (sourceSchedule P))
      then if length out = w \<and> out = [] then None
           else Some ((if length out = w then butlast out else out) @ [cand P (sourceSchedule P)])
      else Some out)"
proof -
  obtain out seen where run: "fold (consider_cand P) (layers d [sourceSchedule P])
      (consider_cand P (sourceSchedule P) ([], {})) = (out, seen)" by fastforce
  then have e: "entries P d = out" by (simp add: entries_def)
  have window: "(if w < length (srt out) then take w (srt out) else srt out) = take w (srt out)" by simp
  show ?thesis
    unfolding candidates_def Let_def search_rounds_eq run split_conv window e cand_def by (rule refl)
qed

lemma candidates_cases:
  assumes "candidates srt P d w = Some cs"
  obtains (window) "cs = take w (srt (entries P d))"
      "wf_ok (wellFormed P (sourceSchedule P)) \<Longrightarrow> \<exists>c \<in> set cs. s_why (c_S c) = ''source''"
    | (source) k where "cs = take k (srt (entries P d)) @ [cand P (sourceSchedule P)]" "k < w"
      "wf_ok (wellFormed P (sourceSchedule P))" "\<forall>c \<in> set (take w (srt (entries P d))). s_why (c_S c) \<noteq> ''source''"
      "length (srt (entries P d)) \<le> k \<or> length cs = w"
proof (cases "\<not> (\<exists>c \<in> set (take w (srt (entries P d))). s_why (c_S c) = ''source'')
    \<and> wf_ok (wellFormed P (sourceSchedule P))")
  case False
  with assms have cs: "cs = take w (srt (entries P d))"
    unfolding candidates_eq Let_def by (simp only: if_False) simp
  with False show thesis by (intro window) auto
next
  case True
  let ?out = "take w (srt (entries P d))"
  from True assms have e: "\<not> (length ?out = w \<and> ?out = [])"
    and cs: "cs = (if length ?out = w then butlast ?out else ?out) @ [cand P (sourceSchedule P)]"
    unfolding candidates_eq Let_def by (simp_all only: if_True simp_thms split: if_splits) simp_all
  show thesis
  proof (cases "length ?out = w")
    case full: True
    with e have w: "0 < w" by auto
    have "butlast ?out = take (w - 1) (srt (entries P d))"
      using full by (simp add: butlast_take)
    with full cs have "cs = take (w - 1) (srt (entries P d)) @ [cand P (sourceSchedule P)]" by simp
    moreover from this full w have "length cs = w" by simp
    ultimately show thesis using True w by (intro source [of "w - 1"]) auto
  next
    case False
    then have len: "length (srt (entries P d)) < w" by simp
    with cs False have "cs = take (length (srt (entries P d))) (srt (entries P d)) @ [cand P (sourceSchedule P)]"
      by simp
    with True len show thesis by (intro source [of "length (srt (entries P d))"]) auto
  qed
qed

lemma candidates_entries:
  assumes "std_sort c_seconds srt" and "candidates srt P d w = Some cs" and "c \<in> set cs"
  shows "c \<in> set (entries P d)"
  using assms(2)
proof (cases rule: candidates_cases)
  case window
  with assms(3) show ?thesis
    using std_sort.sort_set [OF assms(1), of "entries P d"] by (auto dest: in_set_takeD)
next
  case (source k)
  with assms(3) show ?thesis
    using std_sort.sort_set [OF assms(1), of "entries P d"] entries_props(4) [of P d]
    by (auto dest: in_set_takeD)
qed

text \<open>C24: every schedule the search returns is well-formed, was reached from the source by at most
  \<open>d\<close> edits and carries its own cost; there are at most \<open>w\<close>, and no two print the same.\<close>

theorem candidates_sound:
  assumes "std_sort c_seconds srt" and "candidates srt P d w = Some cs"
  shows "(\<forall>c \<in> set cs. wf_ok (wellFormed P (c_S c)) \<and> reached P d (c_S c) \<and> c_cost c = costOf P (c_S c)) \<and>
         length cs \<le> w \<and> distinct (map (\<lambda>c. canon (c_S c)) cs)"
proof (intro conjI ballI)
  fix c
  assume "c \<in> set cs"
  note e = entries_props(2) [OF candidates_entries [OF assms this]]
  then show "wf_ok (wellFormed P (c_S c))" "reached P d (c_S c)" by blast+
  from e show "c_cost c = costOf P (c_S c)" by (metis cand_def candidate.select_convs(2))
next
  show "length cs \<le> w" using assms(2) by (cases rule: candidates_cases) auto
next
  have "mset (map (canon o c_S) (srt (entries P d))) = mset (map (canon o c_S) (entries P d))"
    by (simp only: mset_map std_sort.sort_mset [OF assms(1)])
  then have dist: "distinct (map (canon o c_S) (srt (entries P d)))"
    using entries_props(1) [of P d] by (metis mset_eq_imp_distinct_iff)
  show "distinct (map (\<lambda>c. canon (c_S c)) cs)"
    using assms(2)
  proof (cases rule: candidates_cases)
    case window
    with distinct_take [OF dist, of w] show ?thesis by (simp add: take_map o_def)
  next
    case (source k)
    have "canon (c_S c) \<noteq> canon (sourceSchedule P)" if "c \<in> set (take k (srt (entries P d)))" for c
    proof
      assume eq: "canon (c_S c) = canon (sourceSchedule P)"
      have c: "c \<in> set (entries P d)"
        using that std_sort.sort_set [OF assms(1), of "entries P d"] by (auto dest: in_set_takeD)
      have "(canon o c_S) c = (canon o c_S) (cand P (sourceSchedule P))" using eq by (simp add: cand_def)
      then have "c = cand P (sourceSchedule P)"
        using entries_props(1) [of P d] c entries_props(4) [OF source(3), of d]
        by (meson distinct_map inj_onD)
      moreover have "c \<in> set (take w (srt (entries P d)))"
        using that source(2) by (metis in_mono less_imp_le set_take_subset_set_take)
      ultimately show False using source(4) by (auto simp: cand_def source_why)
    qed
    then have "canon (sourceSchedule P) \<notin> (\<lambda>c. canon (c_S c)) ` set (take k (srt (entries P d)))"
      by (metis (no_types, lifting) imageE)
    moreover have "distinct (map (\<lambda>c. canon (c_S c)) (take k (srt (entries P d))))"
      using distinct_take [OF dist, of k] by (simp add: take_map o_def)
    ultimately show ?thesis by (simp add: source(1) cand_def)
  qed
qed

lemma candidates_total: "0 < w \<Longrightarrow> \<exists>cs. candidates srt P d w = Some cs"
  unfolding candidates_eq Let_def by auto

lemma candidates_source:
  assumes "std_sort c_seconds srt" and "candidates srt P d w = Some cs"
    and "wf_ok (wellFormed P (sourceSchedule P))"
  shows "cand P (sourceSchedule P) \<in> set cs"
  using assms(2)
proof (cases rule: candidates_cases)
  case window
  then obtain c where c: "c \<in> set cs" "s_why (c_S c) = ''source''" using assms(3) by blast
  note e = entries_props(2) [OF candidates_entries [OF assms(1,2) c(1)]]
  then have "c_S c = sourceSchedule P" using c(2) reached_source_why by blast
  with e c(1) show ?thesis by metis
next
  case (source k)
  then show ?thesis by simp
qed

text \<open>A sort to try the search with.\<close>

lemma by_seconds: "std_sort c_seconds (sort_key c_seconds)"
  by (rule cost_sort.std_sort_axioms)

theorem candidates_sound_witness:
  "\<exists>cs. candidates (sort_key c_seconds) (gemm ''g'' :: (nat, nat) program) 3 8 = Some cs \<and> length cs \<le> 8 \<and>
     (\<forall>c \<in> set cs. wf_ok (wellFormed (gemm ''g'' :: (nat, nat) program) (c_S c)))"
proof -
  obtain cs where "candidates (sort_key c_seconds) (gemm ''g'' :: (nat, nat) program) 3 8 = Some cs"
    using candidates_total [of 8] by fastforce
  with candidates_sound [OF by_seconds this] show ?thesis by blast
qed

text \<open>With a window of at least one the search always returns, and the source schedule of a
  program with distinct coordinate names is always among the candidates, however it ranks.\<close>

lemma candidates_keep_source:
  assumes "std_sort c_seconds srt" and "0 < w"
    and "distinct (coordNames P)" and "length (coordNames P) \<le> 2 ^ 32"
  shows "\<exists>cs. candidates srt P d w = Some cs \<and> sourceSchedule P \<in> c_S ` set cs"
proof -
  obtain cs where cs: "candidates srt P d w = Some cs" using candidates_total [OF assms(2)] by blast
  from candidates_source [OF assms(1) cs source_wellFormed [OF assms(3,4)]]
  have "c_S (cand P (sourceSchedule P)) \<in> c_S ` set cs" by (rule imageI)
  with cs show ?thesis by (simp add: cand_def)
qed

theorem candidates_keep_source_witness:
  "\<exists>cs. candidates (sort_key c_seconds) (attention ''a'' :: (nat, nat) program) 2 1 = Some cs \<and>
     sourceSchedule (attention ''a'' :: (nat, nat) program) \<in> c_S ` set cs"
  by (rule candidates_keep_source [OF by_seconds]) (simp_all add: attention_def)

text \<open>C14: nothing cheap is lost. For every well-formed schedule reached within the depth, either a
  candidate prints the same, or the window is full and every candidate in it is predicted to be no
  dearer than that schedule, with one exemption: the source schedule, which the code keeps whatever
  its cost, and which is then the last candidate.\<close>

theorem candidates_cheapest:
  assumes "std_sort c_seconds srt" and "candidates srt P d w = Some cs"
    and "reached P d T" and "wf_ok (wellFormed P T)"
  shows "(\<exists>c \<in> set cs. canon (c_S c) = canon T) \<or>
         (length cs = w \<and>
          (\<forall>c \<in> set cs. c_seconds c \<le> seconds (costOf P T) \<or> (c = last cs \<and> c_S c = sourceSchedule P)))"
proof -
  obtain x where x: "x \<in> set (entries P d)" "canon (c_S x) = canon T"
    using entries_props(3) [OF assms(3,4)] by blast
  note ex = entries_props(2) [OF x(1)]
  then have "c_seconds x = seconds (costOf P (c_S x))"
    by (metis cand_def candidate.select_convs(2))
  moreover have "costOf P (c_S x) = costOf P T"
    using canon_cost [OF reached_shape reached_shape [OF assms(3)] x(2)] ex by blast
  ultimately have cost: "c_seconds x = seconds (costOf P T)" by simp
  have outside: ?thesis if "length cs = w"
    "\<forall>c \<in> set cs. c_seconds c \<le> c_seconds x \<or> c = last cs \<and> c_S c = sourceSchedule P"
    using that unfolding cost by (rule disjI2 [OF conjI])
  show ?thesis
  proof (cases "x \<in> set cs")
    case False
    from assms(2) show ?thesis
    proof (cases rule: candidates_cases)
      case window
      have "length (srt (entries P d)) > w"
      proof (rule ccontr)
        assume "\<not> length (srt (entries P d)) > w"
        then have "set cs = set (entries P d)"
          using window(1) std_sort.sort_set [OF assms(1), of "entries P d"] by simp
        with x(1) False show False by blast
      qed
      then have "length cs = w" using window(1) by simp
      moreover have "\<forall>c \<in> set cs. c_seconds c \<le> c_seconds x"
        using std_sort.window [OF assms(1) x(1)] False window(1) by blast
      ultimately show ?thesis by (intro outside) simp_all
    next
      case (source k)
      have out: "x \<notin> set (take k (srt (entries P d)))" using False source(1) by auto
      then have "\<not> length (srt (entries P d)) \<le> k"
        using x(1) std_sort.sort_set [OF assms(1), of "entries P d"] by auto
      with source(5) have "length cs = w" by blast
      moreover have "\<forall>c \<in> set cs. c_seconds c \<le> c_seconds x \<or> c = last cs \<and> c_S c = sourceSchedule P"
        using std_sort.window [OF assms(1) x(1) out] source(1) by (auto simp: cand_def)
      ultimately show ?thesis by (intro outside)
    qed
  qed (use x(2) in blast)
qed

theorem candidates_cheapest_witness:
  "\<exists>cs. candidates (sort_key c_seconds) (gemm ''g'' :: (nat, nat) program) 1 2 = Some cs \<and>
     ((\<exists>c \<in> set cs. canon (c_S c) = canon (editRestage2 (sourceSchedule (gemm ''g'' :: (nat, nat) program)))) \<or>
      (length cs = 2 \<and>
       (\<forall>c \<in> set cs. c_seconds c \<le> seconds (costOf (gemm ''g'' :: (nat, nat) program)
            (editRestage2 (sourceSchedule (gemm ''g'' :: (nat, nat) program)))) \<or>
          (c = last cs \<and> c_S c = sourceSchedule (gemm ''g'' :: (nat, nat) program)))))"
proof -
  let ?P = "gemm ''g'' :: (nat, nat) program"
  obtain cs where cs: "candidates (sort_key c_seconds) ?P 1 2 = Some cs"
    using candidates_total [of 2] by fastforce
  have "reached ?P (Suc 0) (editRestage2 (sourceSchedule ?P))"
    by (rule reached.reached_edit [OF reached.reached_source]) (simp add: search_edits_def)
  then have r: "reached ?P 1 (editRestage2 (sourceSchedule ?P))" by simp
  have "wf_ok (wellFormed ?P (sourceSchedule ?P))"
    by (rule source_wellFormed) (simp_all add: gemm_def)
  from candidates_cheapest [OF by_seconds cs r reached_wellFormed [OF r this]] cs
  show ?thesis by blast
qed

subsection \<open>Streaming from the device never costs more\<close>

lemma occupancy_of_antimono: "kb \<le> kb' \<Longrightarrow> occupancy_of kb' \<le> occupancy_of kb"
proof -
  assume le: "kb \<le> kb'"
  then have "16 / max kb' 1 \<le> 16 / max kb 1" by (intro divide_left_mono) (auto simp: max_def)
  then have "fl (16 / max kb' 1) \<le> fl (16 / max kb 1)" by (intro fl_mono) (auto simp: max_def)
  with le show ?thesis by (auto simp: occupancy_of_def min_def)
qed

lemma tensor_time_antimono:
  assumes "0 \<le> ops" and "occ' \<le> occ"
  shows "tensor_time ops occ \<le> tensor_time ops occ'"
proof -
  define n where "n = fl (fl (fl (fl (ops * 32) * 32) * 32) * 2)"
  have n: "0 \<le> n" unfolding n_def using assms(1) by (intro fl_nonneg mult_nonneg_nonneg) simp_all
  have "0 < fl (1 / 20)" by (rule fl_positive) simp
  then have pos: "0 < 18500000000000 * max occ' (fl (1 / 20))" by (auto simp: max_def)
  moreover have le: "18500000000000 * max occ' (fl (1 / 20)) \<le> 18500000000000 * max occ (fl (1 / 20))"
    using assms(2) by simp
  ultimately have d: "fl (18500000000000 * max occ' (fl (1 / 20))) \<le> fl (18500000000000 * max occ (fl (1 / 20)))"
    by (intro fl_mono) simp_all
  moreover have "0 < fl (18500000000000 * max occ' (fl (1 / 20)))" using pos by (rule fl_positive)
  ultimately have "n / fl (18500000000000 * max occ (fl (1 / 20))) \<le> n / fl (18500000000000 * max occ' (fl (1 / 20)))"
    using n by (intro divide_left_mono) (simp_all add: mult_pos_pos)
  moreover have "0 \<le> n / fl (18500000000000 * max occ (fl (1 / 20)))"
    using n pos le by (intro divide_nonneg_nonneg fl_nonneg) simp_all
  ultimately show ?thesis
    unfolding tensor_time_def n_def [symmetric] by (intro fl_mono)
qed

text \<open>What the loop has counted: not negative, and \<open>c'\<close> no dearer than \<open>c\<close>.\<close>

definition counted :: "cost_state \<Rightarrow> bool" where
  "counted c \<longleftrightarrow> 0 \<le> cs_tensorOps c \<and> 0 \<le> cs_alu c \<and> 0 \<le> cs_barriers c \<and> fl (cs_barriers c) = cs_barriers c"

definition no_dearer :: "cost_state \<Rightarrow> cost_state \<Rightarrow> bool" where
  "no_dearer c' c \<longleftrightarrow> cs_tensorOps c' = cs_tensorOps c \<and> cs_alu c' = cs_alu c \<and>
     cs_barriers c' \<le> cs_barriers c \<and> \<not> anySmem c' \<and> cs_smem c' \<le> cs_smem c"

lemma cost_storage_step:
  "cs_tensorOps (cost_storage a c) = cs_tensorOps c"
  "cs_alu (cost_storage a c) = cs_alu c"
  "cs_barriers (cost_storage a c) = cs_barriers c"
  "anySmem (cost_storage a c) \<longleftrightarrow> anySmem c \<or> as_kind a = Threadgroup"
  "anyDevice (cost_storage a c) \<longleftrightarrow> anyDevice c \<or> as_kind a = DeviceStorage"
  "as_kind a \<noteq> Threadgroup \<Longrightarrow> cs_smem (cost_storage a c) = cs_smem c"
  "cs_smem c \<le> cs_smem (cost_storage a c)"
  by (auto simp: cost_storage_def Let_def)

lemma cost_storage_counts:
  "cs_tensorOps (fold cost_storage as c) = cs_tensorOps c"
  "cs_alu (fold cost_storage as c) = cs_alu c"
  "cs_barriers (fold cost_storage as c) = cs_barriers c"
  by (induction as arbitrary: c) (simp_all add: cost_storage_step)

lemma cost_storage_any:
  "anySmem (fold cost_storage as c) \<longleftrightarrow> anySmem c \<or> (\<exists>a \<in> set as. as_kind a = Threadgroup)"
  "anyDevice (fold cost_storage as c) \<longleftrightarrow> anyDevice c \<or> (\<exists>a \<in> set as. as_kind a = DeviceStorage)"
  by (induction as arbitrary: c) (auto simp: cost_storage_step)

lemma cost_storage_smem:
  "\<forall>a \<in> set as. as_kind a \<noteq> Threadgroup \<Longrightarrow> cs_smem (fold cost_storage as c) = cs_smem c"
  by (induction as arbitrary: c) (simp_all add: cost_storage_step)

lemma cost_storage_smem_le: "cs_smem c \<le> cs_smem (fold cost_storage as c)"
proof (induction as arbitrary: c)
  case (Cons a as)
  have "cs_smem c \<le> cs_smem (cost_storage a c)" by (rule cost_storage_step)
  also have "\<dots> \<le> cs_smem (fold cost_storage as (cost_storage a c))" by (rule Cons)
  finally show ?case by simp
qed simp

lemmas cost_storage_fields = cost_storage_counts cost_storage_any cost_storage_smem

abbreviation stream_storage :: "access_storage list \<Rightarrow> access_storage list" where
  "stream_storage \<equiv> map (\<lambda>a. if as_kind a = Threadgroup then a\<lparr>as_kind := DeviceStorage\<rparr> else a)"

abbreviation stream_stage :: "stage_schedule \<Rightarrow> stage_schedule" where
  "stream_stage st \<equiv> st\<lparr>storage := stream_storage (storage st), prefetch := IterationStart, smemBytes := 0\<rparr>"

lemma stages_stream: "stages (editDeviceStream S) = map stream_stage (stages S)"
  by (simp add: editDeviceStream_def map_stages_def)

lemma stream_no_threadgroup: "\<forall>a \<in> set (stream_storage as). as_kind a \<noteq> Threadgroup"
  by auto

lemma cost_stage_fields:
  "cs_tensorOps (cost_stage k st c) = (if engine st = TensorOp then fl (cs_tensorOps c + 1) else cs_tensorOps c)"
  "cs_alu (cost_stage k st c) =
     (let a = (if engine st = ScalarFma then fl (cs_alu c + k) else cs_alu c)
      in if exchange st = ShuffleTree then fl (a + 32) else a)"
  "cs_barriers (cost_stage k st c) =
     (let b = (if exchange st = ThreadgroupBuffer then fl (cs_barriers c + 2) else cs_barriers c)
      in if anySmem (cost_stage k st c) \<or> smemBytes st \<noteq> 0 then fl (b + 1) else b)"
  "anySmem (cost_stage k st c) \<longleftrightarrow> anySmem c \<or> (\<exists>a \<in> set (storage st). as_kind a = Threadgroup)"
  "anyDevice (cost_stage k st c) \<longleftrightarrow> anyDevice c \<or> (\<exists>a \<in> set (storage st). as_kind a = DeviceStorage)"
  "cs_smem (cost_stage k st c) =
     (let z = cs_smem (fold cost_storage (storage st) (c\<lparr>cs_smem := max (cs_smem c) (smemBytes st)\<rparr>))
      in if exchange st = ThreadgroupBuffer then max z 8192 else z)"
  by (cases "engine st"; cases "exchange st"; simp add: cost_stage_def Let_def cost_storage_counts cost_storage_any)+

lemma counted_stage: "counted c \<Longrightarrow> 0 \<le> k \<Longrightarrow> counted (cost_stage k st c)"
  unfolding counted_def
  by (simp add: cost_stage_fields Let_def fl_nonneg fl_idem)

lemma barrier_grows: "counted c \<Longrightarrow> 0 \<le> k \<Longrightarrow> cs_barriers c \<le> fl (cs_barriers c + k)"
  using fl_expand [of "cs_barriers c" "cs_barriers c + k"] by (simp add: counted_def)

lemma fl_add_mono: "0 \<le> p \<Longrightarrow> p \<le> q \<Longrightarrow> 0 \<le> k \<Longrightarrow> fl (p + k) \<le> fl (q + k)"
  by (rule fl_mono) simp_all

lemma stream_stage_no_dearer:
  assumes "counted c'" and "counted c" and "no_dearer c' c" and "0 \<le> k"
  shows "no_dearer (cost_stage k (stream_stage st) c') (cost_stage k st c)"
proof -
  have same: "cs_tensorOps c' = cs_tensorOps c" "cs_alu c' = cs_alu c" "\<not> anySmem c'"
    "cs_barriers c' \<le> cs_barriers c" "cs_smem c' \<le> cs_smem c"
    using assms(3) by (simp_all add: no_dearer_def)
  have pos: "0 \<le> cs_barriers c'" "0 \<le> cs_barriers c" "fl (cs_barriers c) = cs_barriers c"
    using assms(1,2) by (simp_all add: counted_def)
  have st': "storage (stream_stage st) = stream_storage (storage st)" by simp
  have none: "\<not> anySmem (cost_stage k (stream_stage st) c')"
    unfolding cost_stage_fields(4) st' using same(3) stream_no_threadgroup [of "storage st"] by blast
  define b' where "b' = (if exchange st = ThreadgroupBuffer then fl (cs_barriers c' + 2) else cs_barriers c')"
  define b where "b = (if exchange st = ThreadgroupBuffer then fl (cs_barriers c + 2) else cs_barriers c)"
  have b: "b' \<le> b" "0 \<le> b" "fl b = b"
    using same(4) pos by (simp_all add: b_def b'_def fl_add_mono fl_nonneg fl_idem)
  have "b \<le> fl (b + 1)" using b(2,3) fl_expand [of b "b + 1"] by simp
  moreover have "cs_barriers (cost_stage k (stream_stage st) c') = b'"
    using none by (simp add: cost_stage_fields(3) b'_def)
  moreover have "cs_barriers (cost_stage k st c)
      = (if anySmem (cost_stage k st c) \<or> smemBytes st \<noteq> 0 then fl (b + 1) else b)"
    by (simp only: cost_stage_fields(3) Let_def b_def)
  ultimately have barriers: "cs_barriers (cost_stage k (stream_stage st) c') \<le> cs_barriers (cost_stage k st c)"
    using b(1) by simp
  have "cs_smem c' \<le> max (cs_smem c) (smemBytes st)"
    using same(5) by (rule max.coboundedI1)
  also have "\<dots> \<le> cs_smem (fold cost_storage (storage st) (c\<lparr>cs_smem := max (cs_smem c) (smemBytes st)\<rparr>))"
    using cost_storage_smem_le [of "c\<lparr>cs_smem := max (cs_smem c) (smemBytes st)\<rparr>" "storage st"] by simp
  finally have z: "cs_smem c' \<le> cs_smem (fold cost_storage (storage st) (c\<lparr>cs_smem := max (cs_smem c) (smemBytes st)\<rparr>))"
    (is "_ \<le> ?z") .
  have "max (cs_smem c') 0 = cs_smem c'" by (rule max_absorb1) simp
  then have z': "cs_smem (fold cost_storage (stream_storage (storage st)) (c'\<lparr>cs_smem := max (cs_smem c') 0\<rparr>)) = cs_smem c'"
    using cost_storage_smem [OF stream_no_threadgroup] by simp
  have s0: "smemBytes (stream_stage st) = 0" "exchange (stream_stage st) = exchange st" by simp_all
  have "cs_smem (cost_stage k (stream_stage st) c')
      = (if exchange st = ThreadgroupBuffer then max (cs_smem c') 8192 else cs_smem c')"
    unfolding cost_stage_fields(6) Let_def st' s0 z' by (rule refl)
  moreover have "cs_smem (cost_stage k st c) = (if exchange st = ThreadgroupBuffer then max ?z 8192 else ?z)"
    unfolding cost_stage_fields(6) Let_def by (rule refl)
  ultimately have "cs_smem (cost_stage k (stream_stage st) c') \<le> cs_smem (cost_stage k st c)"
    using z max.mono [OF z order.refl, of 8192] by (simp only: split: if_split) simp
  with barriers none show ?thesis
    using same(1,2) by (simp add: no_dearer_def cost_stage_fields(1,2))
qed

lemma stream_fold_no_dearer:
  assumes "counted c'" and "counted c" and "no_dearer c' c" and "0 \<le> k"
  shows "no_dearer (fold (cost_stage k) (map stream_stage sts) c') (fold (cost_stage k) sts c) \<and>
    counted (fold (cost_stage k) (map stream_stage sts) c') \<and> counted (fold (cost_stage k) sts c)"
  using assms
proof (induction sts arbitrary: c' c)
  case (Cons st sts)
  from Cons.IH [OF counted_stage [OF Cons.prems(1,4)] counted_stage [OF Cons.prems(2,4)]
      stream_stage_no_dearer [OF Cons.prems, of st] Cons.prems(4)]
  show ?case by simp
qed simp

lemma anyDevice_fold:
  "anyDevice (fold (cost_stage k) sts c) \<longleftrightarrow>
     anyDevice c \<or> (\<exists>st \<in> set sts. \<exists>a \<in> set (storage st). as_kind a = DeviceStorage)"
  by (induction sts arbitrary: c) (auto simp: cost_stage_fields(5))

lemma acc_samples_nonneg: "0 \<le> acc_samples P"
proof -
  have "0 \<le> fold (\<lambda>a n. fl (n + of_nat (unat (if ac_samples a \<noteq> 0 then ac_samples a else 1)))) as n"
    if "0 \<le> (n :: rat)" for as :: "('a, 'b) access list" and n
    using that
  proof (induction as arbitrary: n)
    case (Cons a as)
    have "0 \<le> fl (n + of_nat (unat (if ac_samples a \<noteq> 0 then ac_samples a else 1)))"
      by (intro fl_nonneg add_nonneg_nonneg of_nat_0_le_iff Cons.prems)
    from Cons.IH [OF this] show ?case by (simp only: fold_simps)
  qed simp
  from this [of 0 "accesses P"] show ?thesis by (simp add: acc_samples_def Let_def)
qed

lemma roofline_mono:
  assumes "no_dearer c' c" and "counted c'" and "counted c" and "occ \<le> occ'"
  shows "roofline bytes occ' c' \<le> roofline bytes occ c"
proof -
  define s where "s = fl (max (fl (bytes / 125000000000))
    (max (tensor_time (cs_tensorOps c) occ) (fl (cs_alu c / 10000000000))) + fl (cs_barriers c * fl (2 / 10000000)))"
  define s' where "s' = fl (max (fl (bytes / 125000000000))
    (max (tensor_time (cs_tensorOps c) occ') (fl (cs_alu c / 10000000000))) + fl (cs_barriers c' * fl (2 / 10000000)))"
  have u: "0 \<le> fl (2 / 10000000)" by (simp add: fl_nonneg)
  have alu: "0 \<le> fl (cs_alu c / 10000000000)"
    using assms(3) by (intro fl_nonneg) (simp add: counted_def)
  have b: "0 \<le> cs_barriers c'" "cs_barriers c' \<le> cs_barriers c"
    using assms(1,2) by (simp_all add: no_dearer_def counted_def)
  have "tensor_time (cs_tensorOps c) occ' \<le> tensor_time (cs_tensorOps c) occ"
    using assms(3,4) by (intro tensor_time_antimono) (simp_all add: counted_def)
  moreover have bar: "fl (cs_barriers c' * fl (2 / 10000000)) \<le> fl (cs_barriers c * fl (2 / 10000000))"
    using u b by (intro fl_mono mult_right_mono) simp_all
  moreover have bar0: "0 \<le> fl (cs_barriers c' * fl (2 / 10000000))"
    using u b by (intro fl_nonneg) simp
  moreover define m where "m = max (fl (bytes / 125000000000)) (max (tensor_time (cs_tensorOps c) occ) (fl (cs_alu c / 10000000000)))"
  moreover define m' where "m' = max (fl (bytes / 125000000000)) (max (tensor_time (cs_tensorOps c) occ') (fl (cs_alu c / 10000000000)))"
  ultimately have m: "m' \<le> m" "0 \<le> m'" using alu by (auto simp: max_def)
  have "s' \<le> s" and "0 \<le> s'"
    unfolding s_def s'_def m_def [symmetric] m'_def [symmetric]
    by (intro fl_mono add_mono add_nonneg_nonneg m bar bar0) (intro fl_nonneg add_nonneg_nonneg m bar0)
  have idem: "fl s = s"
    unfolding s_def m_def [symmetric] using m bar bar0 by (intro fl_idem) simp
  have "s \<le> fl (s * 8)"
    using \<open>0 \<le> s'\<close> \<open>s' \<le> s\<close> idem fl_mono [of s "s * 8"] by simp
  with \<open>s' \<le> s\<close> assms(1) show ?thesis
    by (auto simp: roofline_def no_dearer_def s_def s'_def Let_def)
qed

text \<open>Once some access is served from device memory, moving the staged accesses there as well
  (\<open>editDeviceStream\<close>) never raises the predicted time, whatever the program and the shape of the
  schedule: barriers and shared memory only shrink, occupancy only grows, and rounding is monotone.\<close>

lemma device_stream_no_dearer:
  assumes "\<exists>st \<in> set (stages S). \<exists>a \<in> set (storage st). as_kind a = DeviceStorage"
  shows "seconds (costOf P (editDeviceStream S)) \<le> seconds (costOf P S)"
proof -
  let ?k = "acc_samples P"
  let ?c = "fold (cost_stage ?k) (stages S) cost_init"
  let ?c' = "fold (cost_stage ?k) (stages (editDeviceStream S)) cost_init"
  have init: "counted cost_init" "no_dearer cost_init cost_init"
    by (simp_all add: counted_def no_dearer_def cost_init_def)
  have nd: "no_dearer ?c' ?c" "counted ?c'" "counted ?c"
    unfolding stages_stream
    using stream_fold_no_dearer [OF init(1) init(1) init(2) acc_samples_nonneg [of P]] by blast+
  have dev: "anyDevice ?c" using assms by (simp add: anyDevice_fold)
  have dev': "anyDevice ?c'"
    unfolding stages_stream anyDevice_fold using assms by force
  have "unat (cs_smem ?c') \<le> unat (cs_smem ?c)"
    using nd(1) by (simp add: no_dearer_def word_le_nat_alt)
  then have "(of_nat (unat (cs_smem ?c')) :: rat) \<le> of_nat (unat (cs_smem ?c))"
    by (simp only: of_nat_le_iff)
  then have "fl (of_nat (unat (cs_smem ?c')) / 1024) \<le> fl (of_nat (unat (cs_smem ?c)) / 1024)"
    by (intro fl_mono divide_right_mono divide_nonneg_nonneg of_nat_0_le_iff) simp_all
  from roofline_mono [OF nd occupancy_of_antimono [OF this]] show ?thesis
    by (simp add: costOf_def Let_def dev dev')
qed

theorem device_stream_no_dearer_witness:
  "seconds (costOf (gemm ''g'' :: (nat, nat) program) (editDeviceStream (schedule_init\<lparr>stages := [stage_init\<lparr>smemBytes := 65536,
      storage := [access_storage_init, access_storage_init\<lparr>as_kind := Threadgroup, ringBytes := 65536\<rparr>]\<rparr>]\<rparr>)))
   \<le> seconds (costOf (gemm ''g'' :: (nat, nat) program) (schedule_init\<lparr>stages := [stage_init\<lparr>smemBytes := 65536,
      storage := [access_storage_init, access_storage_init\<lparr>as_kind := Threadgroup, ringBytes := 65536\<rparr>]\<rparr>]\<rparr>))"
  by (rule device_stream_no_dearer) (simp add: access_storage_init_def)

end
