(* ===== verification/Engine.thy ===== *)
theory Engine
  imports Legality Schedule_Search
begin

text \<open>
  The engine (\<open>cpp/mvcc-llvm/engine.cpp\<close>): the target table, the emission plan, the choice among the
  candidates of the search with the data base of measured schedules, the reports \<open>explain\<close> and
  \<open>analyze\<close>, and the commands \<open>stirIn\<close> and \<open>schedDiff\<close>. Environment variables and files are
  arguments holding their content, \<open>None\<close> when unset or unreadable; \<open>std::sort\<close>, \<open>atof\<close> and the text
  of a \<open>double\<close> are arguments too.

  The lemmas show that the choice is a legal candidate whenever there is one, that without
  measurements no legal candidate is cheaper and the source schedule wins ties, and that a legal
  candidate the data base names is taken.
\<close>

subsection \<open>Targets and precision\<close>

record target =
  tg_name :: string
  tg_engines :: "string list"
  tg_smemBytes :: u32
  bwGBps :: rat
  tflops :: rat

definition metal4 :: target where
  "metal4 = \<lparr>tg_name = ''metal4-tensorops'', tg_engines = [''tensor-op'', ''scalar-fma'', ''simd-vector''],
     tg_smemBytes = 32768, bwGBps = 125, tflops = 37 / 2\<rparr>"

definition simdgroupMatrix :: target where
  "simdgroupMatrix = \<lparr>tg_name = ''simdgroup-matrix'', tg_engines = [''tensor-op'', ''scalar-fma''],
     tg_smemBytes = 32768, bwGBps = 125, tflops = fl (74 / 10)\<rparr>"

definition scalarMSL :: target where
  "scalarMSL = \<lparr>tg_name = ''scalar-msl'', tg_engines = [''scalar-fma'', ''simd-vector''],
     tg_smemBytes = 32768, bwGBps = 125, tflops = 1\<rparr>"

definition nvptxOracle :: target where
  "nvptxOracle = \<lparr>tg_name = ''nvptx-oracle'', tg_engines = [''mma.sync'', ''scalar-fma''],
     tg_smemBytes = 232448, bwGBps = 2000, tflops = 150\<rparr>"

datatype Precision = Inherit | FpReassoc32 | FpReassocStar | ExplicitBudget

fun precisionName :: "Precision \<Rightarrow> string" where
  "precisionName Inherit = ''inherit''"
| "precisionName FpReassoc32 = ''fp-reassoc(32)''"
| "precisionName FpReassocStar = ''fp-reassoc(*)''"
| "precisionName ExplicitBudget = ''explicit-budget''"

subsection \<open>The emission plan\<close>

record emit_plan =
  canEmit :: bool
  e_why :: string
  e_steps :: "string list"

definition planEmit :: "('e, 'i) program \<Rightarrow> schedule \<Rightarrow> legal_result \<Rightarrow> emit_plan" where
  "planEmit P S L =
     (if \<not> r_ok L then \<lparr>canEmit = False, e_why = first_failure L, e_steps = []\<rparr>
      else \<lparr>canEmit = True,
        e_why = (if s_why S = ''source'' then ''identity: exact twin is a legal emission of the source schedule''
                 else ''check+emit: '' @ s_why S),
        e_steps = [''loop nest from order ('' @ to_string (case stages S of [] \<Rightarrow> 0 | st # _ \<Rightarrow> length (order st)) @ '' time factors)'',
          ''coordinates from bind (inverse of coordPhys for the new schedule, strength-reduced)'',
          ''accesses by storage; point function instantiated; combine by algebra and engine'',
          ''effects predicated to their owner; ABI from the schedule'']
          @ (if accesses P \<noteq> [] then [''shared-fill dedup over '' @ to_string (length (accesses P)) @ '' accesses''] else [])\<rparr>)"

subsection \<open>The data base of measured schedules\<close>

text \<open>The lines of the file \<open>MVCC_SCHED_DB\<close> names; none for a kernel without a name.\<close>

abbreviation tab :: char where "tab \<equiv> CHR 0x09"

definition db_lines :: "string option \<Rightarrow> string \<Rightarrow> string list" where
  "db_lines db kn = (case db of None \<Rightarrow> [] | Some s \<Rightarrow> if kn = [] then [] else split_lines s [])"

definition short_name :: "string \<Rightarrow> string" where
  "short_name kn = takeWhile (\<lambda>c. c \<noteq> CHR ''('') kn"

text \<open>\<open>std::getline(ls, field, '\\t')\<close>: fails when nothing is left.\<close>

definition tab_field :: "string \<Rightarrow> (string \<times> string) option" where
  "tab_field s = (if s = [] then None else Some (takeWhile (\<lambda>c. c \<noteq> tab) s, drop 1 (dropWhile (\<lambda>c. c \<noteq> tab) s)))"

definition residual_line :: "(string \<Rightarrow> rat) \<Rightarrow> string \<Rightarrow> string \<Rightarrow> rat \<Rightarrow> string \<Rightarrow> rat option \<Rightarrow> rat option" where
  "residual_line atof kn why prior line residual =
     (case tab_field line of None \<Rightarrow> residual | Some (key, ls) \<Rightarrow>
        (case tab_field ls of None \<Rightarrow> residual | Some (w, rest) \<Rightarrow>
          if key \<noteq> kn \<and> key \<noteq> short_name kn then residual
          else if w \<noteq> why then residual
          else let meas = atof (rev (takeWhile (\<lambda>c. c \<noteq> tab) (rev rest)))
               in if meas \<le> 0 then residual else Some (fl (meas - prior))))"

definition dbResidual :: "(string \<Rightarrow> rat) \<Rightarrow> string option \<Rightarrow> string \<Rightarrow> string \<Rightarrow> rat \<Rightarrow> rat option" where
  "dbResidual atof db kn why prior = fold (residual_line atof kn why prior) (db_lines db kn) None"

definition preferred_line :: "string \<Rightarrow> string \<Rightarrow> string \<Rightarrow> string" where
  "preferred_line kn line latest =
     (if tab \<notin> set line then latest
      else let key = takeWhile (\<lambda>c. c \<noteq> tab) line; rest = drop 1 (dropWhile (\<lambda>c. c \<noteq> tab) line)
           in if key \<noteq> kn \<and> key \<noteq> short_name kn then latest else takeWhile (\<lambda>c. c \<noteq> tab) rest)"

definition dbPreferredWhy :: "string option \<Rightarrow> string \<Rightarrow> string" where
  "dbPreferredWhy db kn = fold (preferred_line kn) (db_lines db kn) []"

subsection \<open>The choice\<close>

record chosen =
  ch_S :: schedule
  ch_cost :: cost
  ch_legality :: legal_result
  ch_emit :: emit_plan
  dbWhy :: string

text \<open>Both scores: predicted seconds, corrected by the residuals when both schedules have one.\<close>

definition scores :: "(string \<Rightarrow> rat) \<Rightarrow> string option \<Rightarrow> string \<Rightarrow> candidate \<Rightarrow> candidate \<Rightarrow> rat \<times> rat" where
  "scores atof db kn c b =
     (case (dbResidual atof db kn (s_why (c_S c)) (c_seconds c), dbResidual atof db kn (s_why (c_S b)) (c_seconds b)) of
        (Some rC, Some rB) \<Rightarrow> (fl (c_seconds c + rC), fl (c_seconds b + rB))
      | _ \<Rightarrow> (c_seconds c, c_seconds b))"

text \<open>One step of the loop over the candidates: \<open>best\<close> (\<open>None\<close> while \<open>have\<close> is false) with its
  legality, and \<open>dbHit\<close>.\<close>

definition choose_step :: "(string \<Rightarrow> rat) \<Rightarrow> string option \<Rightarrow> ('e, 'i) program \<Rightarrow> string \<Rightarrow> candidate
    \<Rightarrow> (candidate \<times> legal_result) option \<times> bool \<Rightarrow> (candidate \<times> legal_result) option \<times> bool" where
  "choose_step atof db P prefer c = (\<lambda>(best, dbHit).
     let L = check P (c_S c) in
     if \<not> r_ok L then (best, dbHit)
     else
       let thisDb = (prefer \<noteq> [] \<and> s_why (c_S c) = prefer);
           better = (case best of None \<Rightarrow> True
             | Some (b, _) \<Rightarrow>
                 if thisDb \<and> \<not> dbHit then True
                 else if thisDb = dbHit
                 then let (sC, sB) = scores atof db (kernel P) c b in sC < sB \<or> sC = sB \<and> s_why (c_S c) = ''source''
                 else False)
       in if better then (Some (c, L), thisDb) else (best, dbHit))"

definition choose_schedule :: "(candidate list \<Rightarrow> candidate list) \<Rightarrow> (string \<Rightarrow> rat) \<Rightarrow> string option \<Rightarrow> ('e, 'i) program
    \<Rightarrow> chosen option" where
  "choose_schedule srt atof db P =
     (case candidates srt P 3 8 of None \<Rightarrow> None
      | Some cands \<Rightarrow>
        let prefer = dbPreferredWhy db (kernel P);
            (best, dbHit) = fold (choose_step atof db P prefer) cands (None, False);
            (S, c, L) = (case best of Some (b, L) \<Rightarrow> (c_S b, c_cost b, L)
              | None \<Rightarrow> (sourceSchedule P, costOf P (sourceSchedule P), check P (sourceSchedule P)))
        in Some (\<lparr>ch_S = S, ch_cost = c, ch_legality = L, ch_emit = planEmit P S L,
             dbWhy = (if dbHit then prefer else [])\<rparr>))"

subsection \<open>Reports\<close>

text \<open>\<open>Cost::breakdown\<close>, the text \<open>costOf\<close> adds; \<open>num\<close> is how a stream prints a \<open>double\<close>.\<close>

definition breakdown :: "(rat \<Rightarrow> string) \<Rightarrow> cost \<Rightarrow> string" where
  "breakdown num c = ''bytes='' @ to_string (nat \<lfloor>deviceBytes c\<rfloor> mod 4294967296) @ '' smemKB='' @ num (smemKB c)
     @ '' occ='' @ num (occupancy c) @ '' tensorOps='' @ num (tensorOps c) @ '' alu='' @ num (alu c)
     @ '' barriers='' @ num (barriers c) @ '' est='' @ num (seconds c)"

text \<open>The names the loop of \<open>explain\<close> joins with commas: those of the output coordinates, where a
  coordinate without a flag counts as output, or those of the others.\<close>

definition coord_names_of :: "('e, 'i) program \<Rightarrow> bool \<Rightarrow> string list" where
  "coord_names_of P out_coord =
     map (\<lambda>j. coordNames P ! j) (filter (\<lambda>j. (length (coordOutput P) \<le> j \<or> coordOutput P ! j) = out_coord) [0..<length (coordNames P)])"

fun join :: "string \<Rightarrow> string list \<Rightarrow> string" where
  "join sep [] = []"
| "join sep [x] = x"
| "join sep (x # xs) = x @ sep @ join sep xs"

definition big_oplus :: string where "big_oplus = [CHR 0xE2, CHR 0x8A, CHR 0x95]"
definition empty_set_sign :: string where "empty_set_sign = [CHR 0xE2, CHR 0x88, CHR 0x85]"

definition equation :: "('e, 'i) program \<Rightarrow> string" where
  "equation P = ''  Y['' @ join '','' (coord_names_of P True) @ ''] = '' @ big_oplus @ ''_[''
     @ (if coord_names_of P False = [] then empty_set_sign else join '','' (coord_names_of P False))
     @ ''] F('' @ join '', '' (map t_name (filter t_read (tensors P))) @ '')''"

text \<open>\<open>std::to_string(double)\<close> prints six decimals.\<close>

definition pad6 :: "nat \<Rightarrow> string" where
  "pad6 n = replicate (6 - length (to_string n)) (CHR ''0'') @ to_string n"

definition to_string_double :: "rat \<Rightarrow> string" where
  "to_string_double x =
     (let n = nat (round_even (\<bar>x\<bar> * 1000000))
      in (if x < 0 then ''-'' else []) @ to_string (n div 1000000) @ ''.'' @ pad6 (n mod 1000000))"

definition explain :: "(rat \<Rightarrow> string) \<Rightarrow> ('e, 'i) program \<Rightarrow> chosen \<Rightarrow> string list" where
  "explain num P C =
     [''explain '' @ kernel P, equation P,
      ''  source schedule recovered; chosen why='' @ s_why (ch_S C),
      ''  cost '' @ breakdown num (ch_cost C),
      ''  '' @ first_failure (ch_legality C)]
     @ map (\<lambda>d. ''    discharged '' @ d) (discharged (ch_legality C))
     @ map (\<lambda>f. ''    '' @ obligation_str f) (failed (ch_legality C))
     @ [''  emit '' @ e_why (ch_emit C)]
     @ map (\<lambda>s. ''    '' @ s) (e_steps (ch_emit C))
     @ [''  precision '' @ precisionName Inherit @ '' (silent quantization is refused)'',
        ''  target '' @ tg_name metal4 @ '' smem='' @ to_string (unat (tg_smemBytes metal4))
          @ '' bw='' @ to_string (nat \<lfloor>bwGBps metal4\<rfloor>) @ ''GB/s peak='' @ to_string_double (tflops metal4) @ '' TFLOP/s'']"

text \<open>\<open>analyze\<close> appends to the lines it is given; \<open>sched\<close> and \<open>expl\<close> are the environment variables
  \<open>MVCC_SCHED\<close> and \<open>MVCC_EXPLAIN\<close>.\<close>

definition analyze :: "(candidate list \<Rightarrow> candidate list) \<Rightarrow> (string \<Rightarrow> rat) \<Rightarrow> (rat \<Rightarrow> string) \<Rightarrow> string option
    \<Rightarrow> string option \<Rightarrow> string option \<Rightarrow> ('e, 'i) program \<Rightarrow> string list \<Rightarrow> string list option" where
  "analyze srt atof num db sched expl P out =
     (if (case sched of None \<Rightarrow> True | Some en \<Rightarrow> prefix ''0'' en) then Some out
      else case choose_schedule srt atof db P of None \<Rightarrow> None
        | Some C \<Rightarrow> Some (out @ dump (ch_S C)
            @ [''  cost '' @ breakdown num (ch_cost C), ''  '' @ first_failure (ch_legality C)]
            @ (if (case expl of None \<Rightarrow> False | Some e \<Rightarrow> prefix ''1'' e) then explain num P C else [])
            @ (if r_ok (ch_legality C)
               then [''  check+emit: '' @ first_failure (ch_legality C) @ '' why='' @ s_why (ch_S C)] else [])))"

text \<open>The kind a \<open>.stir\<close> file names: the word after \<open>kind\<close>, or the first word that is a kind.\<close>

function stir_kind :: "string \<Rightarrow> string \<Rightarrow> string" where
  "stir_kind s k =
     (case read_token s of None \<Rightarrow> k
      | Some (tok, r) \<Rightarrow>
          if hd tok = CHR ''#'' then stir_kind (drop 1 (dropWhile (\<lambda>c. c \<noteq> newline) r)) k
          else if tok = ''kind'' then (case read_token r of None \<Rightarrow> k | Some (k', _) \<Rightarrow> k')
          else if tok \<in> {''elementwise'', ''silu'', ''gemm'', ''attention'', ''attn''} then tok
          else stir_kind r k)"
  by pat_completeness auto
termination
proof (relation "measure (length o fst)", goal_cases)
  case (2 s k p tok r)
  then have "length r < length s" using read_token_shorter by metis
  then show ?case using length_dropWhile_le [of "\<lambda>c. c \<noteq> newline" r] by simp
qed (auto dest: read_token_shorter)

declare stir_kind.simps [simp del]

definition stir_program :: "'e option \<Rightarrow> string \<Rightarrow> ('e, 'i) program option" where
  "stir_program junk k =
     (if k = ''elementwise'' \<or> k = ''silu'' then Some (elementwise junk (''direct_'' @ k))
      else if k = ''gemm'' then Some (gemm ''direct_gemm'')
      else if k = ''attention'' \<or> k = ''attn'' then Some (attention ''direct_attn'')
      else None)"

text \<open>What a command does: it returns a code having printed a text, or an exception of the parser
  escapes.\<close>

datatype command_result = Returns nat string | Escapes cpp_exception

definition print_lines :: "string list \<Rightarrow> string" where
  "print_lines ls = concat (map (\<lambda>l. l @ [newline]) ls)"

definition stirIn_report :: "(rat \<Rightarrow> string) \<Rightarrow> ('e, 'i) program \<Rightarrow> chosen \<Rightarrow> string \<Rightarrow> command_result" where
  "stirIn_report num P C head_line =
     Returns (if r_ok (ch_legality C) then 0 else 1)
       (print_lines ([head_line] @ explain num P C @ dump (ch_S C)
          @ [''  '' @ (if r_ok (ch_legality C) \<and> canEmit (ch_emit C) then ''check+emit client: ok''
                     else first_failure (ch_legality C))]))"

text \<open>\<open>content\<close> is the file \<open>kind\<close> names, \<open>sched\<close> the path of a schedule and the content of that
  file; with an unreadable schedule the code prints the message and returns 2.\<close>

definition stirIn :: "(candidate list \<Rightarrow> candidate list) \<Rightarrow> (string \<Rightarrow> rat) \<Rightarrow> (rat \<Rightarrow> string) \<Rightarrow> string option \<Rightarrow> 'e option
    \<Rightarrow> string \<Rightarrow> string option \<Rightarrow> string \<Rightarrow> string option \<Rightarrow> command_result option" where
  "stirIn srt atof num db junk kind content schedPath sched =
     (let k = (case content of None \<Rightarrow> kind | Some s \<Rightarrow> stir_kind s kind) in
      case (stir_program junk k :: ('e, unit) program option) of
        None \<Rightarrow> Some (Returns 2 (''mvcc stir-in: unknown kind '' @ [CHR 0x27] @ k @ [CHR 0x27]
            @ '' (elementwise|gemm|attention or a .stir file)'' @ [newline]))
      | Some P \<Rightarrow>
          if schedPath \<noteq> [] then
            (case sched of
               None \<Rightarrow> Some (Returns 2 (''mvcc stir-in: cannot read schedule '' @ schedPath @ [newline]))
             | Some s \<Rightarrow>
                (case parseText s of
                   Inl (Refuse err) \<Rightarrow> Some (Returns 2 (''mvcc stir-in: '' @ err @ [newline]))
                 | Inl (Throw e) \<Rightarrow> Some (Escapes e)
                 | Inr S \<Rightarrow>
                     let L = check P S;
                         C = \<lparr>ch_S = S, ch_cost = costOf P S, ch_legality = L, ch_emit = planEmit P S L, dbWhy = []\<rparr>
                     in Some (stirIn_report num P C (''stir-in '' @ k @ '' kernel='' @ kernel P @ '' sched-in='' @ schedPath
                          @ '' (no CUDA recovery)''))))
          else
            (case choose_schedule srt atof db P of
               None \<Rightarrow> None
             | Some C \<Rightarrow> Some (stirIn_report num P C (''stir-in '' @ k @ '' kernel='' @ kernel P @ '' (no CUDA recovery)''))))"

text \<open>The synthetic programs of the self-test and of \<open>schedDiff\<close>.\<close>

definition synthGEMM :: "('e, 'i) program" where
  "synthGEMM =
     program_init\<lparr>kernel := ''synthetic_gemm'',
       coordNames := [''c0'', ''c1'', ''c2''],
       coordOutput := [True, True, False],
       coordPhys := [''b0 + 2*b1 + 4*b2 + 8*b3 + 16*b4'', ''b5 + 2*b6 + 4*i1'', ''i0''],
       loops := [(loop_stmt_init Traversal)\<lparr>l_header := ''%k'', l_depth := 1, l_algebra := [(Sum, 32)],
          l_permits := \<lparr>p_partition = True, p_reorder = True, p_duplicate = False, p_treeCombine = True\<rparr>,
          l_anyData := True\<rparr>],
       tensors := [tensor_init\<lparr>t_name := ''arg0'', t_elemBytes := 2, t_read := True\<rparr>,
                   tensor_init\<lparr>t_name := ''arg1'', t_elemBytes := 2, t_read := True\<rparr>,
                   tensor_init\<lparr>t_name := ''arg2'', t_elemBytes := 2, t_written := True\<rparr>],
       accesses := [access_init\<lparr>ac_tensor := 0, ac_bytes := 16, ac_samples := 128, ac_index := [index_map_init]\<rparr>]\<rparr>"

definition synthElem :: "'e option \<Rightarrow> ('e, 'i) program" where
  "synthElem junk =
     program_init\<lparr>kernel := ''synthetic_silu'',
       coordNames := [''c0''],
       coordOutput := [True],
       coordPhys := [''b0 + 2*b1 + 4*b2 + 8*b3 + 16*b4 + 32*b5 + 64*b6 + 128*b7''],
       tensors := [tensor_init\<lparr>t_name := ''arg0'', t_elemBytes := 4, t_read := True\<rparr>,
                   tensor_init\<lparr>t_name := ''arg1'', t_elemBytes := 4, t_read := True\<rparr>,
                   tensor_init\<lparr>t_name := ''arg2'', t_elemBytes := 4, t_written := True\<rparr>],
       guards := [guard_init 40 junk]\<rparr>"

definition diff_load :: "string \<Rightarrow> string option \<Rightarrow> parse_error + schedule" where
  "diff_load path content =
     (case content of None \<Rightarrow> Inl (Refuse (''cannot read '' @ path)) | Some s \<Rightarrow> parseText s)"

text \<open>The report for two schedules that were read; \<open>lnum\<close> is how \<open>llvm::raw_ostream\<close> prints a
  \<open>double\<close>.\<close>

definition diff_report :: "(rat \<Rightarrow> string) \<Rightarrow> (rat \<Rightarrow> string) \<Rightarrow> ('e, 'i) program \<Rightarrow> schedule \<Rightarrow> schedule \<Rightarrow> string list" where
  "diff_report num lnum P A B =
     (let La = check P A; Lb = check P B; Ca = costOf P A; Cb = costOf P B
      in [''mvcc diff (synthetic_gemm)'',
          ''  a why='' @ s_why A @ '' cost '' @ breakdown num Ca @ '' '' @ first_failure La,
          ''  b why='' @ s_why B @ '' cost '' @ breakdown num Cb @ '' '' @ first_failure Lb]
         @ (if s_why A \<noteq> s_why B then [''  changed: why '' @ s_why A @ '' -> '' @ s_why B] else [])
         @ (if seconds Ca \<noteq> seconds Cb
            then [''  changed: predicted seconds '' @ lnum (seconds Ca) @ '' -> '' @ lnum (seconds Cb)] else [])
         @ [''  '' @ (if r_ok La \<and> r_ok Lb then ''both legal'' else ''at least one illegal'')])"

definition schedDiff :: "(rat \<Rightarrow> string) \<Rightarrow> (rat \<Rightarrow> string) \<Rightarrow> string \<Rightarrow> string option \<Rightarrow> string \<Rightarrow> string option
    \<Rightarrow> command_result" where
  "schedDiff num lnum pathA contentA pathB contentB =
     (case diff_load pathA contentA of
        Inl (Throw e) \<Rightarrow> Escapes e
      | Inl (Refuse err) \<Rightarrow> Returns 2 (''mvcc diff: '' @ err @ [newline])
      | Inr A \<Rightarrow>
        (case diff_load pathB contentB of
           Inl (Throw e) \<Rightarrow> Escapes e
         | Inl (Refuse err) \<Rightarrow> Returns 2 (''mvcc diff: '' @ err @ [newline])
         | Inr B \<Rightarrow> Returns 0 (print_lines (diff_report num lnum (synthGEMM :: (unit, unit) program) A B))))"

subsection \<open>What is chosen\<close>

definition legal_cand :: "('e, 'i) program \<Rightarrow> candidate \<Rightarrow> bool" where
  "legal_cand P c \<longleftrightarrow> r_ok (check P (c_S c))"

definition named :: "string \<Rightarrow> candidate \<Rightarrow> bool" where
  "named prefer c \<longleftrightarrow> prefer \<noteq> [] \<and> s_why (c_S c) = prefer"

text \<open>What the loop knows after the candidates \<open>X\<close>.\<close>

definition choice_inv :: "('e, 'i) program \<Rightarrow> string \<Rightarrow> candidate set \<Rightarrow> (candidate \<times> legal_result) option \<times> bool \<Rightarrow> bool" where
  "choice_inv P prefer X st \<longleftrightarrow>
     (case fst st of
        None \<Rightarrow> (\<forall>c \<in> X. \<not> legal_cand P c) \<and> \<not> snd st
      | Some (b, L) \<Rightarrow> b \<in> X \<and> legal_cand P b \<and> L = check P (c_S b) \<and> snd st = named prefer b \<and>
          ((\<exists>c \<in> X. legal_cand P c \<and> named prefer c) \<longrightarrow> snd st))"

lemma choice_step:
  "choice_inv P prefer X st \<Longrightarrow> choice_inv P prefer (insert c X) (choose_step atof db P prefer c st)"
  by (cases st) (auto simp: choice_inv_def choose_step_def legal_cand_def named_def Let_def split: option.splits prod.splits)

lemma choice_fold:
  "choice_inv P prefer X st \<Longrightarrow> choice_inv P prefer (set cs \<union> X) (fold (choose_step atof db P prefer) cs st)"
  by (erule fold_grow) (rule choice_step)

text \<open>Without a data base, the scores are the predicted seconds.\<close>

definition cheapest_inv :: "('e, 'i) program \<Rightarrow> candidate set \<Rightarrow> (candidate \<times> legal_result) option \<times> bool \<Rightarrow> bool" where
  "cheapest_inv P X st \<longleftrightarrow> \<not> snd st \<and>
     (\<forall>c \<in> X. legal_cand P c \<longrightarrow> (\<exists>b L. fst st = Some (b, L) \<and> c_seconds b \<le> c_seconds c \<and>
        (c_seconds b = c_seconds c \<and> s_why (c_S c) = ''source'' \<longrightarrow> s_why (c_S b) = ''source'')))"

lemma no_db [simp]: "dbPreferredWhy None kn = []" "scores atof None kn c b = (c_seconds c, c_seconds b)"
  by (simp_all add: dbPreferredWhy_def scores_def dbResidual_def db_lines_def)

lemma cheapest_step:
  "cheapest_inv P X st \<Longrightarrow> cheapest_inv P (insert c X) (choose_step atof None P [] c st)"
  by (cases st) (force simp: cheapest_inv_def choose_step_def legal_cand_def Let_def split: option.splits prod.splits if_splits)

lemma cheapest_fold:
  "cheapest_inv P X st \<Longrightarrow> cheapest_inv P (set cs \<union> X) (fold (choose_step atof None P []) cs st)"
  by (erule fold_grow) (rule cheapest_step)

lemma choose_cases:
  assumes "std_sort c_seconds srt"
  obtains cs where "candidates srt P 3 8 = Some cs"
    "\<And>c. c \<in> set cs \<Longrightarrow> wf_ok (wellFormed P (c_S c)) \<and> reached P 3 (c_S c) \<and> c_cost c = costOf P (c_S c)"
proof -
  obtain cs where cs: "candidates srt P 3 8 = Some cs" using candidates_total [of 8 srt P 3] by auto
  show thesis
  proof (rule that [OF cs])
    fix c
    assume "c \<in> set cs"
    note e = entries_props(2) [OF candidates_entries [OF assms cs this]]
    then show "wf_ok (wellFormed P (c_S c)) \<and> reached P 3 (c_S c) \<and> c_cost c = costOf P (c_S c)"
      by (metis cand_def candidate.select_convs(2))
  qed
qed

lemma source_legal_cand:
  assumes "std_sort c_seconds srt" and "candidates srt P 3 8 = Some cs" and "r_ok (check P (sourceSchedule P))"
  shows "\<exists>c \<in> set cs. c_S c = sourceSchedule P"
proof -
  have "wf_ok (wellFormed P (sourceSchedule P))"
    using assms(3) check_not_ok wellFormed_ok_iff by blast
  from candidates_source [OF assms(1,2) this] show ?thesis
    by (rule bexI [rotated]) (simp add: cand_def)
qed

lemma choose_schedule_result:
  assumes "std_sort c_seconds srt"
  shows "\<exists>C cs. choose_schedule srt atof db P = Some C \<and> candidates srt P 3 8 = Some cs \<and>
    ch_cost C = costOf P (ch_S C) \<and> ch_legality C = check P (ch_S C) \<and>
    ch_emit C = planEmit P (ch_S C) (ch_legality C) \<and>
    (if \<exists>c \<in> set cs. r_ok (check P (c_S c)) then ch_S C \<in> c_S ` set cs \<and> r_ok (ch_legality C) \<and> canEmit (ch_emit C)
     else ch_S C = sourceSchedule P \<and> \<not> r_ok (ch_legality C) \<and> \<not> canEmit (ch_emit C))"
proof -
  obtain cs where cs: "candidates srt P 3 8 = Some cs"
    and cost: "\<And>c. c \<in> set cs \<Longrightarrow> wf_ok (wellFormed P (c_S c)) \<and> reached P 3 (c_S c) \<and> c_cost c = costOf P (c_S c)"
    using choose_cases [OF assms] by blast
  let ?prefer = "dbPreferredWhy db (kernel P)"
  obtain best dbHit where run: "fold (choose_step atof db P ?prefer) cs (None, False) = (best, dbHit)" by fastforce
  have "choice_inv P ?prefer {} (None, False)" by (simp add: choice_inv_def)
  from choice_fold [OF this, of cs atof db] have inv: "choice_inv P ?prefer (set cs) (best, dbHit)" by (simp add: run)
  show ?thesis
  proof (cases best)
    case None
    with inv have none: "\<forall>c \<in> set cs. \<not> r_ok (check P (c_S c))" by (auto simp: choice_inv_def legal_cand_def)
    with source_legal_cand [OF assms cs] have "\<not> r_ok (check P (sourceSchedule P))" by metis
    with none None show ?thesis by (simp add: choose_schedule_def cs run planEmit_def)
  next
    case (Some p)
    then obtain b L where b: "best = Some (b, L)" by (cases p) simp
    with inv have "b \<in> set cs" "r_ok (check P (c_S b))" "L = check P (c_S b)"
      by (auto simp: choice_inv_def legal_cand_def)
    with b cost show ?thesis by (auto simp: choose_schedule_def cs run planEmit_def)
  qed
qed

lemma choose_schedule_some:
  assumes "std_sort c_seconds srt" and "candidates srt P 3 8 = Some cs" and "\<exists>c \<in> set cs. r_ok (check P (c_S c))"
  shows "\<exists>C. choose_schedule srt atof db P = Some C \<and> r_ok (ch_legality C)"
proof -
  obtain C cs' where C: "choose_schedule srt atof db P = Some C" "candidates srt P 3 8 = Some cs'"
    and l: "if \<exists>c \<in> set cs'. r_ok (check P (c_S c)) then ch_S C \<in> c_S ` set cs' \<and> r_ok (ch_legality C) \<and> canEmit (ch_emit C)
     else ch_S C = sourceSchedule P \<and> \<not> r_ok (ch_legality C) \<and> \<not> canEmit (ch_emit C)"
    using choose_schedule_result [OF assms(1), of atof db P] by blast
  from C(2) assms(2) have "cs' = cs" by simp
  with l assms(3) have "r_ok (ch_legality C)" by (simp only: if_True)
  with C show ?thesis by blast
qed

text \<open>C10: the engine always chooses; what it reports of the chosen schedule is that schedule's cost,
  legality and plan; it is legal exactly when some candidate is, and then a candidate itself.\<close>

theorem choose_schedule_legal:
  assumes "std_sort c_seconds srt"
  shows "\<exists>C cs. choose_schedule srt atof db P = Some C \<and> candidates srt P 3 8 = Some cs \<and>
    ch_cost C = costOf P (ch_S C) \<and> ch_legality C = check P (ch_S C) \<and>
    ch_emit C = planEmit P (ch_S C) (ch_legality C) \<and>
    (if \<exists>c \<in> set cs. r_ok (check P (c_S c)) then ch_S C \<in> c_S ` set cs \<and> r_ok (ch_legality C) \<and> canEmit (ch_emit C)
     else ch_S C = sourceSchedule P \<and> \<not> r_ok (ch_legality C) \<and> \<not> canEmit (ch_emit C))"
  by (rule choose_schedule_result [OF assms])

text \<open>A program for the witnesses.\<close>

definition demo_gemm :: "(nat, nat) program" where
  "demo_gemm = gemm ''g''"

lemma gemm_source_legal: "r_ok (check demo_gemm (sourceSchedule demo_gemm))"
  by code_simp

theorem choose_schedule_legal_witness:
  "\<exists>C. choose_schedule (sort_key c_seconds) (\<lambda>_. 1) None demo_gemm = Some C \<and>
     ch_legality C = check demo_gemm (ch_S C)"
  using choose_schedule_legal [OF by_seconds, of "\<lambda>_. 1" None demo_gemm]
  by (elim exE conjE) (intro exI conjI)

text \<open>C20: without a data base no legal candidate is predicted to be faster than the choice, and the
  source schedule wins every tie.\<close>

theorem choose_schedule_cheapest:
  assumes "std_sort c_seconds srt" and "choose_schedule srt atof None P = Some C" and "r_ok (ch_legality C)"
    and "candidates srt P 3 8 = Some cs" and "c \<in> set cs" and "r_ok (check P (c_S c))"
  shows "seconds (ch_cost C) \<le> c_seconds c \<and>
    (seconds (ch_cost C) = c_seconds c \<and> c_S c = sourceSchedule P \<longrightarrow> ch_S C = sourceSchedule P)"
proof -
  obtain best dbHit where run: "fold (choose_step atof None P []) cs (None, False) = (best, dbHit)" by fastforce
  have "cheapest_inv P {} (None, False)" by (simp add: cheapest_inv_def)
  from cheapest_fold [OF this, of cs atof] have inv: "cheapest_inv P (set cs) (best, dbHit)" by (simp add: run)
  then obtain b L where b: "best = Some (b, L)" "c_seconds b \<le> c_seconds c"
    "c_seconds b = c_seconds c \<and> s_why (c_S c) = ''source'' \<longrightarrow> s_why (c_S b) = ''source''"
    using assms(5,6) unfolding cheapest_inv_def legal_cand_def fst_conv by blast
  have C: "ch_S C = c_S b" "ch_cost C = c_cost b"
    using assms(2) by (auto simp: choose_schedule_def assms(4) run b(1))
  have "choice_inv P [] {} (None, False)" by (simp add: choice_inv_def)
  from choice_fold [OF this, of cs atof None] have "b \<in> set cs" by (simp add: run b(1) choice_inv_def)
  then have "reached P 3 (c_S b)" using choose_cases [OF assms(1), of P] assms(4) by (metis option.inject)
  then have "s_why (c_S b) = ''source'' \<longleftrightarrow> c_S b = sourceSchedule P" by (rule reached_source_why)
  with b(2,3) C source_why [of P] show ?thesis by metis
qed

lemma gemm_source_cand:
  obtains cs c where "candidates (sort_key c_seconds) demo_gemm 3 8 = Some cs"
    "c \<in> set cs" "c_S c = sourceSchedule demo_gemm"
proof -
  obtain cs where cs: "candidates (sort_key c_seconds) demo_gemm 3 8 = Some cs"
    using choose_cases [OF by_seconds] by blast
  obtain c where "c \<in> set cs" "c_S c = sourceSchedule demo_gemm"
    using source_legal_cand [OF by_seconds cs gemm_source_legal] by (rule bexE)
  from that [OF cs this] show thesis .
qed

theorem choose_schedule_cheapest_witness:
  "\<exists>C c. choose_schedule (sort_key c_seconds) (\<lambda>_. 1) None demo_gemm = Some C \<and>
     c_S c = sourceSchedule demo_gemm \<and> seconds (ch_cost C) \<le> c_seconds c"
proof -
  obtain cs c where cs: "candidates (sort_key c_seconds) demo_gemm 3 8 = Some cs"
    and c: "c \<in> set cs" "c_S c = sourceSchedule demo_gemm"
    by (rule gemm_source_cand)
  have legal: "\<exists>c \<in> set cs. r_ok (check demo_gemm (c_S c))"
    using c gemm_source_legal by (intro bexI [OF _ c(1)]) simp
  obtain C where C: "choose_schedule (sort_key c_seconds) (\<lambda>_. 1) None demo_gemm = Some C" "r_ok (ch_legality C)"
    using choose_schedule_some [OF by_seconds cs legal] by blast
  from choose_schedule_cheapest [OF by_seconds C cs c(1)] c(2) C gemm_source_legal show ?thesis by auto
qed

text \<open>When the data base names a schedule for the kernel, the winner of its last line, and a legal
  candidate has that provenance, such a candidate is chosen whatever the cost model says, and the
  choice records it.\<close>

lemma choose_schedule_measured:
  assumes "std_sort c_seconds srt" and "choose_schedule srt atof db P = Some C"
    and "candidates srt P 3 8 = Some cs" and "c \<in> set cs" and "r_ok (check P (c_S c))"
    and "s_why (c_S c) = dbPreferredWhy db (kernel P)" and "dbPreferredWhy db (kernel P) \<noteq> []"
  shows "s_why (ch_S C) = dbPreferredWhy db (kernel P) \<and> dbWhy C = dbPreferredWhy db (kernel P) \<and> r_ok (ch_legality C)"
proof -
  let ?prefer = "dbPreferredWhy db (kernel P)"
  obtain best dbHit where run: "fold (choose_step atof db P ?prefer) cs (None, False) = (best, dbHit)" by fastforce
  have "choice_inv P ?prefer {} (None, False)" by (simp add: choice_inv_def)
  from choice_fold [OF this, of cs atof db] have inv: "choice_inv P ?prefer (set cs) (best, dbHit)" by (simp add: run)
  have c: "legal_cand P c" "named ?prefer c" using assms(5-7) by (simp_all add: legal_cand_def named_def)
  with inv assms(4) obtain b where b: "best = Some (b, check P (c_S b))" "legal_cand P b" "dbHit" "named ?prefer b"
    by (fastforce simp: choice_inv_def split: option.splits)
  then have "C = \<lparr>ch_S = c_S b, ch_cost = c_cost b, ch_legality = check P (c_S b),
      ch_emit = planEmit P (c_S b) (check P (c_S b)), dbWhy = ?prefer\<rparr>"
    using assms(2) by (simp add: choose_schedule_def assms(3) run)
  with b show ?thesis by (simp add: named_def legal_cand_def)
qed

theorem choose_schedule_measured_witness:
  "\<exists>C. choose_schedule (sort_key c_seconds) (\<lambda>_. 1) (Some (''g'' @ [tab] @ ''source'')) demo_gemm = Some C \<and>
     s_why (ch_S C) = ''source'' \<and> dbWhy C = ''source''"
proof -
  let ?db = "Some (''g'' @ [tab] @ ''source'')" and ?P = demo_gemm
  obtain cs c where cs: "candidates (sort_key c_seconds) ?P 3 8 = Some cs"
    and c: "c \<in> set cs" "c_S c = sourceSchedule ?P"
    by (rule gemm_source_cand)
  have why: "dbPreferredWhy ?db (kernel ?P) = ''source''" by code_simp
  obtain C where C: "choose_schedule (sort_key c_seconds) (\<lambda>_. 1) ?db ?P = Some C"
    using choose_schedule_result [OF by_seconds] by blast
  have "r_ok (check ?P (c_S c))" "s_why (c_S c) = dbPreferredWhy ?db (kernel ?P)" "dbPreferredWhy ?db (kernel ?P) \<noteq> []"
    using c(2) gemm_source_legal source_why [of ?P] why by simp_all
  from choose_schedule_measured [OF by_seconds C cs c(1) this] C why show ?thesis by simp
qed

end
