(* ===== verification/Sym_Poly.thy ===== *)
theory Sym_Poly
  imports Prelude "HOL-Library.List_Lexorder" "HOL-Library.Multiset"
begin

text \<open>
  The polynomials of the symbolic executor (\<open>Arena::mkPoly\<close>, \<open>add\<close>, \<open>neg\<close>, \<open>sub\<close> and \<open>mul\<close> of
  \<open>cpp/mvcc-llvm/symexec.cpp\<close>): lists of monomials with coefficients. A monomial is the sorted list of
  its atoms' numbers, the empty one is the constant term. Coefficients are \<open>int64_t\<close> whose overflow
  the language leaves undefined; the model computes with integers, which is what the code computes
  wherever it computes anything.

  The lemmas show that the operations are the ring operations on the values, and that the canonical
  form is unique: two polynomials are the same node exactly when every monomial has the same
  coefficient in both, so that the ring laws hold as equalities of nodes.
\<close>

type_synonym mono = "nat list"
type_synonym terms = "(mono \<times> int) list"

subsection \<open>The operations\<close>

text \<open>The loop that looks whether the terms are already sorted, distinct and non-zero.\<close>

fun canonical :: "terms \<Rightarrow> bool" where
  "canonical [] = True"
| "canonical [t] = (snd t \<noteq> 0)"
| "canonical (t # u # ts) = (snd t \<noteq> 0 \<and> fst t < fst u \<and> canonical (u # ts))"

text \<open>The loop that adds up neighbours with the same monomial.\<close>

fun merge_terms :: "terms \<Rightarrow> terms" where
  "merge_terms (t # u # ts) =
     (if fst t = fst u then merge_terms ((fst t, snd t + snd u) # ts) else t # merge_terms (u # ts))"
| "merge_terms ts = ts"

text \<open>\<open>std::sort\<close> is not stable, but terms it may exchange have the same monomial and are added up.\<close>

definition mk_terms :: "terms \<Rightarrow> terms" where
  "mk_terms ts =
     (if canonical ts then ts
      else filter (\<lambda>t. snd t \<noteq> 0) (merge_terms (sort_key fst ts)))"

definition add_terms :: "terms \<Rightarrow> terms \<Rightarrow> terms" where
  "add_terms a b = mk_terms (a @ b)"

definition neg_terms :: "terms \<Rightarrow> terms" where
  "neg_terms a = mk_terms (map (\<lambda>t. (fst t, - snd t)) a)"

definition sub_terms :: "terms \<Rightarrow> terms \<Rightarrow> terms" where
  "sub_terms a b = add_terms a (neg_terms b)"

definition mul_terms :: "terms \<Rightarrow> terms \<Rightarrow> terms" where
  "mul_terms a b =
     mk_terms (concat (map (\<lambda>x. map (\<lambda>y. (sort (fst x @ fst y), snd x * snd y)) b) a))"

text \<open>The polynomial without its constant term, and that term.\<close>

definition split_const :: "terms \<Rightarrow> terms \<times> int" where
  "split_const ts = (filter (\<lambda>t. fst t \<noteq> []) ts, fold (\<lambda>t c. if fst t = [] then snd t else c) ts 0)"

subsection \<open>Values and coefficients\<close>

definition lin :: "(mono \<Rightarrow> int) \<Rightarrow> terms \<Rightarrow> int" where
  "lin g ts = (\<Sum>t \<leftarrow> ts. snd t * g (fst t))"

definition mval :: "(nat \<Rightarrow> int) \<Rightarrow> mono \<Rightarrow> int" where
  "mval V m = prod_list (map V m)"

definition pval :: "(nat \<Rightarrow> int) \<Rightarrow> terms \<Rightarrow> int" where
  "pval V ts = lin (mval V) ts"

definition coef :: "terms \<Rightarrow> mono \<Rightarrow> int" where
  "coef ts m = lin (\<lambda>n. if n = m then 1 else 0) ts"

lemma lin_simps [simp]:
  "lin g [] = 0" "lin g (t # ts) = snd t * g (fst t) + lin g ts" "lin g (ts @ us) = lin g ts + lin g us"
  by (simp_all add: lin_def)

lemma sum_list_mset: "mset xs = mset ys \<Longrightarrow> sum_list (map f xs) = (sum_list (map f ys) :: int)"
  by (metis mset_map sum_mset_sum_list)

lemma lin_mset: "mset ts = mset us \<Longrightarrow> lin g ts = lin g us"
  unfolding lin_def by (rule sum_list_mset)

lemma lin_merge: "lin g (merge_terms ts) = lin g ts"
  by (induction ts rule: merge_terms.induct) (auto simp: algebra_simps)

lemma lin_nonzero: "lin g (filter (\<lambda>t. snd t \<noteq> 0) ts) = lin g ts"
  by (induction ts) auto

lemma lin_mk [simp]: "lin g (mk_terms ts) = lin g ts"
  using lin_mset [of "sort_key fst ts" ts] by (simp add: mk_terms_def lin_nonzero lin_merge)

lemma lin_neg_map [simp]: "lin g (map (\<lambda>t. (fst t, - snd t)) ts) = - lin g ts"
  by (induction ts) auto

lemma lin_ops [simp]:
  "lin g (add_terms a b) = lin g a + lin g b"
  "lin g (neg_terms a) = - lin g a"
  "lin g (sub_terms a b) = lin g a - lin g b"
  by (simp_all add: add_terms_def neg_terms_def sub_terms_def)

lemma lin_sum [simp]: "lin (\<lambda>m. g m + h m) ts = lin g ts + lin h ts"
  by (induction ts) (auto simp: algebra_simps)

lemma lin_scale [simp]: "lin (\<lambda>m. c * g m) ts = c * lin g ts"
  by (induction ts) (auto simp: algebra_simps)

lemma lin_zero [simp]: "lin (\<lambda>m. 0) ts = 0"
  by (induction ts) auto

lemma lin_swap: "lin (\<lambda>m. lin (\<lambda>n. g m n) b) a = lin (\<lambda>n. lin (\<lambda>m. g m n) a) b"
  by (induction a) auto

lemma lin_mul: "lin g (mul_terms a b) = lin (\<lambda>m. lin (\<lambda>n. g (sort (m @ n))) b) a"
proof -
  have row: "lin g (map (\<lambda>y. (sort (fst x @ fst y), snd x * snd y)) b) = snd x * lin (\<lambda>n. g (sort (fst x @ n))) b"
    for x :: "mono \<times> int"
    by (induction b) (auto simp: algebra_simps)
  have "lin g (concat (map (\<lambda>x. map (\<lambda>y. (sort (fst x @ fst y), snd x * snd y)) b) a))
      = lin (\<lambda>m. lin (\<lambda>n. g (sort (m @ n))) b) a"
    by (induction a) (simp_all add: row)
  then show ?thesis by (simp add: mul_terms_def)
qed

lemma mval_simps [simp]: "mval V [] = 1" "mval V (m @ n) = mval V m * mval V n"
  by (simp_all add: mval_def)

lemma mval_sort [simp]: "mval V (sort m) = mval V m"
  unfolding mval_def by (metis mset_map mset_sort prod_mset_prod_list)

lemma lin_mval_mul: "lin (\<lambda>m. g m * c) a = lin g a * c"
  by (induction a) (auto simp: algebra_simps)

lemma pval_simps [simp]:
  "pval V [] = 0" "pval V (t # ts) = snd t * mval V (fst t) + pval V ts"
  "pval V (ts @ us) = pval V ts + pval V us"
  "pval V (mk_terms ts) = pval V ts"
  by (simp_all add: pval_def)

lemma coef_simps [simp]: "coef [] m = 0"
  "coef (t # ts) m = (if fst t = m then snd t else 0) + coef ts m"
  "coef (mk_terms ts) = coef ts"
  by (simp_all add: coef_def fun_eq_iff)

lemma pval_ops [simp]:
  "pval V (add_terms a b) = pval V a + pval V b" "pval V (neg_terms a) = - pval V a"
  "pval V (sub_terms a b) = pval V a - pval V b" "pval V (mul_terms a b) = pval V a * pval V b"
  by (simp_all add: pval_def lin_mul lin_mval_mul)

text \<open>The operations on polynomials are the ring operations on their values.\<close>

lemma poly_values:
  "pval V (add_terms a b) = pval V a + pval V b \<and> pval V (neg_terms a) = - pval V a \<and>
   pval V (sub_terms a b) = pval V a - pval V b \<and> pval V (mul_terms a b) = pval V a * pval V b"
  by simp

subsection \<open>The canonical form\<close>

lemma canonical_Cons:
  "canonical (t # ts) \<longleftrightarrow> snd t \<noteq> 0 \<and> canonical ts \<and> (\<forall>u \<in> set ts. fst t < fst u)"
proof (induction ts arbitrary: t)
  case (Cons u ts)
  have "fst t < fst v" if "fst t < fst u" "canonical (u # ts)" "v \<in> set ts" for v
    using that Cons [of u] by (meson less_trans)
  then show ?case by auto
qed simp

lemma canonical_coef_less: "canonical ts \<Longrightarrow> \<forall>u \<in> set ts. m < fst u \<Longrightarrow> coef ts m = 0"
  by (induction ts) (auto simp: canonical_Cons)

lemma canonical_mem: "canonical ts \<Longrightarrow> (m, c) \<in> set ts \<longleftrightarrow> c \<noteq> 0 \<and> coef ts m = c"
proof (induction ts)
  case (Cons t ts)
  then have ih: "(m, c) \<in> set ts \<longleftrightarrow> c \<noteq> 0 \<and> coef ts m = c" and c: "canonical ts" "\<forall>u \<in> set ts. fst t < fst u" "snd t \<noteq> 0"
    by (simp_all add: canonical_Cons)
  show ?case
  proof (cases "fst t = m")
    case True
    then have "coef ts m = 0" using canonical_coef_less c by blast
    then show ?thesis using True ih c(3) by (cases t) auto
  next
    case False
    then show ?thesis using ih by (cases t) auto
  qed
qed simp

lemma canonical_sorted: "canonical ts \<Longrightarrow> sorted (map fst ts) \<and> distinct (map fst ts)"
  by (induction ts) (auto simp: canonical_Cons intro: less_imp_le)

lemma canonical_unique:
  assumes "canonical ts" "canonical us" "coef ts = coef us"
  shows "ts = us"
proof -
  have set: "set ts = set us" using assms canonical_mem by (metis subset_antisym subrelI)
  note s = canonical_sorted [OF assms(1)] canonical_sorted [OF assms(2)]
  then have fst: "map fst ts = map fst us"
    using set by (intro sorted_distinct_set_unique) (auto simp: set_map)
  show ?thesis
  proof (rule nth_equalityI)
    show len: "length ts = length us" using fst by (metis length_map)
    fix i
    assume i: "i < length ts"
    have "ts ! i \<in> set us" using i set by (metis nth_mem)
    moreover have "us ! i \<in> set us" using i len by simp
    moreover have "fst (ts ! i) = fst (us ! i)" using fst i len by (metis nth_map)
    ultimately show "ts ! i = us ! i" using s(2) by (meson conjunct2 distinct_map inj_on_def)
  qed
qed

lemma merge_sorted:
  "sorted (map fst ts) \<Longrightarrow> sorted_wrt (\<lambda>t u. fst t < fst u) (merge_terms ts) \<and> fst ` set (merge_terms ts) = fst ` set ts"
proof (induction ts rule: merge_terms.induct)
  case (1 t u ts)
  show ?case
  proof (cases "fst t = fst u")
    case True
    then show ?thesis using 1 by (auto simp: insert_commute)
  next
    case False
    with 1 have ih: "sorted_wrt (\<lambda>t u. fst t < fst u) (merge_terms (u # ts))" "fst ` set (merge_terms (u # ts)) = fst ` set (u # ts)"
      by auto
    have "fst t < x" if "x \<in> fst ` set (u # ts)" for x
      using that 1(3) False by (auto simp: less_le intro: order_trans)
    with ih have "\<forall>x \<in> set (merge_terms (u # ts)). fst t < fst x" by blast
    with ih False show ?thesis by simp
  qed
qed auto

lemma canonical_sorted_wrt: "canonical ts \<longleftrightarrow> sorted_wrt (\<lambda>t u. fst t < fst u) ts \<and> (\<forall>t \<in> set ts. snd t \<noteq> 0)"
  by (induction ts) (auto simp: canonical_Cons)

lemma canonical_mk [simp]: "canonical (mk_terms ts)"
proof (cases "canonical ts")
  case False
  have "sorted_wrt (\<lambda>t u. fst t < fst u) (merge_terms (sort_key fst ts))"
    using merge_sorted [of "sort_key fst ts"] by simp
  with False show ?thesis by (auto simp: mk_terms_def canonical_sorted_wrt intro: sorted_wrt_filter)
qed (simp add: mk_terms_def)

text \<open>Two polynomials are the same node exactly when every monomial has the same coefficient.\<close>

lemma mk_terms_eq_iff: "mk_terms ts = mk_terms us \<longleftrightarrow> coef ts = coef us"
  using canonical_unique [of "mk_terms ts" "mk_terms us"] by (metis canonical_mk coef_simps(3))

lemma node_eqI: "(\<And>g. lin g ts = lin g us) \<Longrightarrow> mk_terms ts = mk_terms us"
  by (rule canonical_unique) (simp_all add: coef_def fun_eq_iff)

lemma mk_canonical: "canonical ts \<Longrightarrow> mk_terms ts = ts"
  by (simp add: mk_terms_def)

lemma canonical_ops [simp]:
  "canonical (add_terms a b)" "canonical (neg_terms a)" "canonical (sub_terms a b)" "canonical (mul_terms a b)"
  by (simp_all add: add_terms_def neg_terms_def sub_terms_def mul_terms_def)

lemma canonical_eqI: "canonical ts \<Longrightarrow> canonical us \<Longrightarrow> (\<And>g. lin g ts = lin g us) \<Longrightarrow> ts = us"
  using node_eqI mk_canonical by metis

lemma sort_assoc: "sort (sort (m @ n) @ k) = sort (m @ sort (n @ (k :: mono)))"
  by (rule properties_for_sort) simp_all

lemma sort_comm: "sort (m @ n) = sort (n @ (m :: mono))"
  by (rule properties_for_sort) simp_all

text \<open>The ring laws hold as equalities of nodes: sums and products of the same operands in any order
  and grouping are one node, products distribute over sums, and a difference of equal operands is the
  empty polynomial.\<close>

lemma poly_ring:
  "add_terms a b = add_terms b a \<and> add_terms (add_terms a b) c = add_terms a (add_terms b c) \<and>
   mul_terms a b = mul_terms b a \<and> mul_terms (mul_terms a b) c = mul_terms a (mul_terms b c) \<and>
   mul_terms a (add_terms b c) = add_terms (mul_terms a b) (mul_terms a c) \<and> sub_terms a a = []"
proof (intro conjI)
  show "mul_terms a b = mul_terms b a"
  proof (rule canonical_eqI)
    fix g
    have "lin g (mul_terms a b) = lin (\<lambda>n. lin (\<lambda>m. g (sort (m @ n))) a) b" by (simp only: lin_mul lin_swap [of _ b])
    then show "lin g (mul_terms a b) = lin g (mul_terms b a)" by (simp only: lin_mul sort_comm)
  qed simp_all
  show "mul_terms (mul_terms a b) c = mul_terms a (mul_terms b c)"
    by (rule canonical_eqI) (simp_all add: lin_mul sort_assoc)
  show "mul_terms a (add_terms b c) = add_terms (mul_terms a b) (mul_terms a c)"
    by (rule canonical_eqI) (simp_all add: lin_mul)
qed (rule canonical_eqI; simp)+

end
