(* ===== verification/Sym_Arena.thy ===== *)
theory Sym_Arena
  imports Sym_Poly "HOL-Library.Signed_Division" "HOL-Library.Sublist"
begin

unbundle bit_operations_syntax

text \<open>
  The expressions of the symbolic executor and the part of its arena that works on integers
  (\<open>cpp/mvcc-llvm/symexec.h\<close>, \<open>symexec.cpp\<close>): constants and polynomials, the table of atoms,
  \<open>binop\<close>, the integer casts and the normal form of comparisons. Hash consing makes two pointers equal
  exactly when the nodes are, so an expression is a value and \<open>==\<close> on pointers is equality; what is
  left of the arena is the table of atoms, which the operations return updated.

  The lemmas show that the constructors keep the value of an expression, modulo the width of its type,
  and that the normal form of a comparison has the same truth value; and two places where they do not.
\<close>

subsection \<open>Expressions\<close>

datatype sty = IntT nat | PtrT | FpT nat | OtherT nat

datatype opcode = OpAdd | OpSub | OpMul | OpAnd | OpOr | OpXor | OpShl | OpLShr | OpAShr
  | OpUDiv | OpSDiv | OpURem | OpSRem | OpTrunc | OpZExt | OpSExt | OpPtrToInt | OpIntToPtr
  | OpAddrSpaceCast | OpBitCast | OpOther nat

datatype pred = EQ | NE | UGT | UGE | ULT | ULE | SGT | SGE | SLT | SLE | FCmp nat

datatype callee = Fn string | Asm nat

datatype expr =
    EConst sty int
  | EPoly sty terms
  | ESym sty nat
  | EOp sty opcode "expr list"
  | ECmp pred expr expr
  | EIte sty expr expr expr
  | ELoad sty expr expr nat
  | EConcat sty "expr list"
  | EBytes sty expr nat nat
  | ECall sty callee "expr list"
  | EUndef sty

fun type_of :: "expr \<Rightarrow> sty" where
  "type_of (EConst t b) = t"
| "type_of (EPoly t ts) = t"
| "type_of (ESym t s) = t"
| "type_of (EOp t op es) = t"
| "type_of (ECmp p a b) = IntT 1"
| "type_of (EIte t c a b) = t"
| "type_of (ELoad t a g al) = t"
| "type_of (EConcat t es) = t"
| "type_of (EBytes t x lo len) = t"
| "type_of (ECall t f es) = t"
| "type_of (EUndef t) = t"

fun isIntegerTy :: "sty \<Rightarrow> bool" where
  "isIntegerTy (IntT w) = True"
| "isIntegerTy t = False"

text \<open>The width of an integer type, 64 for a pointer.\<close>

fun width :: "sty \<Rightarrow> nat" where
  "width (IntT w) = w"
| "width t = 64"

text \<open>\<open>APInt::getSExtValue\<close> of the bits of a constant.\<close>

definition sext :: "nat \<Rightarrow> int \<Rightarrow> int" where
  "sext w b = signed_take_bit (w - 1) b"

text \<open>The table of atoms: the expression of each number.\<close>

type_synonym arena = "expr list"

subsection \<open>Constants, polynomials and atoms\<close>

definition wrap :: "sty \<Rightarrow> int \<Rightarrow> int" where
  "wrap t v =
     (let w = width t in
      if 64 \<le> w then v
      else let m = 2 ^ w - 1; u = v AND m
           in if u AND 2 ^ (w - 1) \<noteq> 0 then u OR NOT m else u)"

definition mkPoly :: "sty \<Rightarrow> terms \<Rightarrow> expr" where
  "mkPoly t ts = EPoly t (mk_terms ts)"

definition polyConst :: "sty \<Rightarrow> int \<Rightarrow> expr" where
  "polyConst t v = mkPoly t [([], v)]"

definition mkInt :: "sty \<Rightarrow> int \<Rightarrow> expr" where
  "mkInt t v = polyConst t (wrap t v)"

definition mkBool :: "bool \<Rightarrow> expr" where
  "mkBool b = EConst (IntT 1) (if b then 1 else 0)"

definition isTrue :: "expr \<Rightarrow> bool" where
  "isTrue e \<longleftrightarrow> e = EConst (IntT 1) 1"

definition isFalse :: "expr \<Rightarrow> bool" where
  "isFalse e \<longleftrightarrow> e = EConst (IntT 1) 0"

text \<open>\<open>constInt\<close>: the value, if the expression is a constant integer.\<close>

fun constInt :: "expr \<Rightarrow> int option" where
  "constInt (EConst (IntT w) b) = Some (sext w b)"
| "constInt (EPoly t []) = Some 0"
| "constInt (EPoly t [u]) = (if fst u = [] then Some (snd u) else None)"
| "constInt e = None"

fun find_atom :: "expr \<Rightarrow> nat \<Rightarrow> expr list \<Rightarrow> nat option" where
  "find_atom e i [] = None"
| "find_atom e i (a # as) = (if a = e then Some i else find_atom e (i + 1) as)"

definition atomOf :: "expr \<Rightarrow> arena \<Rightarrow> nat \<times> arena" where
  "atomOf e A = (case find_atom e 0 A of Some i \<Rightarrow> (i, A) | None \<Rightarrow> (length A, A @ [e]))"

definition asPoly :: "expr \<Rightarrow> arena \<Rightarrow> expr \<times> arena" where
  "asPoly e A =
     (case e of
        EPoly t ts \<Rightarrow> (e, A)
      | EConst (IntT w) b \<Rightarrow> (polyConst (IntT w) (sext w b), A)
      | _ \<Rightarrow> let (i, A) = atomOf e A in (mkPoly (type_of e) [([i], 1)], A))"

text \<open>The terms of what \<open>asPoly\<close> returned.\<close>

fun terms_of :: "expr \<Rightarrow> terms" where
  "terms_of (EPoly t ts) = ts"
| "terms_of e = []"

definition retype :: "expr \<Rightarrow> sty \<Rightarrow> arena \<Rightarrow> expr \<times> arena" where
  "retype e t A =
     (let (p, A) = asPoly e A in
      if type_of p = t then (p, A)
      else (mkPoly t (map (\<lambda>u. if fst u = [] then (fst u, wrap t (snd u)) else u) (terms_of p)), A))"

definition lift2 :: "(terms \<Rightarrow> terms \<Rightarrow> terms) \<Rightarrow> expr \<Rightarrow> expr \<Rightarrow> arena \<Rightarrow> expr \<times> arena" where
  "lift2 f a b A =
     (let (a, A) = asPoly a A; (b, A) = asPoly b A in (EPoly (type_of a) (f (terms_of a) (terms_of b)), A))"

definition add :: "expr \<Rightarrow> expr \<Rightarrow> arena \<Rightarrow> expr \<times> arena" where
  "add = lift2 add_terms"

definition neg :: "expr \<Rightarrow> arena \<Rightarrow> expr \<times> arena" where
  "neg a A = (let (a, A) = asPoly a A in (EPoly (type_of a) (neg_terms (terms_of a)), A))"

text \<open>\<open>add(a, neg(b))\<close>: the atom of \<open>b\<close> comes first, as C++ evaluates the argument before the body.\<close>

definition sub :: "expr \<Rightarrow> expr \<Rightarrow> arena \<Rightarrow> expr \<times> arena" where
  "sub a b A = (let (nb, A) = neg b A in add a nb A)"

definition mul :: "expr \<Rightarrow> expr \<Rightarrow> arena \<Rightarrow> expr \<times> arena" where
  "mul = lift2 mul_terms"

subsection \<open>Binary operators on integers\<close>

text \<open>The \<open>APInt\<close> arithmetic of width \<open>w\<close> on two constants: the bits of the result, \<open>None\<close> for a division
  by zero. Shifting by the width or more gives the result the code writes.\<close>

definition fold_const :: "nat \<Rightarrow> opcode \<Rightarrow> int \<Rightarrow> int \<Rightarrow> int option" where
  "fold_const w op ca cb =
     (let x = take_bit w ca; y = take_bit w cb in
      case op of
        OpAdd \<Rightarrow> Some (x + y)
      | OpSub \<Rightarrow> Some (x - y)
      | OpMul \<Rightarrow> Some (x * y)
      | OpAnd \<Rightarrow> Some (x AND y)
      | OpOr \<Rightarrow> Some (x OR y)
      | OpXor \<Rightarrow> Some (x XOR y)
      | OpShl \<Rightarrow> Some (if int w \<le> y then 0 else x * 2 ^ nat y)
      | OpLShr \<Rightarrow> Some (if int w \<le> y then 0 else x div 2 ^ nat y)
      | OpAShr \<Rightarrow> Some (if int w \<le> y then sext w x div 2 ^ (w - 1) else sext w x div 2 ^ nat y)
      | OpUDiv \<Rightarrow> if y = 0 then None else Some (x div y)
      | OpSDiv \<Rightarrow> if y = 0 then None else Some (sext w x sdiv sext w y)
      | OpURem \<Rightarrow> if y = 0 then None else Some (x mod y)
      | OpSRem \<Rightarrow> if y = 0 then None else Some (sext w x smod sext w y)
      | _ \<Rightarrow> None)"

definition folds :: "opcode \<Rightarrow> bool" where
  "folds op \<longleftrightarrow> op \<in> {OpAdd, OpSub, OpMul, OpAnd, OpOr, OpXor, OpShl, OpLShr, OpAShr, OpUDiv, OpSDiv, OpURem, OpSRem}"

definition opaque_binop :: "opcode \<Rightarrow> expr \<Rightarrow> expr \<Rightarrow> sty \<Rightarrow> arena \<Rightarrow> expr \<times> arena" where
  "opaque_binop op a b t A =
     (let (a, A) = asPoly a A; (b, A) = asPoly b A in asPoly (EOp t op [a, b]) A)"

text \<open>The switch for operands that are not both constant.\<close>

definition binop_sym :: "opcode \<Rightarrow> expr \<Rightarrow> expr \<Rightarrow> sty \<Rightarrow> arena \<Rightarrow> expr \<times> arena" where
  "binop_sym op a b t A =
     (case (op, constInt b) of
        (OpAdd, _) \<Rightarrow> add a b A
      | (OpSub, _) \<Rightarrow> sub a b A
      | (OpMul, _) \<Rightarrow> mul a b A
      | (OpShl, Some cb) \<Rightarrow> if 0 \<le> cb \<and> cb < 63 then mul a (mkInt t (2 ^ nat cb)) A else opaque_binop op a b t A
      | (OpAnd, Some cb) \<Rightarrow> if cb = - 1 then asPoly a A else if cb = 0 then (mkInt t 0, A) else opaque_binop op a b t A
      | (OpUDiv, Some cb) \<Rightarrow> if cb = 1 then asPoly a A else opaque_binop op a b t A
      | (OpSDiv, Some cb) \<Rightarrow> if cb = 1 then asPoly a A else opaque_binop op a b t A
      | (OpURem, Some cb) \<Rightarrow> if cb = 1 \<or> cb = - 1 then (mkInt t 0, A) else opaque_binop op a b t A
      | (OpSRem, Some cb) \<Rightarrow> if cb = 1 \<or> cb = - 1 then (mkInt t 0, A) else opaque_binop op a b t A
      | _ \<Rightarrow> opaque_binop op a b t A)"

text \<open>The branch of \<open>binop\<close> for integers wider than one bit.\<close>

definition binop_int :: "opcode \<Rightarrow> expr \<Rightarrow> expr \<Rightarrow> sty \<Rightarrow> arena \<Rightarrow> expr \<times> arena" where
  "binop_int op a b t A =
     (case (constInt a, constInt b) of
        (Some ca, Some cb) \<Rightarrow>
          if folds op then
            (case fold_const (width t) op ca cb of
               None \<Rightarrow> (EUndef t, A)
             | Some r \<Rightarrow> (mkInt t (sext (width t) r), A))
          else opaque_binop op a b t A
      | _ \<Rightarrow> binop_sym op a b t A)"

subsection \<open>Casts between integers and pointers\<close>

definition int_cast :: "opcode \<Rightarrow> bool" where
  "int_cast op \<longleftrightarrow> op \<in> {OpTrunc, OpZExt, OpSExt, OpPtrToInt, OpIntToPtr, OpAddrSpaceCast}"

definition opaque_unop :: "opcode \<Rightarrow> expr \<Rightarrow> sty \<Rightarrow> arena \<Rightarrow> expr \<times> arena" where
  "opaque_unop op a t A = (if isIntegerTy t \<or> t = PtrT then asPoly (EOp t op [a]) A else (EOp t op [a], A))"

text \<open>\<open>cast\<close> for these opcodes.\<close>

definition cast_int :: "opcode \<Rightarrow> expr \<Rightarrow> sty \<Rightarrow> arena \<Rightarrow> expr \<times> arena" where
  "cast_int op a t A =
     (if t = IntT 1 then
        (case constInt a of Some c \<Rightarrow> (mkBool (odd c), A) | None \<Rightarrow> opaque_unop op a t A)
      else
        (case a of
           EPoly u ts \<Rightarrow>
             (case (op, constInt a) of
                (OpZExt, Some c) \<Rightarrow> (mkInt t (if width u < 64 then c AND (2 ^ width u - 1) else c), A)
              | _ \<Rightarrow> retype a t A)
         | EConst (IntT w) b \<Rightarrow>
             (if op = OpZExt
              then (mkInt t (if w < 64 then sext w b AND (2 ^ w - 1) else sext w b), A)
              else retype a t A)
         | EUndef u \<Rightarrow> (EUndef t, A)
         | _ \<Rightarrow> opaque_unop op a t A))"

subsection \<open>Comparisons\<close>

definition isUnsigned :: "pred \<Rightarrow> bool" where "isUnsigned p \<longleftrightarrow> p \<in> {UGT, UGE, ULT, ULE}"
definition isSigned :: "pred \<Rightarrow> bool" where "isSigned p \<longleftrightarrow> p \<in> {SGT, SGE, SLT, SLE}"

text \<open>\<open>ICmpInst::compare\<close> on values of width \<open>w\<close>.\<close>

fun icmp_compare :: "nat \<Rightarrow> pred \<Rightarrow> int \<Rightarrow> int \<Rightarrow> bool" where
  "icmp_compare w EQ x y = (take_bit w x = take_bit w y)"
| "icmp_compare w NE x y = (take_bit w x \<noteq> take_bit w y)"
| "icmp_compare w UGT x y = (take_bit w y < take_bit w x)"
| "icmp_compare w UGE x y = (take_bit w y \<le> take_bit w x)"
| "icmp_compare w ULT x y = (take_bit w x < take_bit w y)"
| "icmp_compare w ULE x y = (take_bit w x \<le> take_bit w y)"
| "icmp_compare w SGT x y = (sext w y < sext w x)"
| "icmp_compare w SGE x y = (sext w y \<le> sext w x)"
| "icmp_compare w SLT x y = (sext w x < sext w y)"
| "icmp_compare w SLE x y = (sext w x \<le> sext w y)"
| "icmp_compare w (FCmp n) x y = False"

text \<open>The lambdas \<open>fdiv\<close> and \<open>cdiv\<close>: the C++ quotient, which truncates, corrected to round down and up.\<close>

definition fdiv :: "int \<Rightarrow> int \<Rightarrow> int" where
  "fdiv x y = (let q = x sdiv y in if x smod y \<noteq> 0 \<and> ((x < 0) \<noteq> (y < 0)) then q - 1 else q)"

definition cdiv :: "int \<Rightarrow> int \<Rightarrow> int" where
  "cdiv x y = - fdiv (- x) y"

text \<open>The greatest common divisor of the coefficients of the terms that are not constant.\<close>

definition coef_gcd :: "terms \<Rightarrow> int" where
  "coef_gcd ts = fold (\<lambda>t g. if g \<noteq> 0 then gcd g \<bar>snd t\<bar> else \<bar>snd t\<bar>) ts 0"

text \<open>The literal for \<open>0 < d\<close>, where \<open>d\<close> is not constant: the coefficients divided by their common
  factor, the leading one made positive, the constant rounded.\<close>

definition order_literal :: "sty \<Rightarrow> terms \<Rightarrow> expr" where
  "order_literal t d =
     (let (pn, c) = split_const d;
          g = coef_gcd pn;
          leadNeg = snd (hd pn) < 0;
          et = map (\<lambda>u. (fst u, (if leadNeg then - snd u else snd u) sdiv g)) pn;
          k = (if leadNeg then - cdiv c g else - fdiv (- c) g)
      in ECmp (if leadNeg then SLT else SGT) (mkPoly t (et @ (if k = 0 then [] else [([], k)]))) (mkInt t 0))"

text \<open>A non-zero constant term: the first one the loop meets.\<close>

definition const_term :: "terms \<Rightarrow> int option" where
  "const_term ts = (case filter (\<lambda>t. fst t = [] \<and> snd t \<noteq> 0) ts of [] \<Rightarrow> None | t # _ \<Rightarrow> Some (snd t))"

fun isPoly :: "expr \<Rightarrow> bool" where
  "isPoly (EPoly t ts) = True"
| "isPoly e = False"

definition same_poly :: "pred \<Rightarrow> expr \<Rightarrow> expr \<Rightarrow> expr" where
  "same_poly p a b =
     (if a = b \<and> isPoly a \<and> p \<in> {EQ, ULE, SLE, UGE, SGE} then mkBool True
      else if a = b \<and> isPoly a \<and> p \<in> {NE, ULT, SLT, UGT, SGT} then mkBool False
      else ECmp p a b)"

text \<open>\<open>cmp\<close> once both sides are polynomials where they can be; the calls may not end (see below).\<close>

fun both_poly :: "expr \<Rightarrow> expr \<Rightarrow> (sty \<times> terms \<times> sty \<times> terms) option" where
  "both_poly (EPoly ta as) (EPoly tb bs) = Some (ta, as, tb, bs)"
| "both_poly a b = None"

text \<open>\<open>cmp\<close> for the orders \<open>P < Q\<close> and \<open>P > Q\<close>: the condition \<open>0 < d\<close>.\<close>

definition order_cmp :: "sty \<Rightarrow> terms \<Rightarrow> expr" where
  "order_cmp t d = (case constInt (EPoly t d) of Some dc \<Rightarrow> mkBool (0 < dc) | None \<Rightarrow> order_literal t d)"

partial_function (option) cmp_poly :: "pred \<Rightarrow> expr \<Rightarrow> expr \<Rightarrow> expr option" where
  "cmp_poly p a b =
     (if constInt a \<noteq> None \<and> constInt b \<noteq> None
      then Some (mkBool (icmp_compare (width (type_of a)) p (the (constInt a)) (the (constInt b))))
      else
        (case both_poly a b of
           None \<Rightarrow> Some (same_poly p a b)
         | Some (ta, as, tb, bs) \<Rightarrow>
             if p = SLE then cmp_poly SLT (EPoly ta (sub_terms as (terms_of (mkInt ta 1)))) b
             else if p = SGE then cmp_poly SGT (EPoly ta (add_terms as (terms_of (mkInt ta 1)))) b
             else if p = SLT \<and> ta \<noteq> PtrT then Some (order_cmp tb (sub_terms bs as))
             else if p = SGT \<and> ta \<noteq> PtrT then Some (order_cmp ta (sub_terms as bs))
             else if p = EQ \<or> p = NE \<or> isSigned p then
               (case const_term bs of
                  Some k \<Rightarrow> cmp_poly p (EPoly ta (sub_terms as (terms_of (mkInt tb k)))) (EPoly tb (sub_terms bs (terms_of (mkInt tb k))))
                | None \<Rightarrow> Some (same_poly p a b))
             else Some (same_poly p a b)))"

fun isUndef :: "expr \<Rightarrow> bool" where
  "isUndef (EUndef t) = True"
| "isUndef e = False"

definition cmp_operand :: "expr \<Rightarrow> arena \<Rightarrow> expr \<times> arena" where
  "cmp_operand a A =
     (if (isIntegerTy (type_of a) \<and> type_of a \<noteq> IntT 1 \<or> type_of a = PtrT) \<and> \<not> isUndef a
      then asPoly a A else (a, A))"

definition cmp :: "pred \<Rightarrow> expr \<Rightarrow> expr \<Rightarrow> arena \<Rightarrow> expr option \<times> arena" where
  "cmp p a b A = (let (a, A) = cmp_operand a A; (b, A) = cmp_operand b A in (cmp_poly p a b, A))"

subsection \<open>The meaning of expressions\<close>

text \<open>An operator on the signed values of its operands; \<open>None\<close> where the instruction has no result.\<close>

definition sem_bin :: "nat \<Rightarrow> opcode \<Rightarrow> int \<Rightarrow> int \<Rightarrow> int option" where
  "sem_bin w op x y =
     (case op of
        OpAdd \<Rightarrow> Some (x + y)
      | OpSub \<Rightarrow> Some (x - y)
      | OpMul \<Rightarrow> Some (x * y)
      | OpAnd \<Rightarrow> Some (x AND y)
      | OpOr \<Rightarrow> Some (x OR y)
      | OpXor \<Rightarrow> Some (x XOR y)
      | OpShl \<Rightarrow> if 0 \<le> y \<and> y < int w then Some (x * 2 ^ nat y) else None
      | OpLShr \<Rightarrow> if 0 \<le> y \<and> y < int w then Some (take_bit w x div 2 ^ nat y) else None
      | OpAShr \<Rightarrow> if 0 \<le> y \<and> y < int w then Some (x div 2 ^ nat y) else None
      | OpUDiv \<Rightarrow> if y = 0 then None else Some (take_bit w x div take_bit w y)
      | OpSDiv \<Rightarrow> if y = 0 then None else Some (x sdiv y)
      | OpURem \<Rightarrow> if y = 0 then None else Some (take_bit w x mod take_bit w y)
      | OpSRem \<Rightarrow> if y = 0 then None else Some (x smod y)
      | _ \<Rightarrow> None)"

definition op_val :: "nat \<Rightarrow> opcode \<Rightarrow> int list \<Rightarrow> int \<Rightarrow> int" where
  "op_val w op xs d = (case xs of [x, y] \<Rightarrow> (case sem_bin w op x y of Some r \<Rightarrow> r | None \<Rightarrow> d) | _ \<Rightarrow> d)"

definition call_val :: "callee \<Rightarrow> int list \<Rightarrow> int \<Rightarrow> int" where
  "call_val f xs d =
     (case (f, xs) of
        (Fn n, [x, y]) \<Rightarrow> if take 10 n = ''llvm.smin.'' then min x y else if take 10 n = ''llvm.smax.'' then max x y else d
      | _ \<Rightarrow> d)"

text \<open>The value of an expression: \<open>v\<close> values the atoms, \<open>f\<close> whatever is opaque.\<close>

fun ev :: "(nat \<Rightarrow> int) \<Rightarrow> (expr \<Rightarrow> int) \<Rightarrow> expr \<Rightarrow> int" where
  "ev v f (EPoly t ts) = pval v ts"
| "ev v f (EConst t b) = (if isIntegerTy t then sext (width t) b else f (EConst t b))"
| "ev v f (EOp t op es) = op_val (width t) op (map (ev v f) es) (f (EOp t op es))"
| "ev v f (ECall t c es) = call_val c (map (ev v f) es) (f (ECall t c es))"
| "ev v f e = f e"

text \<open>A comparison of signed values; \<open>holds\<close> is the truth of a literal.\<close>

fun icmp :: "nat \<Rightarrow> pred \<Rightarrow> int \<Rightarrow> int \<Rightarrow> bool" where
  "icmp w EQ x y = (x = y)"
| "icmp w NE x y = (x \<noteq> y)"
| "icmp w SGT x y = (y < x)"
| "icmp w SGE x y = (y \<le> x)"
| "icmp w SLT x y = (x < y)"
| "icmp w SLE x y = (x \<le> y)"
| "icmp w p x y = icmp_compare w p x y"

fun holds :: "(nat \<Rightarrow> int) \<Rightarrow> (expr \<Rightarrow> int) \<Rightarrow> expr \<Rightarrow> bool" where
  "holds v f (ECmp p a b) = icmp (width (type_of a)) p (ev v f a) (ev v f b)"
| "holds v f e = (ev v f e \<noteq> 0)"

text \<open>Every atom has the value of its expression.\<close>

definition consistent :: "(nat \<Rightarrow> int) \<Rightarrow> (expr \<Rightarrow> int) \<Rightarrow> arena \<Rightarrow> bool" where
  "consistent v f A \<longleftrightarrow> (\<forall>i < length A. v i = ev v f (A ! i))"

definition in_range :: "nat \<Rightarrow> int \<Rightarrow> bool" where
  "in_range w x \<longleftrightarrow> - (2 ^ (w - 1)) \<le> x \<and> x < 2 ^ (w - 1)"

subsection \<open>Widths\<close>

lemma sext_in_range: "in_range w x \<Longrightarrow> sext w x = x"
  by (simp add: in_range_def sext_def signed_take_bit_int_eq_self_iff)

lemma take_bit_sext: "0 < w \<Longrightarrow> take_bit w (sext w x) = take_bit w x"
  by (simp add: sext_def take_bit_signed_take_bit)

lemma sext_take_bit: "0 < w \<Longrightarrow> sext w (take_bit w x) = sext w x"
  by (cases w) (simp_all add: sext_def signed_take_bit_take_bit)

lemma wrap_sext: "0 < width t \<Longrightarrow> wrap t v = (if 64 \<le> width t then v else sext (width t) v)"
proof -
  assume w: "0 < width t"
  have m: "v AND (2 ^ width t - 1) = take_bit (width t) v"
    by (simp add: take_bit_eq_mask mask_eq_exp_minus_1)
  have b: "take_bit (width t) v AND 2 ^ (width t - 1) \<noteq> 0 \<longleftrightarrow> bit v (width t - 1)"
    using w by (simp add: bit_take_bit_iff and_exp_eq_0_iff_not_bit)
  have "sext (width t) v = (if bit v (width t - 1) then take_bit (width t) v OR NOT (mask (width t)) else take_bit (width t) v)"
    using w by (intro bit_eqI, cases "width t") (auto simp: sext_def bit_simps less_Suc_eq min_def)
  then show ?thesis unfolding wrap_def Let_def m b by (simp add: mask_eq_exp_minus_1)
qed

lemma take_bit_wrap: "0 < width t \<Longrightarrow> take_bit (width t) (wrap t v) = take_bit (width t) v"
  by (simp add: wrap_sext take_bit_sext)

lemma wrap_in_range: "0 < width t \<Longrightarrow> in_range (width t) v \<Longrightarrow> wrap t v = v"
  by (simp add: wrap_sext sext_in_range)

lemma ev_mkPoly [simp]: "ev v f (mkPoly t ts) = pval v ts"
  by (simp add: mkPoly_def)

lemma ev_mkInt [simp]: "ev v f (polyConst t k) = k" "ev v f (mkInt t k) = wrap t k"
  by (simp_all add: mkInt_def polyConst_def)

lemma constInt_ev: "constInt e = Some c \<Longrightarrow> ev v f e = c"
  by (cases e rule: constInt.cases) (auto split: if_splits)

subsection \<open>Atoms\<close>

lemma find_atom_Some: "find_atom e i as = Some k \<Longrightarrow> i \<le> k \<and> k - i < length as \<and> as ! (k - i) = e"
  by (induction e i as rule: find_atom.induct) (auto split: if_splits simp: nth_Cons' Suc_le_eq)

lemma consistent_append: "consistent v f (A @ B) \<Longrightarrow> consistent v f A"
  by (auto simp: consistent_def nth_append)

lemma consistent_prefix: "prefix A B \<Longrightarrow> consistent v f B \<Longrightarrow> consistent v f A"
  by (auto simp: prefix_def dest: consistent_append)

lemma atomOf_ev:
  assumes "atomOf e A = (i, A')"
  shows "prefix A A' \<and> (consistent v f A' \<longrightarrow> v i = ev v f e)"
proof (cases "find_atom e 0 A")
  case None
  with assms show ?thesis by (auto simp: atomOf_def consistent_def nth_append)
next
  case (Some k)
  with assms find_atom_Some [OF Some] show ?thesis by (auto simp: atomOf_def consistent_def)
qed

lemma asPoly_atom:
  assumes "\<nexists>t ts. e = EPoly t ts" and "\<nexists>w b. e = EConst (IntT w) b"
  shows "asPoly e A = (mkPoly (type_of e) [([fst (atomOf e A)], 1)], snd (atomOf e A))"
proof (cases e)
  case (EConst t b)
  with assms show ?thesis by (cases t) (simp_all add: asPoly_def case_prod_beta Let_def)
qed (use assms in \<open>simp_all add: asPoly_def case_prod_beta Let_def\<close>)

lemma asPoly_const: "asPoly (EConst (IntT w) b) A = (polyConst (IntT w) (sext w b), A)"
  by (simp add: asPoly_def)

lemma asPoly_poly [simp]: "asPoly (EPoly t ts) A = (EPoly t ts, A)"
  by (simp add: asPoly_def)

lemma asPoly_ev:
  assumes "asPoly e A = (p, A')"
  shows "prefix A A' \<and> (\<exists>ts. p = EPoly (type_of e) ts) \<and> (consistent v f A' \<longrightarrow> ev v f p = ev v f e)"
proof -
  consider t ts where "e = EPoly t ts" | w b where "e = EConst (IntT w) b" |
    "\<nexists>t ts. e = EPoly t ts" "\<nexists>w b. e = EConst (IntT w) b" by blast
  then show ?thesis
  proof cases
    case 3
    obtain i B where i: "atomOf e A = (i, B)" by fastforce
    have "p = mkPoly (type_of e) [([i], 1)]" "A' = B" using asPoly_atom [OF 3, of A] assms i by simp_all
    with atomOf_ev [OF i, of v f] show ?thesis by (simp add: mkPoly_def mval_def)
  qed (use assms in \<open>auto simp: asPoly_const polyConst_def mkPoly_def\<close>)
qed

subsection \<open>What the operators compute\<close>

definition cong :: "nat \<Rightarrow> int \<Rightarrow> int \<Rightarrow> bool" where
  "cong w x y \<longleftrightarrow> take_bit w x = take_bit w y"

lemma lift2_ev:
  assumes "lift2 g a b A = (e, A')" and "\<And>ts us. pval v (g ts us) = h (pval v ts) (pval v us)"
  shows "prefix A A' \<and> (consistent v f A' \<longrightarrow> ev v f e = h (ev v f a) (ev v f b))"
proof -
  obtain p B q C where p: "asPoly a A = (p, B)" and q: "asPoly b B = (q, C)" by fastforce
  from assms(1) have e: "e = EPoly (type_of p) (g (terms_of p) (terms_of q))" "A' = C"
    by (simp_all add: lift2_def p q)
  from asPoly_ev [OF p, of v f] asPoly_ev [OF q, of v f] show ?thesis
    unfolding e using consistent_prefix [of B C v f] by (auto simp: assms(2) intro: prefix_order.trans)
qed

lemma add_ev: "add a b A = (e, A') \<Longrightarrow> prefix A A' \<and> (consistent v f A' \<longrightarrow> ev v f e = ev v f a + ev v f b)"
  unfolding add_def by (erule lift2_ev) simp

lemma mul_ev: "mul a b A = (e, A') \<Longrightarrow> prefix A A' \<and> (consistent v f A' \<longrightarrow> ev v f e = ev v f a * ev v f b)"
  unfolding mul_def by (erule lift2_ev) simp

lemma neg_ev: "neg a A = (e, A') \<Longrightarrow> prefix A A' \<and> (consistent v f A' \<longrightarrow> ev v f e = - ev v f a)"
  using asPoly_ev [of a A _ _ v f] by (fastforce simp: neg_def split: prod.splits)

lemma sub_ev:
  assumes "sub a b A = (e, A')"
  shows "prefix A A' \<and> (consistent v f A' \<longrightarrow> ev v f e = ev v f a - ev v f b)"
proof -
  obtain n B where n: "neg b A = (n, B)" by fastforce
  with assms have e: "add a n B = (e, A')" by (simp add: sub_def)
  from neg_ev [OF n, of v f] add_ev [OF e, of v f] show ?thesis
    using consistent_prefix [of B A' v f] prefix_order.trans [of A B A'] by auto
qed

lemma opaque_ev:
  assumes "opaque_binop op a b t A = (e, A')"
  shows "prefix A A' \<and> (consistent v f A' \<longrightarrow> (\<forall>r. sem_bin (width t) op (ev v f a) (ev v f b) = Some r \<longrightarrow> ev v f e = r))"
proof -
  obtain p B q C where p: "asPoly a A = (p, B)" and q: "asPoly b B = (q, C)" by fastforce
  with assms have e: "asPoly (EOp t op [p, q]) C = (e, A')" by (simp add: opaque_binop_def)
  from asPoly_ev [OF p, of v f] asPoly_ev [OF q, of v f] asPoly_ev [OF e, of v f] show ?thesis
    using consistent_prefix [of B A' v f] consistent_prefix [of C A' v f]
    by (auto simp: op_val_def intro: prefix_order.trans)
qed

lemma take_bit_ops: "take_bit w (take_bit w x + take_bit w y) = take_bit w (x + y :: int)"
  "take_bit w (take_bit w x - take_bit w y) = take_bit w (x - y :: int)"
  "take_bit w (take_bit w x * take_bit w y) = take_bit w (x * y :: int)"
  by (simp_all add: take_bit_add take_bit_diff take_bit_mult)

text \<open>Folding two constants in the range of the type gives the bits of the result.\<close>

lemma fold_const_sem:
  assumes "0 < w" "in_range w x" "in_range w y" "fold_const w op x y = Some r" "sem_bin w op x y = Some s"
  shows "cong w r s"
proof -
  have s: "sext w (take_bit w x) = x" "sext w (take_bit w y) = y"
    using assms(1-3) by (simp_all add: sext_take_bit sext_in_range)
  have y: "y = take_bit w y" if "0 \<le> y"
  proof -
    have "(2 :: int) ^ (w - 1) \<le> 2 ^ w" by (rule power_increasing) simp_all
    with that assms(3) have "y < 2 ^ w" unfolding in_range_def by linarith
    with that show ?thesis by (simp add: take_bit_int_eq_self)
  qed
  show ?thesis
  proof (cases op)
    case OpShl
    with assms(5) have "0 \<le> y" "y < int w" and r: "s = x * 2 ^ nat y" by (simp_all add: sem_bin_def split: if_splits)
    with y assms(4) OpShl have "r = take_bit w x * 2 ^ nat y" by (simp add: fold_const_def Let_def)
    with r show ?thesis by (simp add: cong_def) (metis take_bit_mult take_bit_of_nat mult.commute take_bit_take_bit min.idem)
  next
    case OpLShr
    with assms(4,5) y show ?thesis by (simp add: fold_const_def sem_bin_def Let_def cong_def split: if_splits)
  next
    case OpAShr
    with assms(4,5) y s show ?thesis by (simp add: fold_const_def sem_bin_def Let_def cong_def split: if_splits)
  qed (use assms(4,5) s in \<open>auto simp: fold_const_def sem_bin_def Let_def cong_def take_bit_ops split: if_splits\<close>)
qed

lemma sem_bin_folds: "sem_bin w op x y = Some r \<Longrightarrow> folds op"
  by (cases op) (simp_all add: sem_bin_def folds_def)

lemma fold_const_None: "0 < w \<Longrightarrow> in_range w y \<Longrightarrow> folds op \<Longrightarrow> fold_const w op x y = None \<Longrightarrow> sem_bin w op x y = None"
  using take_bit_sext [of w y] sext_take_bit [of w y] sext_in_range [of w y]
  by (cases op) (auto simp: folds_def fold_const_def sem_bin_def Let_def sext_def split: if_splits)

text \<open>C9: on integers wider than a bit \<open>binop\<close> gives an expression whose value is the instruction's
  result, to the width of the type, whenever the instruction has one and constant operands are in the
  range of the type; but for an unsigned remainder by the constant \<open>-1\<close>.\<close>

theorem binop_int_value:
  assumes "binop_int op a b t A = (e, A')" and "consistent v f A'" and "0 < width t"
    and "\<forall>c. constInt a = Some c \<longrightarrow> in_range (width t) c" and "\<forall>c. constInt b = Some c \<longrightarrow> in_range (width t) c"
    and "sem_bin (width t) op (ev v f a) (ev v f b) = Some r"
    and "\<not> (op = OpURem \<and> constInt b = Some (- 1))"
  shows "cong (width t) (ev v f e) r"
proof (cases "\<exists>ca cb. constInt a = Some ca \<and> constInt b = Some cb")
  case True
  then obtain ca cb where c: "constInt a = Some ca" "constInt b = Some cb" by blast
  note val = constInt_ev [OF c(1), of v f] constInt_ev [OF c(2), of v f]
  have fo: "folds op" using assms(6) by (rule sem_bin_folds)
  have "fold_const (width t) op ca cb \<noteq> None"
    using fold_const_None [OF assms(3) _ fo, of cb ca] assms(5,6) c val by auto
  then obtain s where s: "fold_const (width t) op ca cb = Some s" by blast
  have "cong (width t) s r" using fold_const_sem [OF assms(3) _ _ s] assms(4-6) c val by auto
  moreover have "e = mkInt t (sext (width t) s)" using assms(1) by (simp add: binop_int_def c fo s)
  ultimately show ?thesis using assms(3) by (simp add: cong_def take_bit_wrap take_bit_sext)
next
  case False
  then have sym: "binop_sym op a b t A = (e, A')"
    using assms(1) by (auto simp: binop_int_def split: option.splits)
  have opq: ?thesis if "opaque_binop op a b t A = (e, A')"
    using opaque_ev [OF that, of v f] assms(2,6) by (simp add: cong_def)
  have atm: ?thesis if "asPoly a A = (e, A')" "cong (width t) (ev v f a) r"
    using asPoly_ev [OF that(1), of v f] assms(2) that(2) by simp
  have zero: ?thesis if "(e, A') = (mkInt t 0, A)" "r = 0"
    using that assms(3) by (simp add: cong_def take_bit_wrap)
  have ring: ?thesis if "add a b A = (e, A') \<and> op = OpAdd \<or> sub a b A = (e, A') \<and> op = OpSub \<or> mul a b A = (e, A') \<and> op = OpMul"
    using that add_ev [of a b A e A' v f] sub_ev [of a b A e A' v f] mul_ev [of a b A e A' v f] assms(2,6)
    by (auto simp: sem_bin_def cong_def)
  show ?thesis
  proof (cases "constInt b")
    case None
    then show ?thesis using sym opq ring by (cases op) (simp_all add: binop_sym_def)
  next
    case (Some cb)
    then have kb: "ev v f b = cb" by (rule constInt_ev)
    have one: "take_bit (width t) (1 :: int) = 1" using assms(3) by simp
    show ?thesis
    proof (cases op)
      case OpShl
      with assms(6) kb have cb: "0 \<le> cb" "cb < int (width t)" "r = ev v f a * 2 ^ nat cb"
        by (auto simp: sem_bin_def split: if_splits)
      show ?thesis
      proof (cases "cb < 63")
        case True
        with sym OpShl Some cb have "mul a (mkInt t (2 ^ nat cb)) A = (e, A')" by (simp add: binop_sym_def)
        then have "ev v f e = ev v f a * wrap t (2 ^ nat cb)" using mul_ev assms(2) by fastforce
        then show ?thesis
          using take_bit_wrap [OF assms(3), of "2 ^ nat cb"] unfolding cong_def cb(3) by (metis take_bit_ops(3))
      qed (use sym OpShl Some cb opq in \<open>simp add: binop_sym_def\<close>)
    next
      case OpAnd
      with assms(6) kb have r: "r = ev v f a AND cb" by (simp add: sem_bin_def)
      have "cong (width t) (ev v f a) r" if "cb = - 1" using that r by (simp add: cong_def)
      moreover have "r = 0" if "cb = 0" using that r by simp
      ultimately show ?thesis
        using sym OpAnd Some opq atm zero by (auto simp: binop_sym_def split: if_splits)
    next
      case OpUDiv
      with assms(6) kb have "r = take_bit (width t) (ev v f a) div take_bit (width t) cb"
        by (simp add: sem_bin_def split: if_splits)
      with sym OpUDiv Some opq atm one show ?thesis by (auto simp: binop_sym_def cong_def split: if_splits)
    next
      case OpSDiv
      with assms(6) kb have "r = ev v f a sdiv cb" by (simp add: sem_bin_def split: if_splits)
      with sym OpSDiv Some opq atm show ?thesis by (auto simp: binop_sym_def cong_def split: if_splits)
    next
      case OpURem
      with assms(6) kb have "r = take_bit (width t) (ev v f a) mod take_bit (width t) cb"
        by (simp add: sem_bin_def split: if_splits)
      with sym OpURem Some opq zero one assms(7) show ?thesis by (auto simp: binop_sym_def split: if_splits)
    next
      case OpSRem
      with assms(6) kb have "r = ev v f a smod cb" by (simp add: sem_bin_def split: if_splits)
      with sym OpSRem Some opq zero show ?thesis
        by (auto simp: binop_sym_def signed_modulo_int_def split: if_splits)
    qed (use sym opq ring Some in \<open>simp_all add: binop_sym_def\<close>)
  qed
qed

text \<open>The exception is a defect: the remainder of an unsigned division by the largest value is the
  dividend, but for the largest dividend; \<open>binop\<close> makes it zero, as if \<open>-1\<close> were the signed divisor.\<close>

text \<open>C39: the unsigned remainder of any polynomial that is not constant by the constant \<open>-1\<close> folds to
  zero, although the instruction gives the dividend.\<close>

theorem urem_minus_one:
  assumes "1 < w" and "w < 64" and "constInt (EPoly (IntT w) ts) = None" and "0 \<le> pval v ts" and "pval v ts < 2 ^ (w - 1)"
  shows "binop_int OpURem (EPoly (IntT w) ts) (mkInt (IntT w) (- 1)) (IntT w) A = (mkInt (IntT w) 0, A) \<and>
    ev v f (mkInt (IntT w) 0) = 0 \<and>
    sem_bin w OpURem (ev v f (EPoly (IntT w) ts)) (ev v f (mkInt (IntT w) (- 1))) = Some (pval v ts)"
proof -
  have m1: "wrap (IntT w) (- 1) = - 1" "wrap (IntT w) 0 = 0"
    using assms(1) one_le_power [of "2 :: int" "w - 1"]
    by (intro wrap_in_range; simp; simp only: in_range_def; linarith)+
  then have c: "constInt (mkInt (IntT w) (- 1)) = Some (- 1)" by (simp add: mkInt_def polyConst_def mkPoly_def mk_terms_def)
  have "(2 :: int) ^ (w - 1) < 2 ^ w" using assms(1) by (intro power_strict_increasing) simp_all
  then have lt: "pval v ts < 2 ^ w - 1" using assms(5) by linarith
  then have "take_bit w (pval v ts) mod take_bit w (- 1) = pval v ts"
    using assms(4) by (simp add: take_bit_int_eq_self mask_eq_exp_minus_1)
  then show ?thesis by (simp add: binop_int_def binop_sym_def assms(3) c m1 sem_bin_def)
qed

subsection \<open>Casts\<close>

lemma cong_add: "cong w x x' \<Longrightarrow> cong w y y' \<Longrightarrow> cong w (x + y) (x' + y')"
  unfolding cong_def by (metis take_bit_ops(1))

lemma pval_wrap_const:
  assumes "0 < width t"
  shows "cong (width t) (pval v (map (\<lambda>u. if fst u = [] then (fst u, wrap t (snd u)) else u) ts)) (pval v ts)"
proof (induction ts)
  case (Cons u ts)
  let ?g = "\<lambda>u. if fst u = [] then (fst u, wrap t (snd u)) else u"
  have "cong (width t) (snd (?g u) * mval v (fst (?g u))) (snd u * mval v (fst u))"
    using take_bit_wrap [OF assms, of "snd u"] by (simp add: cong_def)
  from cong_add [OF this Cons] show ?case by (simp only: list.map pval_simps)
qed (simp add: cong_def)

lemma retype_ev:
  assumes "retype a t A = (e, A')" and "consistent v f A'" and "0 < width t"
  shows "cong (width t) (ev v f e) (ev v f a)"
proof -
  obtain p B where p: "asPoly a A = (p, B)" by fastforce
  with assms(1) have "B = A'" by (auto simp: retype_def split: if_splits)
  with p assms(2) have val: "ev v f p = ev v f a" "ev v f p = pval v (terms_of p)"
    using asPoly_ev [OF p, of v f] by auto
  show ?thesis
    using assms(1) p pval_wrap_const [OF assms(3), of v "terms_of p"] val
    by (auto simp: retype_def cong_def split: if_splits)
qed

text \<open>A cast between integer types or pointers keeps the value to the width of the target; a
  constant is zero-extended by its unsigned reading.\<close>

lemma cast_int_value:
  assumes "cast_int op a t A = (e, A')" and "consistent v f A'" and "int_cast op"
    and "1 < width t" and "0 < width (type_of a)" and "isIntegerTy (type_of a)" and "(\<exists>u ts. a = EPoly u ts) \<or> (\<exists>w b. a = EConst (IntT w) b)"
  shows "cong (width t) (ev v f e)
    (if op = OpZExt \<and> constInt a \<noteq> None \<and> width (type_of a) < 64 then take_bit (width (type_of a)) (ev v f a) else ev v f a)"
proof -
  have m: "c AND (2 ^ w - 1) = take_bit w c" for w and c :: int
    by (simp add: take_bit_eq_mask mask_eq_exp_minus_1)
  have t: "t \<noteq> IntT 1" using assms(4) by auto
  have w: "0 < width t" using assms(4) by simp
  have r: ?thesis if "retype a t A = (e, A')" "\<not> (op = OpZExt \<and> constInt a \<noteq> None)"
    using retype_ev [OF that(1) assms(2) w] that(2) by auto
  have c: ?thesis if "constInt a = Some k" "op = OpZExt"
    "e = mkInt t (if width (type_of a) < 64 then k AND (2 ^ width (type_of a) - 1) else k)" for k
    using constInt_ev [OF that(1), of v f] that take_bit_wrap [OF w] by (simp add: cong_def m)
  show ?thesis
  proof (cases a)
    case (EPoly u ts)
    show ?thesis
    proof (cases "op = OpZExt \<and> constInt a \<noteq> None")
      case True
      then obtain k where "constInt a = Some k" by blast
      with True EPoly assms(1) t show ?thesis by (intro c [of k]) (auto simp: cast_int_def)
    next
      case False
      with EPoly assms(1) t r show ?thesis by (auto simp: cast_int_def split: opcode.splits option.splits)
    qed
  next
    case (EConst u b)
    then obtain w' where u: "u = IntT w'" using assms(6) by (cases u) simp_all
    show ?thesis
    proof (cases "op = OpZExt")
      case True
      with EConst u assms(1) t show ?thesis by (intro c [of "sext w' b"]) (auto simp: cast_int_def)
    next
      case False
      with EConst u assms(1) t r show ?thesis by (simp add: cast_int_def)
    qed
  qed (use assms(7) in simp_all)
qed

subsection \<open>The normal form of comparisons\<close>

lemma int_le_div:
  assumes "(0 :: int) < g"
  shows "k \<le> x div g \<longleftrightarrow> k * g \<le> x"
proof
  assume "k \<le> x div g"
  then have "k * g \<le> x div g * g" using assms by (intro mult_right_mono) simp_all
  also have "\<dots> \<le> x" using pos_mod_sign [OF assms, of x] div_mult_mod_eq [of x g] by linarith
  finally show "k * g \<le> x" .
next
  assume "k * g \<le> x"
  then have "k * g div g \<le> x div g" using assms by (rule zdiv_mono1)
  then show "k \<le> x div g" using assms by simp
qed

lemma fdiv_div: "0 < y \<Longrightarrow> fdiv x y = x div y"
proof -
  assume y: "0 < y"
  have q: "x = y * (x div y) + x mod y" "0 \<le> x mod y" "x mod y < y" using y by simp_all
  show ?thesis
  proof (cases "0 \<le> x \<or> x mod y = 0")
    case True
    then show ?thesis
    proof
      assume "0 \<le> x"
      then show ?thesis using y by (cases "x = 0") (simp_all add: fdiv_def Let_def signed_divide_int_def)
    next
      assume "x mod y = 0"
      then obtain k where "x = y * k" by (metis mod_eq_0_iff_dvd dvdE)
      then show ?thesis using y by (simp add: fdiv_def Let_def signed_divide_int_def signed_modulo_int_def sgn_mult abs_mult sgn_mult_abs)
    qed
  next
    case False
    then have neg: "x < 0" "x mod y \<noteq> 0" by simp_all
    then have "(- x) div y = - (x div y) - 1" "(- x) mod y \<noteq> 0"
      using y by (simp_all add: zdiv_zminus1_eq_if zmod_zminus1_eq_if) (metis q(3) less_irrefl)
    then show ?thesis using neg y
      by (simp add: fdiv_def Let_def signed_divide_int_def signed_modulo_int_def)
  qed
qed

lemma cdiv_div: "0 < y \<Longrightarrow> cdiv x y = - ((- x) div y)"
  by (simp add: cdiv_def fdiv_div)

text \<open>The constant term of a canonical polynomial is its coefficient of the empty monomial.\<close>

lemma fold_const_term: "canonical ts \<Longrightarrow> fold (\<lambda>t c. if fst t = [] then snd t else c) ts k = (if [] \<in> fst ` set ts then coef ts [] else k)"
proof (induction ts arbitrary: k)
  case (Cons t ts)
  then have c: "canonical ts" "\<forall>u \<in> set ts. fst t < fst u" by (simp_all add: canonical_Cons)
  show ?case
  proof (cases "fst t = []")
    case True
    then have "[] \<notin> fst ` set ts" using c(2) by auto
    moreover have "coef ts [] = 0" using canonical_coef_less c True by metis
    ultimately show ?thesis using Cons c(1) True by simp
  qed (use Cons c(1) in auto)
qed simp

lemma coef_absent: "\<forall>u \<in> set ts. m \<noteq> fst u \<Longrightarrow> coef ts m = 0"
  by (induction ts) auto

lemma split_const_coef: "canonical ts \<Longrightarrow> snd (split_const ts) = coef ts []"
  using fold_const_term [of ts 0] coef_absent [of ts "[]"] by (auto simp: split_const_def image_iff)

lemma split_const_val: "canonical ts \<Longrightarrow> pval v ts = pval v (fst (split_const ts)) + snd (split_const ts)"
proof -
  assume c: "canonical ts"
  have "pval v ts = pval v (filter (\<lambda>t. fst t \<noteq> []) ts) + coef ts []"
    by (induction ts) auto
  then show ?thesis using split_const_coef [OF c] by (simp add: split_const_def)
qed

abbreviation gcd_step :: "mono \<times> int \<Rightarrow> int \<Rightarrow> int" where
  "gcd_step \<equiv> \<lambda>t g. if g \<noteq> 0 then gcd g \<bar>snd t\<bar> else \<bar>snd t\<bar>"

lemma fold_gcd_dvd:
  assumes "0 \<le> g" and "\<forall>t \<in> set ts. snd t \<noteq> 0"
  shows "(\<forall>t \<in> set ts. fold gcd_step ts g dvd snd t) \<and> (0 < g \<longrightarrow> fold gcd_step ts g dvd g) \<and>
    (0 < g \<or> ts \<noteq> [] \<longrightarrow> 0 < fold gcd_step ts g)"
  using assms
proof (induction ts arbitrary: g)
  case (Cons t ts)
  define g' where "g' = gcd_step t g"
  have g': "0 < g'" "g' dvd snd t" "0 < g \<Longrightarrow> g' dvd g"
    using Cons.prems by (auto simp: g'_def)
  have step: "fold gcd_step (t # ts) g = fold gcd_step ts g'" by (simp add: g'_def)
  from Cons.IH [of g'] g'(1) Cons.prems have ih:
    "\<forall>u \<in> set ts. fold gcd_step ts g' dvd snd u" "fold gcd_step ts g' dvd g'" "0 < fold gcd_step ts g'"
    by auto
  have "fold gcd_step ts g' dvd snd t" using ih(2) g'(2) by (rule dvd_trans)
  moreover have "fold gcd_step ts g' dvd g" if "0 < g" using ih(2) g'(3) [OF that] by (rule dvd_trans)
  ultimately show ?case unfolding step using ih by simp
qed simp

lemma coef_gcd_dvd:
  assumes "\<forall>t \<in> set ts. snd t \<noteq> 0"
  shows "(\<forall>t \<in> set ts. coef_gcd ts dvd snd t) \<and> (ts \<noteq> [] \<longrightarrow> 0 < coef_gcd ts)"
  using fold_gcd_dvd [of 0 ts] assms by (simp add: coef_gcd_def)

lemma pval_scaled:
  assumes "\<forall>t \<in> set ts. g dvd snd t" and "0 < g"
  shows "g * pval v (map (\<lambda>u. (fst u, (if flip then - snd u else snd u) sdiv g)) ts) = (if flip then - pval v ts else pval v ts)"
  using assms(1)
proof (induction ts)
  case (Cons t ts)
  have "g * (k sdiv g) = k" if "g dvd k" for k
    using that assms(2) by (auto simp: signed_divide_int_def sgn_mult abs_mult sgn_mult_abs elim!: dvdE)
  then have head: "g * ((if flip then - snd t else snd t) sdiv g) = (if flip then - snd t else snd t)"
    using Cons.prems by simp
  define q where "q = (if flip then - snd t else snd t) sdiv g"
  have "g * pval v (map (\<lambda>u. (fst u, (if flip then - snd u else snd u) sdiv g)) (t # ts))
      = (g * q) * mval v (fst t) + g * pval v (map (\<lambda>u. (fst u, (if flip then - snd u else snd u) sdiv g)) ts)"
    by (simp add: q_def distrib_left mult.assoc)
  then show ?case using Cons head by (simp add: q_def [symmetric])
qed simp

text \<open>The literal for \<open>0 < d\<close> says so.\<close>

lemma order_literal_holds:
  assumes "canonical d" and "fst (split_const d) \<noteq> []" and "0 < width t"
  shows "holds v f (order_literal t d) \<longleftrightarrow> 0 < pval v d"
proof -
  obtain pn c where sp: "split_const d = (pn, c)" by fastforce
  let ?g = "coef_gcd pn" and ?neg = "snd (hd pn) < 0"
  let ?et = "map (\<lambda>u. (fst u, (if ?neg then - snd u else snd u) sdiv ?g)) pn"
  let ?k = "if ?neg then - cdiv c ?g else - fdiv (- c) ?g"
  have nz: "\<forall>t \<in> set pn. snd t \<noteq> 0"
    using assms(1) sp by (auto simp: split_const_def canonical_sorted_wrt)
  have g: "\<forall>t \<in> set pn. ?g dvd snd t" "0 < ?g" using coef_gcd_dvd [OF nz] assms(2) sp by simp_all
  have val: "pval v d = pval v pn + c" using split_const_val [OF assms(1), of v] by (simp add: sp)
  have et: "?g * pval v ?et = (if ?neg then - pval v pn else pval v pn)" by (rule pval_scaled [OF g])
  have "wrap t 0 = 0" using assms(3) by (intro wrap_in_range) (simp_all add: in_range_def)
  then have lit: "holds v f (order_literal t d) \<longleftrightarrow> (if ?neg then pval v ?et + ?k < 0 else 0 < pval v ?et + ?k)"
    by (simp add: order_literal_def sp Let_def)
  show ?thesis
  proof (cases ?neg)
    case True
    define q where "q = pval v ?et"
    have "0 < pval v d \<longleftrightarrow> \<not> - q * ?g \<le> - c" using et True val by (simp add: q_def mult.commute) linarith
    also have "\<dots> \<longleftrightarrow> \<not> - q \<le> (- c) div ?g" using int_le_div [OF g(2), of "- q" "- c"] by simp
    finally show ?thesis using lit True g(2) by (simp add: cdiv_div q_def) linarith
  next
    case False
    define q where "q = pval v ?et"
    have "0 < pval v d \<longleftrightarrow> \<not> q * ?g \<le> - c" using et False val by (simp add: q_def mult.commute) linarith
    also have "\<dots> \<longleftrightarrow> \<not> q \<le> (- c) div ?g" using int_le_div [OF g(2), of q "- c"] by simp
    finally show ?thesis using lit False g(2) by (simp add: fdiv_div q_def) linarith
  qed
qed

definition canonical_side :: "expr \<Rightarrow> bool" where
  "canonical_side e \<longleftrightarrow> (\<forall>t ts. e = EPoly t ts \<longrightarrow> canonical ts \<and> 1 < width t)"

lemma constInt_poly: "constInt (EPoly t ts) = (case ts of [] \<Rightarrow> Some 0 | [u] \<Rightarrow> (if fst u = [] then Some (snd u) else None) | _ \<Rightarrow> None)"
  by (cases "EPoly t ts" rule: constInt.cases) auto

lemma constInt_None_iff:
  assumes "canonical ts"
  shows "constInt (EPoly t ts) = None \<longleftrightarrow> (\<exists>m. m \<noteq> [] \<and> coef ts m \<noteq> 0)"
proof -
  have member: "(\<exists>m. m \<noteq> [] \<and> coef ts m \<noteq> 0) \<longleftrightarrow> (\<exists>u \<in> set ts. fst u \<noteq> [])"
    using canonical_mem [OF assms] by (metis prod.collapse fst_conv)
  have "constInt (EPoly t ts) = None \<longleftrightarrow> (\<exists>u \<in> set ts. fst u \<noteq> [])"
  proof (cases "\<exists>u u' us. ts = u # u' # us")
    case True
    then obtain u u' us where ts: "ts = u # u' # us" by blast
    with assms have "fst u < fst u'" by simp
    then have "fst u' \<noteq> []" by auto
    with ts show ?thesis by (simp add: constInt_poly)
  next
    case False
    then have "ts = [] \<or> (\<exists>u. ts = [u])" by (metis list.exhaust)
    then show ?thesis by (auto simp: constInt_poly)
  qed
  then show ?thesis by (simp only: member)
qed

lemma split_const_nonconst: "canonical ts \<Longrightarrow> constInt (EPoly t ts) = None \<Longrightarrow> fst (split_const ts) \<noteq> []"
  using canonical_mem [of ts] constInt_None_iff [of ts t] by (force simp: split_const_def filter_empty_conv)

lemma coef_ops [simp]: "coef (add_terms a b) m = coef a m + coef b m" "coef (sub_terms a b) m = coef a m - coef b m"
  by (simp_all add: coef_def)

lemma mkInt_terms: "canonical (terms_of (mkInt t k))" "coef (terms_of (mkInt t k)) m = (if m = [] then wrap t k else 0)"
  "pval v (terms_of (mkInt t k)) = wrap t k"
  by (simp_all add: mkInt_def polyConst_def mkPoly_def)

lemma shift_const [simp]:
  "canonical ts \<Longrightarrow> constInt (EPoly t (sub_terms ts (terms_of (mkInt u k)))) = None \<longleftrightarrow> constInt (EPoly t ts) = None"
  "canonical ts \<Longrightarrow> constInt (EPoly t (add_terms ts (terms_of (mkInt u k)))) = None \<longleftrightarrow> constInt (EPoly t ts) = None"
  by (auto simp: constInt_None_iff mkInt_terms)

lemma wrap_one: "1 < width t \<Longrightarrow> wrap t 1 = 1"
proof -
  assume "1 < width t"
  then have "(2 :: int) ^ 1 \<le> 2 ^ (width t - 1)" by (intro power_increasing) simp_all
  then show ?thesis using \<open>1 < width t\<close> by (intro wrap_in_range) (simp_all add: in_range_def)
qed

text \<open>Two sides \<open>cmp\<close> compares: canonical, of one type; constants to compare are in its range.\<close>

definition comparable :: "expr \<Rightarrow> expr \<Rightarrow> bool" where
  "comparable a b \<longleftrightarrow> canonical_side a \<and> canonical_side b \<and> type_of a = type_of b \<and> 0 < width (type_of a) \<and>
     (\<forall>ca cb. constInt a = Some ca \<and> constInt b = Some cb \<longrightarrow> in_range (width (type_of a)) ca \<and> in_range (width (type_of a)) cb)"

lemma icmp_compare_range:
  "in_range w x \<Longrightarrow> in_range w y \<Longrightarrow> 0 < w \<Longrightarrow> icmp_compare w p x y = icmp w p x y"
  using sext_in_range [of w x] sext_in_range [of w y] take_bit_sext [of w x] sext_take_bit [of w x] sext_take_bit [of w y]
  by (cases p) (simp, metis, simp, metis, simp_all)

lemma same_poly_holds:
  "holds v f (same_poly p a b) \<longleftrightarrow> icmp (width (type_of a)) p (ev v f a) (ev v f b)"
  by (cases p) (auto simp: same_poly_def mkBool_def sext_def)

lemma order_cmp_holds:
  assumes "canonical d" and "0 < width t"
  shows "holds v f (order_cmp t d) \<longleftrightarrow> 0 < pval v d"
proof (cases "constInt (EPoly t d)")
  case None
  with order_literal_holds [OF assms(1) split_const_nonconst [OF assms(1) None] assms(2)] show ?thesis
    by (simp add: order_cmp_def)
next
  case (Some k)
  with constInt_ev [OF Some, of v] show ?thesis by (simp add: order_cmp_def mkBool_def sext_def)
qed

lemma both_poly_Some: "both_poly a b = Some (ta, as, tb, bs) \<longleftrightarrow> a = EPoly ta as \<and> b = EPoly tb bs"
  by (cases "(a, b)" rule: both_poly.cases) auto

text \<open>Moving a constant keeps the sides comparable.\<close>

lemma comparable_shift:
  assumes "comparable (EPoly t as) (EPoly t bs)" and "constInt (EPoly t as) = None \<or> constInt (EPoly t bs) = None"
    and "canonical as'" "canonical bs'"
    and "constInt (EPoly t as') = None \<longleftrightarrow> constInt (EPoly t as) = None"
    and "constInt (EPoly t bs') = None \<longleftrightarrow> constInt (EPoly t bs) = None"
  shows "comparable (EPoly t as') (EPoly t bs')"
  using assms by (auto simp: comparable_def canonical_side_def)

lemma cmp_poly_holds:
  assumes "cmp_poly p a b = Some e"
  shows "comparable a b \<longrightarrow> holds v f e = icmp (width (type_of a)) p (ev v f a) (ev v f b)"
  using assms
proof (rule cmp_poly.raw_induct [rotated], goal_cases)
  case (1 rec p a b e)
  note IH = 1(1) and run = 1(2)
  show ?case
  proof
  assume cmpb: "comparable a b"
  show "holds v f e = icmp (width (type_of a)) p (ev v f a) (ev v f b)"
  proof (cases "constInt a \<noteq> None \<and> constInt b \<noteq> None")
    case True
    then obtain ca cb where c: "constInt a = Some ca" "constInt b = Some cb" by auto
    then have "e = mkBool (icmp_compare (width (type_of a)) p ca cb)" using run by simp
    with cmpb c show ?thesis
      using constInt_ev [OF c(1), of v f] constInt_ev [OF c(2), of v f]
      by (auto simp: comparable_def icmp_compare_range mkBool_def sext_def)
  next
    case nonconst: False
    show ?thesis
    proof (cases "both_poly a b")
      case None
      with nonconst run have "e = same_poly p a b" by (auto split: if_splits)
      then show ?thesis by (simp add: same_poly_holds)
    next
      case (Some q)
      then obtain t as bs where ab: "a = EPoly t as" "b = EPoly t bs"
        using cmpb by (cases q) (auto simp: both_poly_Some comparable_def)
      with cmpb have can: "canonical as" "canonical bs" and w: "1 < width t" "0 < width t"
        by (auto simp: comparable_def canonical_side_def)
      note c = cmpb [unfolded ab] nonconst [unfolded ab de_Morgan_conj not_not]
      note shift = comparable_shift [OF c] can
      note val = mkInt_terms(3) wrap_one [OF w(1)]
      consider "p = SLE" | "p = SGE" | "p = SLT \<and> t \<noteq> PtrT" | "p = SGT \<and> t \<noteq> PtrT" |
        "p \<noteq> SLE" "p \<noteq> SGE" "\<not> (p = SLT \<and> t \<noteq> PtrT)" "\<not> (p = SGT \<and> t \<noteq> PtrT)" by blast
      then show ?thesis
      proof cases
        case 1
        with run nonconst ab have "rec SLT (EPoly t (sub_terms as (terms_of (mkInt t 1)))) b = Some e" by (auto split: if_splits)
        from IH [OF this] show ?thesis using shift ab val 1 by (simp add: mkInt_terms(1)) linarith
      next
        case 2
        with run nonconst ab have "rec SGT (EPoly t (add_terms as (terms_of (mkInt t 1)))) b = Some e" by (auto split: if_splits)
        from IH [OF this] show ?thesis using shift ab val 2 by (simp add: mkInt_terms(1))
      next
        case 3
        with run nonconst ab have "e = order_cmp t (sub_terms bs as)" by (auto split: if_splits)
        then show ?thesis using 3 ab w(2) by (simp add: order_cmp_holds)
      next
        case 4
        with run nonconst ab have "e = order_cmp t (sub_terms as bs)" by (auto split: if_splits)
        then show ?thesis using 4 ab w(2) by (simp add: order_cmp_holds)
      next
        case 5
        show ?thesis
        proof (cases "(p = EQ \<or> p = NE \<or> isSigned p) \<and> const_term bs \<noteq> None")
          case True
          then obtain k where k: "const_term bs = Some k" by auto
          let ?k = "terms_of (mkInt t k)"
          have "rec p (EPoly t (sub_terms as ?k)) (EPoly t (sub_terms bs ?k)) = Some e"
            using run nonconst ab 5 True k by (auto split: if_splits)
          from IH [OF this] have "holds v f e = icmp (width t) p (pval v as - wrap t k) (pval v bs - wrap t k)"
            using shift val by simp
          also have "\<dots> = icmp (width t) p (pval v as) (pval v bs)"
            using True by (cases p) (simp_all add: isSigned_def)
          finally show ?thesis by (simp add: ab)
        next
          case False
          with run nonconst ab 5 have "e = same_poly p a b" by (auto split: option.splits if_splits)
          then show ?thesis by (simp only: same_poly_holds)
        qed
      qed
    qed
  qed
  qed
qed

lemma cmp_operand_ev:
  assumes "cmp_operand a A = (a', A')"
  shows "prefix A A' \<and> type_of a' = type_of a \<and> (consistent v f A' \<longrightarrow> ev v f a' = ev v f a)"
  using assms asPoly_ev [of a A a' A' v f] by (auto simp: cmp_operand_def split: if_splits)

text \<open>C8: the literal \<open>cmp\<close> returns for two comparable sides is true exactly when the comparison is,
  signed orders and equality on the integers, unsigned orders on the bits.\<close>

theorem cmp_value:
  assumes "cmp_operand a A = (a', B)" and "cmp_operand b B = (b', A')" and "comparable a' b'"
    and "cmp p a b A = (Some e, A')" and "consistent v f A'"
  shows "holds v f e \<longleftrightarrow> icmp (width (type_of a)) p (ev v f a) (ev v f b)"
proof -
  have "cmp_poly p a' b' = Some e" using assms(1,2,4) by (simp add: cmp_def)
  note h = cmp_poly_holds [OF this, of v f, rule_format, OF assms(3)]
  have "consistent v f B" using cmp_operand_ev [OF assms(2)] consistent_prefix assms(5) by blast
  then show ?thesis
    using h cmp_operand_ev [OF assms(1), of v f] cmp_operand_ev [OF assms(2), of v f] assms(5) by simp
qed

lemma const_term_Some: "canonical ts \<Longrightarrow> const_term ts = Some k \<longleftrightarrow> coef ts [] = k \<and> k \<noteq> 0"
proof (induction ts)
  case (Cons t ts)
  have z: "coef ts [] = 0" if "fst t = []"
    using that Cons.prems by (intro canonical_coef_less) (auto simp: canonical_Cons)
  then show ?case
    using Cons by (cases "fst t = []") (auto simp: const_term_def canonical_Cons)
qed (simp add: const_term_def)

lemma const_term_None: "canonical ts \<Longrightarrow> const_term ts = None \<longleftrightarrow> coef ts [] = 0"
  using const_term_Some [of ts] by (metis not_None_eq option.inject)

text \<open>\<open>cmp\<close> returns whenever the constant term of the right-hand side is a value of its type.\<close>

lemma cmp_poly_returns:
  assumes "canonical as" and "canonical bs" and "wrap t (coef bs []) = coef bs []"
  shows "\<exists>e. cmp_poly p (EPoly t as) (EPoly t bs) = Some e"
proof -
  have base: "\<exists>e. cmp_poly p (EPoly t as) (EPoly t bs) = Some e"
    if "canonical bs" "coef bs [] = 0" "p \<noteq> SLE" "p \<noteq> SGE" for p as bs
  proof -
    have "const_term bs = None" using that by (simp add: const_term_None)
    then show ?thesis using that(3,4) by (subst cmp_poly.simps) simp
  qed
  have step: "\<exists>e. cmp_poly p (EPoly t as) (EPoly t bs) = Some e" if p: "p \<noteq> SLE" "p \<noteq> SGE" for p as
  proof (cases "const_term bs")
    case None
    then show ?thesis using base assms(2) p by (simp add: const_term_None)
  next
    case (Some k)
    then have k: "k = coef bs []" using const_term_Some [OF assms(2)] by simp
    have "coef (sub_terms bs (terms_of (mkInt t k))) [] = 0"
      using assms(3) k by (simp add: mkInt_terms)
    from base [OF _ this p] obtain e where
      "cmp_poly p (EPoly t (sub_terms as (terms_of (mkInt t k)))) (EPoly t (sub_terms bs (terms_of (mkInt t k)))) = Some e"
      by auto
    then show ?thesis using p Some by (subst cmp_poly.simps) auto
  qed
  show ?thesis
  proof (cases "p = SLE \<or> p = SGE")
    case True
    then show ?thesis using step by (subst cmp_poly.simps) auto
  qed (use step in simp)
qed

lemma cmp_poly_loops:
  assumes "cmp_poly p a b = Some e"
  shows "\<forall>as bs. a = EPoly t as \<and> b = EPoly t bs \<and> canonical as \<and> canonical bs \<and> 0 < width t \<and> (p = EQ \<or> p = NE) \<and>
    constInt a = None \<longrightarrow> wrap t (coef bs []) = coef bs []"
  using assms
proof (rule cmp_poly.raw_induct [rotated], goal_cases)
  case (1 rec p a b e)
  show ?case
  proof (intro allI impI, rule ccontr)
    fix as bs
    assume h: "a = EPoly t as \<and> b = EPoly t bs \<and> canonical as \<and> canonical bs \<and> 0 < width t \<and> (p = EQ \<or> p = NE) \<and> constInt a = None"
      and out: "wrap t (coef bs []) \<noteq> coef bs []"
    define k where "k = coef bs []"
    have "wrap t 0 = 0" using h by (intro wrap_in_range) (simp_all add: in_range_def)
    then have k: "const_term bs = Some k" using out h by (auto simp: const_term_Some k_def)
    let ?k = "terms_of (mkInt t k)"
    have "rec p (EPoly t (sub_terms as ?k)) (EPoly t (sub_terms bs ?k)) = Some e"
      using 1(2) h k by auto
    from 1(1) [OF this] have "wrap t (coef (sub_terms bs ?k) []) = coef (sub_terms bs ?k) []"
      using h by auto
    then have "wrap t (k - wrap t k) = k - wrap t k" by (simp add: mkInt_terms k_def)
    moreover have "wrap t (k - wrap t k) = 0"
    proof (cases "64 \<le> width t")
      case False
      have "take_bit (width t) (k - wrap t k) = take_bit (width t) 0"
        using take_bit_wrap [of t k] h take_bit_ops(2) [of "width t" k "wrap t k"] by simp
      then show ?thesis using False h sext_take_bit [of "width t" "k - wrap t k"]
        by (simp add: wrap_sext sext_def)
    qed (use out h in \<open>simp add: wrap_sext k_def\<close>)
    ultimately show False using out by (simp add: k_def)
  qed
qed

text \<open>C38: when the constant term of the right-hand side is not a value of the type, as the sum of a
  polynomial and a constant may leave it, a comparison for equality with a polynomial that is not constant
  never returns: moving the wrapped constant to the left leaves a constant that wraps to zero, which is
  moved for ever.\<close>

theorem cmp_never_returns:
  assumes "canonical as" and "canonical bs" and "0 < width t" and "constInt (EPoly t as) = None"
    and "wrap t (coef bs []) \<noteq> coef bs []"
  shows "cmp_poly EQ (EPoly t as) (EPoly t bs) = None"
  using cmp_poly_loops [of EQ "EPoly t as" "EPoly t bs" _ t] assms by (cases "cmp_poly EQ (EPoly t as) (EPoly t bs)") auto

subsection \<open>Concrete inputs\<close>

text \<open>A 32-bit symbol as atom 0, with the value 4.\<close>

abbreviation i32 :: sty where "i32 \<equiv> IntT 32"

definition demo_x :: expr where "demo_x = EPoly i32 [([0], 1)]"
definition demo_x3 :: expr where "demo_x3 = EPoly i32 [([], 3), ([0], 1)]"
definition demo_arena :: arena where "demo_arena = [ESym i32 0]"

lemma demo_consistent: "consistent (\<lambda>_. 4) (\<lambda>_. 4) demo_arena"
  by (simp add: consistent_def demo_arena_def)

theorem binop_int_value_witness:
  "\<exists>e. binop_int OpShl demo_x3 (mkInt i32 2) i32 demo_arena = (e, demo_arena) \<and> cong 32 (ev (\<lambda>_. 4) (\<lambda>_. 4) e) 28"
proof -
  obtain e where e: "binop_int OpShl demo_x3 (mkInt i32 2) i32 demo_arena = (e, demo_arena)"
    by (rule that [of "EPoly i32 [([], 12), ([0], 4)]"]) code_simp
  have r: "constInt demo_x3 = None" "constInt (mkInt i32 2) = Some 2" "ev (\<lambda>_. 4) (\<lambda>_. 4) demo_x3 = 7"
    "ev (\<lambda>_. 4) (\<lambda>_. 4) (mkInt i32 2) = 2"
    by (simp add: demo_x3_def, code_simp, simp add: demo_x3_def mval_def, simp, code_simp)
  have "cong (width i32) (ev (\<lambda>_. 4) (\<lambda>_. 4) e) 28"
    by (rule binop_int_value [OF e demo_consistent]) (simp_all only: r, simp_all add: in_range_def sem_bin_def)
  with e show ?thesis by auto
qed

theorem urem_minus_one_witness:
  "binop_int OpURem demo_x (mkInt i32 (- 1)) i32 demo_arena = (mkInt i32 0, demo_arena) \<and>
   sem_bin 32 OpURem (ev (\<lambda>_. 4) (\<lambda>_. 4) demo_x) (ev (\<lambda>_. 4) (\<lambda>_. 4) (mkInt i32 (- 1))) = Some 4"
  using urem_minus_one [of 32 "[([0], 1)]" "\<lambda>_. 4" demo_arena "\<lambda>_. 4"]
  by (simp add: demo_x_def mval_def)

theorem cast_int_value_witness:
  "cong 8 (ev (\<lambda>_. 4) (\<lambda>_. 4) (fst (cast_int OpTrunc demo_x3 (IntT 8) demo_arena))) 7"
proof -
  obtain e where e: "cast_int OpTrunc demo_x3 (IntT 8) demo_arena = (e, demo_arena)"
    by (rule that [of "EPoly (IntT 8) [([], 3), ([0], 1)]"]) code_simp
  from cast_int_value [OF e demo_consistent] show ?thesis
    unfolding e by (simp add: int_cast_def demo_x3_def mval_def)
qed

theorem cmp_value_witness:
  "\<exists>e. cmp SLE demo_x3 (mkInt i32 10) demo_arena = (Some e, demo_arena) \<and> (holds (\<lambda>_. 4) (\<lambda>_. 4) e \<longleftrightarrow> (7 :: int) \<le> 10)"
proof -
  have c: "sub_terms [([], 3), ([0], 1)] (terms_of (mkInt i32 1)) = [([], 2), ([0], 1)]" "mkInt i32 10 = EPoly i32 [([], 10)]"
    "order_cmp i32 (sub_terms [([], 10)] [([], 2), ([0], 1)]) = ECmp SLT (EPoly i32 [([], - 8), ([0], 1)]) (EPoly i32 [])"
    by code_simp+
  have "cmp_poly SLE demo_x3 (mkInt i32 10) = cmp_poly SLT (EPoly i32 [([], 2), ([0], 1)]) (mkInt i32 10)"
    unfolding demo_x3_def by (subst cmp_poly.simps) (simp add: c)
  also have "\<dots> = Some (ECmp SLT (EPoly i32 [([], - 8), ([0], 1)]) (EPoly i32 []))"
    by (subst cmp_poly.simps) (simp add: c)
  finally have run: "cmp_poly SLE demo_x3 (mkInt i32 10) = Some (ECmp SLT (EPoly i32 [([], - 8), ([0], 1)]) (EPoly i32 []))" .
  have o: "cmp_operand demo_x3 demo_arena = (demo_x3, demo_arena)"
    "cmp_operand (mkInt i32 10) demo_arena = (mkInt i32 10, demo_arena)" by code_simp+
  obtain e where e: "cmp SLE demo_x3 (mkInt i32 10) demo_arena = (Some e, demo_arena)"
    using o run by (simp add: cmp_def)
  have w: "wrap i32 10 = 10" by code_simp
  have "comparable demo_x3 (mkInt i32 10)"
    by (auto simp: comparable_def canonical_side_def demo_x3_def mkInt_def polyConst_def mkPoly_def)
  from cmp_value [OF o this e demo_consistent] e w show ?thesis
    by (simp add: demo_x3_def mkInt_def polyConst_def mkPoly_def mval_def)
qed

theorem cmp_poly_returns_witness: "\<exists>e. cmp_poly SGE demo_x3 (EPoly i32 [([], 5), ([0], 2)]) = Some e"
  unfolding demo_x3_def by (rule cmp_poly_returns; code_simp)

theorem cmp_never_returns_witness: "cmp_poly EQ demo_x (EPoly i32 [([], 2147483648), ([1], 1)]) = None"
  unfolding demo_x_def by (rule cmp_never_returns; code_simp)

end
