(* ===== verification/Sym_Facts.thy ===== *)
theory Sym_Facts
  imports Sym_Arena "HOL-Library.Product_Lexorder"
begin

text \<open>
  The decisions the symbolic executor takes on literals (\<open>conjuncts\<close>, \<open>litImplies\<close> and
  \<open>decideLit\<close> of \<open>cpp/mvcc-llvm/symexec.cpp\<close>). \<open>__int128\<close> values are integers: the bounds stay far
  inside its range.

  The lemmas show that each decision is right for every valuation of the atoms in which no value wraps:
  an implied literal holds where the implying one does, and a decided literal has the decided value.
\<close>

subsection \<open>Conjunctions and implication between literals\<close>

fun conjuncts :: "expr \<Rightarrow> expr list" where
  "conjuncts (EOp t op [a, b]) =
     (if op = OpAnd \<and> t = IntT 1 then conjuncts a @ conjuncts b else [EOp t op [a, b]])"
| "conjuncts e = (if isTrue e then [] else [e])"

definition lower_pred :: "pred \<Rightarrow> bool" where "lower_pred p \<longleftrightarrow> p = SGT \<or> p = SGE"
definition upper_pred :: "pred \<Rightarrow> bool" where "upper_pred p \<longleftrightarrow> p = SLT \<or> p = SLE"

text \<open>The loop over the terms of two polynomials that differ in the constant term only: the two
  constant terms.\<close>

function const_diff :: "terms \<Rightarrow> terms \<Rightarrow> int \<Rightarrow> int \<Rightarrow> (int \<times> int) option" where
  "const_diff xs ys cx cy =
     (if xs \<noteq> [] \<and> fst (hd xs) = [] then const_diff (tl xs) ys (snd (hd xs)) cy
      else if ys \<noteq> [] \<and> fst (hd ys) = [] then const_diff xs (tl ys) cx (snd (hd ys))
      else if xs = [] \<and> ys = [] then Some (cx, cy)
      else if xs = [] \<or> ys = [] then None
      else if hd xs \<noteq> hd ys then None
      else const_diff (tl xs) (tl ys) cx cy)"
  by pat_completeness auto
termination by (relation "measure (\<lambda>(xs, ys, cx, cy). length xs + length ys)") (auto simp: neq_Nil_conv)

declare const_diff.simps [simp del]

subsection \<open>Literals decided by facts\<close>

text \<open>The bounds on \<open>P - q\<close> so far, and whether any fact gave one.\<close>

record bounds =
  b_lo :: int
  b_hi :: int
  b_any :: bool

definition lo_limit :: int where "lo_limit = - (2 ^ 125)"
definition hi_limit :: int where "hi_limit = 2 ^ 125 - 1"

text \<open>One fact \<open>f\<close>. \<open>rhs\<close> is the right-hand side the bounds are against, \<open>None\<close> for an unsigned range
  test, whose facts compare with zero.\<close>

definition fact_order :: "pred \<Rightarrow> bool \<Rightarrow> int \<Rightarrow> bounds \<Rightarrow> bounds" where
  "fact_order op fZero cf B =
     (let op = (if fZero \<and> op = ULE then EQ else if fZero \<and> op = UGT then NE else op) in
      case op of
        SGT \<Rightarrow> B\<lparr>b_lo := max (b_lo B) (- cf + 1), b_any := True\<rparr>
      | SGE \<Rightarrow> B\<lparr>b_lo := max (b_lo B) (- cf), b_any := True\<rparr>
      | SLT \<Rightarrow> B\<lparr>b_hi := min (b_hi B) (- cf - 1), b_any := True\<rparr>
      | SLE \<Rightarrow> B\<lparr>b_hi := min (b_hi B) (- cf), b_any := True\<rparr>
      | EQ \<Rightarrow> B\<lparr>b_lo := max (b_lo B) (- cf), b_hi := min (b_hi B) (- cf), b_any := True\<rparr>
      | _ \<Rightarrow> B)"

definition fact_bound :: "sty \<Rightarrow> terms \<Rightarrow> expr option \<Rightarrow> expr \<Rightarrow> bounds \<Rightarrow> bounds" where
  "fact_bound t pl rhs l B =
     (case l of
        ECmp op (EPoly tf fs) fb \<Rightarrow>
          if tf \<noteq> t then B
          else
            let (pf, cf) = split_const fs;
                rhsZero = (case rhs of None \<Rightarrow> True | Some r \<Rightarrow> constInt r = Some 0);
                fZero = (constInt fb = Some 0)
            in if pf \<noteq> pl then B
               else if rhsZero \<and> \<not> fZero then
                 (case constInt fb of
                    Some fC \<Rightarrow>
                      if (op = ULT \<or> op = ULE) \<and> 0 \<le> fC
                      then B\<lparr>b_lo := max (b_lo B) (- cf), b_hi := min (b_hi B) (fC - cf - (if op = ULT then 1 else 0)), b_any := True\<rparr>
                      else B
                  | None \<Rightarrow> B)
               else if (case rhs of None \<Rightarrow> \<not> fZero | Some r \<Rightarrow> fb \<noteq> r) then B
               else fact_order op fZero cf B
      | _ \<Rightarrow> B)"

text \<open>The verdict on \<open>v OP C\<close> for an unsigned order, where \<open>v\<close> is between \<open>vlo\<close> and \<open>vhi\<close>.\<close>

definition decide_unsigned :: "pred \<Rightarrow> int \<Rightarrow> int \<Rightarrow> int \<Rightarrow> bool option" where
  "decide_unsigned op uC vlo vhi =
     (let ltTrue = (if 0 \<le> uC then 0 \<le> vlo \<and> vhi < uC else 0 \<le> vlo \<or> vhi < uC);
          ltFalse = (if 0 \<le> uC then uC \<le> vlo \<or> vhi < 0 else uC \<le> vlo \<and> vhi < 0);
          leTrue = (if 0 \<le> uC then 0 \<le> vlo \<and> vhi \<le> uC else 0 \<le> vlo \<or> vhi \<le> uC);
          leFalse = (if 0 \<le> uC then uC < vlo \<or> vhi < 0 else uC < vlo \<and> vhi < 0)
      in case op of
           ULT \<Rightarrow> if ltTrue then Some True else if ltFalse then Some False else None
         | UGE \<Rightarrow> if ltTrue then Some False else if ltFalse then Some True else None
         | ULE \<Rightarrow> if leTrue then Some True else if leFalse then Some False else None
         | UGT \<Rightarrow> if leTrue then Some False else if leFalse then Some True else None
         | _ \<Rightarrow> None)"

definition decide_signed :: "pred \<Rightarrow> int \<Rightarrow> int \<Rightarrow> bool option" where
  "decide_signed op vlo vhi =
     (case op of
        SGT \<Rightarrow> if 0 < vlo then Some True else if vhi \<le> 0 then Some False else None
      | SGE \<Rightarrow> if 0 \<le> vlo then Some True else if vhi < 0 then Some False else None
      | SLT \<Rightarrow> if vhi < 0 then Some True else if 0 \<le> vlo then Some False else None
      | SLE \<Rightarrow> if vhi \<le> 0 then Some True else if 0 < vlo then Some False else None
      | EQ \<Rightarrow> if vlo = vhi then Some (vlo = 0) else if 0 < vlo \<or> vhi < 0 then Some False else None
      | NE \<Rightarrow> if vlo = vhi then Some (vlo \<noteq> 0) else if 0 < vlo \<or> vhi < 0 then Some True else None
      | _ \<Rightarrow> None)"

text \<open>\<open>None\<close> when the facts do not decide the literal.\<close>

definition decideLit :: "expr \<Rightarrow> expr list \<Rightarrow> bool option" where
  "decideLit l facts =
     (case l of
        ECmp op a b \<Rightarrow>
          if constInt b = Some 0 \<and> op = UGE then Some True
          else if constInt b = Some 0 \<and> op = ULT then Some False
          else (case a of
            EPoly t ts \<Rightarrow>
              if isUnsigned op \<and> constInt b = None then None
              else
                let (pl, cl) = split_const ts;
                    B = fold (fact_bound t pl (if isUnsigned op then None else Some b)) facts
                          \<lparr>b_lo = lo_limit, b_hi = hi_limit, b_any = False\<rparr>
                in if \<not> b_any B then None
                   else if isUnsigned op then decide_unsigned op (the (constInt b)) (b_lo B + cl) (b_hi B + cl)
                   else decide_signed op (b_lo B + cl) (b_hi B + cl)
          | _ \<Rightarrow> None)
      | _ \<Rightarrow> None)"

text \<open>\<open>semantic\<close> is the field of the arena that turns the last case on.\<close>

definition litImplies :: "bool \<Rightarrow> expr \<Rightarrow> expr \<Rightarrow> bool" where
  "litImplies semantic x y \<longleftrightarrow> x = y \<or>
     (case (x, y) of
        (ECmp px xa xb, ECmp py ya yb) \<Rightarrow>
          xb = yb \<and>
          (if \<not> (lower_pred px \<and> lower_pred py \<or> upper_pred px \<and> upper_pred py)
           then semantic \<and> (py = NE \<or> py = EQ) \<and> decideLit y [x] = Some True
           else
             (case both_poly xa ya of
                None \<Rightarrow> False
              | Some (tx, xs, ty, ys) \<Rightarrow> tx = ty \<and>
                  (case const_diff xs ys 0 0 of
                     None \<Rightarrow> False
                   | Some (cx, cy) \<Rightarrow>
                       if lower_pred px
                       then - cy + (if py = SGT then 1 else 0) \<le> - cx + (if px = SGT then 1 else 0)
                       else - cx - (if px = SLT then 1 else 0) \<le> - cy - (if py = SLT then 1 else 0))))
      | _ \<Rightarrow> False)"

subsection \<open>The decisions are right\<close>

text \<open>A literal of which no side wraps: the values are in the range of the type, at most 64 bits wide, and
  the polynomial on the left is canonical and has an \<open>int64_t\<close> constant.\<close>

fun tame_side :: "(nat \<Rightarrow> int) \<Rightarrow> (expr \<Rightarrow> int) \<Rightarrow> nat \<Rightarrow> expr \<Rightarrow> bool" where
  "tame_side v f w (EPoly t ts) = (in_range w (pval v ts) \<and> canonical ts \<and> \<bar>snd (split_const ts)\<bar> \<le> 2 ^ 63)"
| "tame_side v f w e = in_range w (ev v f e)"

fun tame :: "(nat \<Rightarrow> int) \<Rightarrow> (expr \<Rightarrow> int) \<Rightarrow> expr \<Rightarrow> bool" where
  "tame v f (ECmp p a b) =
     (0 < width (type_of a) \<and> width (type_of a) \<le> 64 \<and> tame_side v f (width (type_of a)) a \<and> tame_side v f (width (type_of a)) b)"
| "tame v f e = True"

lemma tame_side_range: "tame_side v f w e \<Longrightarrow> in_range w (ev v f e)"
  by (cases e) simp_all

lemma in_range_64: "in_range w x \<Longrightarrow> w \<le> 64 \<Longrightarrow> - (2 ^ 63) \<le> x \<and> x < 2 ^ 63"
proof -
  assume r: "in_range w x" "w \<le> 64"
  have "(2 :: int) ^ (w - 1) \<le> 2 ^ 63" using r(2) by (intro power_increasing) simp_all
  with r(1) show ?thesis unfolding in_range_def by linarith
qed

text \<open>Reading a value in range as unsigned: a negative one is above all the others.\<close>

lemma take_bit_range:
  assumes "in_range w x" and "0 < w"
  shows "take_bit w x = (if 0 \<le> x then x else x + 2 ^ w)"
proof -
  have w: "(2 :: int) ^ w = 2 * 2 ^ (w - 1)" using assms(2) by (cases w) simp_all
  show ?thesis
  proof (cases "0 \<le> x")
    case True
    with assms(1) have "x < 2 ^ w" unfolding in_range_def w by linarith
    with True show ?thesis by (simp add: take_bit_int_eq_self)
  next
    case False
    with assms(1) have "0 \<le> x + 2 ^ w" "x + 2 ^ w < 2 ^ w" unfolding in_range_def w by linarith+
    then have "take_bit w (x + 2 ^ w) = x + 2 ^ w" by (simp add: take_bit_int_eq_self)
    moreover have "take_bit w (x + 2 ^ w) = take_bit w x" by (simp add: take_bit_eq_mod)
    ultimately show ?thesis using False by simp
  qed
qed

lemma unsigned_less:
  assumes "in_range w x" and "in_range w y" and "0 < w"
  shows "take_bit w x < take_bit w y \<longleftrightarrow> (if 0 \<le> y then 0 \<le> x \<and> x < y else 0 \<le> x \<or> x < y)"
    and "take_bit w x \<le> take_bit w y \<longleftrightarrow> (if 0 \<le> y then 0 \<le> x \<and> x \<le> y else 0 \<le> x \<or> x \<le> y)"
proof -
  have w: "(2 :: int) ^ w = 2 * 2 ^ (w - 1)" using assms(3) by (cases w) simp_all
  show "take_bit w x < take_bit w y \<longleftrightarrow> (if 0 \<le> y then 0 \<le> x \<and> x < y else 0 \<le> x \<or> x < y)"
    "take_bit w x \<le> take_bit w y \<longleftrightarrow> (if 0 \<le> y then 0 \<le> x \<and> x \<le> y else 0 \<le> x \<or> x \<le> y)"
    using assms(1,2) unfolding take_bit_range [OF assms(1,3)] take_bit_range [OF assms(2,3)] in_range_def w
    by (auto; linarith)+
qed

abbreviation between :: "bounds \<Rightarrow> int \<Rightarrow> bool" where
  "between B x \<equiv> b_lo B \<le> x \<and> x \<le> b_hi B"

lemma fact_order_between:
  assumes "between B (x - q)" and "icmp w op (x + cf) q" and "fZero \<Longrightarrow> q = 0" and "0 < w" and "in_range w (x + cf)" and "in_range w q"
  shows "between (fact_order op fZero cf B) (x - q)"
proof -
  have u: "op = ULE \<Longrightarrow> fZero \<Longrightarrow> x + cf = 0"
    using assms(2,3) unsigned_less(2) [OF assms(5,6,4)] by auto
  show ?thesis using assms(1-3) u by (cases op) (auto simp: fact_order_def)
qed

lemma fact_bound_between:
  assumes "between B (x - (case rhs of None \<Rightarrow> 0 | Some r \<Rightarrow> ev v f r))" and "x = pval v pl"
    and "holds v f l" and "tame v f l" and "fact_bound t pl rhs l B = B'"
  shows "between B' (x - (case rhs of None \<Rightarrow> 0 | Some r \<Rightarrow> ev v f r))"
proof (cases "\<exists>op tf fs fb. l = ECmp op (EPoly tf fs) fb")
  case True
  then obtain op tf fs fb where l: "l = ECmp op (EPoly tf fs) fb" by blast
  obtain pf cf where s: "split_const fs = (pf, cf)" by fastforce
  have fs: "pval v fs = pval v pf + cf" and w: "0 < width tf" and ra: "in_range (width tf) (pval v fs)"
    and rb: "in_range (width tf) (ev v f fb)" and h: "icmp (width tf) op (pval v fs) (ev v f fb)"
    using assms(3,4) split_const_val [of fs v] s tame_side_range unfolding l by auto
  let ?q = "case rhs of None \<Rightarrow> 0 | Some r \<Rightarrow> ev v f r"
  show ?thesis
  proof (cases "tf = t \<and> pf = pl")
    case False
    then show ?thesis using assms(1,5) by (auto simp: fact_bound_def l s)
  next
    case eq: True
    then have val: "pval v fs = x + cf" using fs assms(2) by simp
    consider (range) "(case rhs of None \<Rightarrow> True | Some r \<Rightarrow> constInt r = Some 0) \<and> constInt fb \<noteq> Some 0"
      | (skip) "\<not> ((case rhs of None \<Rightarrow> True | Some r \<Rightarrow> constInt r = Some 0) \<and> constInt fb \<noteq> Some 0)"
          "(case rhs of None \<Rightarrow> constInt fb \<noteq> Some 0 | Some r \<Rightarrow> fb \<noteq> r)"
      | (order) "\<not> ((case rhs of None \<Rightarrow> True | Some r \<Rightarrow> constInt r = Some 0) \<and> constInt fb \<noteq> Some 0)"
          "\<not> (case rhs of None \<Rightarrow> constInt fb \<noteq> Some 0 | Some r \<Rightarrow> fb \<noteq> r)" by blast
    then show ?thesis
    proof cases
      case range
      then have q: "?q = 0" using constInt_ev [of _ 0 v f] by (auto split: option.splits)
      show ?thesis
      proof (cases "\<exists>fC. constInt fb = Some fC \<and> (op = ULT \<or> op = ULE) \<and> 0 \<le> fC")
        case True
        then obtain fC where fC: "constInt fb = Some fC" "op = ULT \<or> op = ULE" "0 \<le> fC" by blast
        with constInt_ev [OF fC(1), of v f] h rb have "0 \<le> x + cf \<and> (if op = ULT then x + cf < fC else x + cf \<le> fC)"
          using unsigned_less [OF ra rb w] unfolding val by auto
        then show ?thesis using assms(1,5) q range eq fC by (auto simp: fact_bound_def l s split: option.splits)
      next
        case False
        then have "B' = B" using assms(5) range eq by (auto simp: fact_bound_def l s split: option.splits)
        then show ?thesis using assms(1) by simp
      qed
    next
      case skip
      then have "B' = B" using assms(5) eq s by (cases rhs) (auto simp: fact_bound_def l Let_def split: if_splits)
      then show ?thesis using assms(1) by simp
    next
      case order
      then have B': "B' = fact_order op (constInt fb = Some 0) cf B"
        using assms(5) eq s by (cases rhs) (auto simp: fact_bound_def l Let_def split: if_splits)
      have q: "ev v f fb = ?q" using order(2) constInt_ev [of fb 0 v f] by (auto split: option.splits)
      show ?thesis unfolding B'
        using fact_order_between [of B x ?q "width tf" op cf "constInt fb = Some 0"] assms(1) h ra rb w
          constInt_ev [of fb 0 v f] unfolding val q by auto
    qed
  qed
qed (use assms(1,5) in \<open>auto simp: fact_bound_def split: expr.splits\<close>)

lemma facts_between:
  assumes "between B (x - (case rhs of None \<Rightarrow> 0 | Some r \<Rightarrow> ev v f r))" and "x = pval v pl"
    and "\<forall>l \<in> set fs. holds v f l \<and> tame v f l"
  shows "between (fold (fact_bound t pl rhs) fs B) (x - (case rhs of None \<Rightarrow> 0 | Some r \<Rightarrow> ev v f r))"
  using assms(1,3)
proof (induction fs arbitrary: B)
  case (Cons l fs)
  then show ?case using fact_bound_between [OF Cons.prems(1) assms(2), of l t] by auto
qed simp

lemma decide_unsigned_right:
  assumes "decide_unsigned op uC vlo vhi = Some r" and "vlo \<le> x" and "x \<le> vhi"
    and "in_range w x" and "in_range w uC" and "0 < w"
  shows "icmp w op x uC = r"
proof -
  note u = unsigned_less [OF assms(4,5,6)]
  have i: "icmp w ULT x uC = (take_bit w x < take_bit w uC)" "icmp w UGE x uC = (\<not> take_bit w x < take_bit w uC)"
    "icmp w ULE x uC = (take_bit w x \<le> take_bit w uC)" "icmp w UGT x uC = (\<not> take_bit w x \<le> take_bit w uC)"
    by auto
  have "op = ULT \<or> op = UGE \<or> op = ULE \<or> op = UGT"
    using assms(1) by (cases op) (simp_all add: decide_unsigned_def Let_def)
  then show ?thesis
    using assms(1-3) by (elim disjE) (auto simp: decide_unsigned_def Let_def i u simp del: icmp.simps split: if_splits)
qed

lemma decide_signed_right:
  assumes "decide_signed op vlo vhi = Some r" and "vlo \<le> x - y" and "x - y \<le> vhi"
  shows "icmp w op x y = r"
  using assms by (cases op) (auto simp: decide_signed_def split: if_splits)

text \<open>C23: a literal the facts decide has the decided value wherever the facts hold and nothing wraps.\<close>

theorem decideLit_right:
  assumes "decideLit l facts = Some r" and "\<forall>g \<in> set facts. holds v f g" and "\<forall>g \<in> set (l # facts). tame v f g"
  shows "holds v f l = r"
proof -
  obtain op a b where l: "l = ECmp op a b" using assms(1) by (cases l) (simp_all add: decideLit_def)
  let ?w = "width (type_of a)"
  have w: "0 < ?w" "?w \<le> 64" and ra: "in_range ?w (ev v f a)" and rb: "in_range ?w (ev v f b)"
    using assms(3) tame_side_range unfolding l by auto
  show ?thesis
  proof (cases "constInt b = Some 0 \<and> (op = UGE \<or> op = ULT)")
    case True
    then have "ev v f b = 0" using constInt_ev by blast
    with True assms(1) show ?thesis unfolding l by (auto simp: decideLit_def)
  next
    case False
    then obtain t ts where a: "a = EPoly t ts"
      using assms(1) unfolding l by (cases a) (auto simp: decideLit_def split: if_splits)
    obtain pl cl where s: "split_const ts = (pl, cl)" by fastforce
    have c: "pval v ts = pval v pl + cl" "\<bar>cl\<bar> \<le> 2 ^ 63"
      using assms(3) split_const_val [of ts v] s unfolding l a by auto
    let ?rhs = "if isUnsigned op then None else Some b"
    let ?q = "case ?rhs of None \<Rightarrow> 0 | Some r \<Rightarrow> ev v f r"
    let ?B = "fold (fact_bound t pl ?rhs) facts \<lparr>b_lo = lo_limit, b_hi = hi_limit, b_any = False\<rparr>"
    have q: "- (2 ^ 63) \<le> ?q" "?q < 2 ^ 63" using in_range_64 [OF rb w(2)] by auto
    have "between \<lparr>b_lo = lo_limit, b_hi = hi_limit, b_any = False\<rparr> (pval v pl - ?q)"
      using q c in_range_64 [OF ra w(2)] unfolding a
      by (cases "isUnsigned op") (auto simp: lo_limit_def hi_limit_def abs_le_iff)
    then have B: "between ?B (pval v pl - ?q)" by (rule facts_between) (use assms(2,3) in auto)
    show ?thesis
    proof (cases "isUnsigned op")
      case True
      then obtain uC where u: "constInt b = Some uC" and d: "decide_unsigned op uC (b_lo ?B + cl) (b_hi ?B + cl) = Some r"
        using assms(1) False s unfolding l a by (auto simp: decideLit_def Let_def split: if_splits option.splits)
      from d have "icmp ?w op (ev v f a) uC = r"
        by (rule decide_unsigned_right) (use B True c w ra rb constInt_ev [OF u, of v f] in \<open>simp_all add: a\<close>)
      then show ?thesis using constInt_ev [OF u, of v f] by (simp add: l)
    next
      case False': False
      with False have d: "decide_signed op (b_lo ?B + cl) (b_hi ?B + cl) = Some r"
        using assms(1) s unfolding l a by (auto simp: decideLit_def Let_def split: if_splits)
      from d have "icmp ?w op (ev v f a) (ev v f b) = r"
        by (rule decide_signed_right) (use B False' c in \<open>simp_all add: a\<close>)
      then show ?thesis by (simp add: l)
    qed
  qed
qed

lemma const_diff_pval:
  "const_diff xs ys cx cy = Some (dx, dy) \<Longrightarrow> canonical xs \<Longrightarrow> canonical ys \<Longrightarrow>
   pval v xs + (if [] \<in> fst ` set xs then 0 else cx) - dx = pval v ys + (if [] \<in> fst ` set ys then 0 else cy) - dy"
proof (induction xs ys cx cy rule: const_diff.induct)
  case (1 xs ys cx cy)
  have c: "canonical (tl zs)" "[] \<notin> fst ` set (tl zs)" if "zs \<noteq> []" "canonical zs" for zs :: terms
    using that by (cases zs; auto simp: canonical_Cons)+
  consider (x) "xs \<noteq> [] \<and> fst (hd xs) = []" | (y) "\<not> (xs \<noteq> [] \<and> fst (hd xs) = [])" "ys \<noteq> [] \<and> fst (hd ys) = []"
    | (stop) "\<not> (xs \<noteq> [] \<and> fst (hd xs) = [])" "\<not> (ys \<noteq> [] \<and> fst (hd ys) = [])" "xs = [] \<and> ys = []"
    | (same) "\<not> (xs \<noteq> [] \<and> fst (hd xs) = [])" "\<not> (ys \<noteq> [] \<and> fst (hd ys) = [])" "\<not> (xs = [] \<and> ys = [])" by blast
  then show ?case
  proof cases
    case x
    then have "pval v (tl xs) + snd (hd xs) - dx = pval v ys + (if [] \<in> fst ` set ys then 0 else cy) - dy"
      using 1(1) [OF x] 1(4,5,6) c [of xs] by (simp add: const_diff.simps [of xs ys cx cy])
    then show ?thesis using x by (cases xs) (auto simp: image_iff)
  next
    case y
    then have "pval v xs + (if [] \<in> fst ` set xs then 0 else cx) - dx = pval v (tl ys) + snd (hd ys) - dy"
      using 1(2) [OF y] 1(4,5,6) c [of ys] y by (auto simp: const_diff.simps [of xs ys cx cy])
    then show ?thesis using y by (cases ys) (auto simp: image_iff)
  next
    case stop
    then show ?thesis using 1(4) by (auto simp: const_diff.simps [of "[]" "[]"])
  next
    case same
    then have ne: "xs \<noteq> []" "ys \<noteq> []" "hd xs = hd ys"
      using 1(4) by (auto simp: const_diff.simps [of xs ys cx cy] split: if_splits)
    then have "const_diff (tl xs) (tl ys) cx cy = Some (dx, dy)" using same 1(4) by (simp add: const_diff.simps [of xs ys cx cy])
    with 1(3) [OF same(1,2,3)] ne c 1(5,6)
    have "pval v (tl xs) + (if [] \<in> fst ` set (tl xs) then 0 else cx) - dx = pval v (tl ys) + (if [] \<in> fst ` set (tl ys) then 0 else cy) - dy"
      by simp
    then show ?thesis using ne same by (cases xs; cases ys) auto
  qed
qed

text \<open>A literal \<open>litImplies\<close> says another implies does imply it, wherever nothing wraps.\<close>

lemma litImplies_right:
  assumes "litImplies semantic x y" and "holds v f x" and "tame v f x" and "tame v f y"
  shows "holds v f y"
proof (cases "x = y")
  case False
  then obtain px xa xb py ya yb where l: "x = ECmp px xa xb" "y = ECmp py ya yb"
    using assms(1) by (cases x; cases y) (auto simp: litImplies_def)
  show ?thesis
  proof (cases "lower_pred px \<and> lower_pred py \<or> upper_pred px \<and> upper_pred py")
    case False': False
    with assms(1) False have "decideLit y [x] = Some True" unfolding l by (auto simp: litImplies_def)
    then show ?thesis using decideLit_right [of y "[x]" True v f] assms(2-4) by simp
  next
    case True
    with assms(1) False obtain tx xs ty ys cx cy where p: "xb = yb" "both_poly xa ya = Some (tx, xs, ty, ys)" "tx = ty" 
      "const_diff xs ys 0 0 = Some (cx, cy)" and
      d: "if lower_pred px then - cy + (if py = SGT then 1 else 0) \<le> - cx + (if px = SGT then 1 else 0)
          else - cx - (if px = SLT then 1 else 0) \<le> - cy - (if py = SLT then 1 else 0)"
      unfolding l by (auto simp: litImplies_def split: option.splits)
    then have a: "xa = EPoly tx xs" "ya = EPoly tx ys" by (simp_all add: both_poly_Some)
    have "pval v xs - cx = pval v ys - cy"
      using const_diff_pval [OF p(4), of v] assms(3,4) unfolding l a by simp
    then show ?thesis using assms(2) d True p(1)
      unfolding l a lower_pred_def upper_pred_def by (auto split: if_splits)
  qed
qed (use assms(2) in simp)

end
