(* ===== verification/Sym_Groups.thy ===== *)
theory Sym_Groups
  imports Sym_Facts
begin

text \<open>
  The test of the symbolic executor for conjunctions of literals without an integer solution
  (\<open>Arena::contradictory\<close> of \<open>cpp/mvcc-llvm/symexec.cpp\<close>). The literals are grouped by their
  polynomial; each group keeps a range and the excluded values. Atoms that are minima, maxima or
  quotients by a constant pass bounds on to the polynomial inside them, and take bounds from it.

  The map from polynomials to ranges is an association list in the order of \<open>std::map\<close>, in which the
  passes visit it. The main lemma shows that the test is right: literals that hold together are never
  found contradictory.
\<close>

subsection \<open>Groups of literals\<close>

record range =
  r_lo :: int
  r_hi :: int
  r_ne :: "int list"

definition full_range :: range where
  "full_range = \<lparr>r_lo = lo_limit, r_hi = hi_limit, r_ne = []\<rparr>"

type_synonym groups = "(terms \<times> range) list"

text \<open>\<open>groups[pn]\<close>, made if there is none, with its range changed.\<close>

fun at_group :: "terms \<Rightarrow> (range \<Rightarrow> range) \<Rightarrow> groups \<Rightarrow> groups" where
  "at_group k h [] = [(k, h full_range)]"
| "at_group k h ((l, r) # G) =
     (if l = k then (l, h r) # G
      else if k < l then (k, h full_range) # (l, r) # G
      else (l, r) # at_group k h G)"

text \<open>\<open>CmpInst::getSwappedPredicate\<close> on the integer predicates, the only ones that get here.\<close>

fun swapped :: "pred \<Rightarrow> pred" where
  "swapped SGT = SLT" | "swapped SGE = SLE" | "swapped SLT = SGT" | "swapped SLE = SGE"
| "swapped UGT = ULT" | "swapped UGE = ULE" | "swapped ULT = UGT" | "swapped ULE = UGE"
| "swapped p = p"

text \<open>The switch of the lambda \<open>bound\<close>: \<open>g pn OP t\<close> bounds \<open>pn\<close>.\<close>

definition narrow :: "pred \<Rightarrow> int \<Rightarrow> int \<Rightarrow> range \<Rightarrow> range" where
  "narrow op t g r =
     (case op of
        SGT \<Rightarrow> r\<lparr>r_lo := max (r_lo r) (fdiv t g + 1)\<rparr>
      | SGE \<Rightarrow> r\<lparr>r_lo := max (r_lo r) (cdiv t g)\<rparr>
      | SLT \<Rightarrow> r\<lparr>r_hi := min (r_hi r) (cdiv t g - 1)\<rparr>
      | SLE \<Rightarrow> r\<lparr>r_hi := min (r_hi r) (fdiv t g)\<rparr>
      | EQ \<Rightarrow> if t smod g \<noteq> 0 then r\<lparr>r_lo := 1, r_hi := 0\<rparr>
              else r\<lparr>r_lo := max (r_lo r) (t sdiv g), r_hi := min (r_hi r) (t sdiv g)\<rparr>
      | NE \<Rightarrow> if t smod g = 0 then r\<lparr>r_ne := List.insert (t sdiv g) (r_ne r)\<rparr> else r
      | _ \<Rightarrow> r)"

text \<open>The common factor of the coefficients, divided out.\<close>

definition all_gcd :: "terms \<Rightarrow> int" where
  "all_gcd pn = fold (\<lambda>u g. gcd g \<bar>snd u\<bar>) pn 0"

definition primitive :: "terms \<Rightarrow> terms \<times> int" where
  "primitive pn =
     (let g = all_gcd pn in if 1 < g then (map (\<lambda>u. (fst u, snd u sdiv g)) pn, g) else (pn, 1))"

definition bound :: "terms \<Rightarrow> int \<Rightarrow> pred \<Rightarrow> groups \<Rightarrow> groups" where
  "bound pn c op G = (let (pn, g) = primitive pn in at_group pn (narrow op (- c) g) G)"

text \<open>One sign for the polynomial: a negative leading coefficient turns the literal round.\<close>

definition orient :: "terms \<Rightarrow> int \<Rightarrow> pred \<Rightarrow> terms \<times> int \<times> pred" where
  "orient pn c op =
     (if snd (hd pn) < 0 then (map (\<lambda>u. (fst u, - snd u)) pn, - c, swapped op) else (pn, c, op))"

definition add_bound :: "terms \<Rightarrow> int \<Rightarrow> pred \<Rightarrow> groups \<Rightarrow> groups" where
  "add_bound pn c op G = (let (pn, c, op) = orient pn c op in bound pn c op G)"

definition half_int64 :: "int \<Rightarrow> bool" where
  "half_int64 c \<longleftrightarrow> - (2 ^ 62) \<le> c \<and> c \<le> 2 ^ 62 - 1"

subsection \<open>Minima, maxima and quotients\<close>

text \<open>A minimum (or maximum) with a constant: whether a minimum, the constant and what is clamped.\<close>

definition is_smin :: "string \<Rightarrow> bool" where "is_smin n \<longleftrightarrow> take 10 n = ''llvm.smin.''"
definition is_smax :: "string \<Rightarrow> bool" where "is_smax n \<longleftrightarrow> take 10 n = ''llvm.smax.''"

fun clamp_of :: "expr \<Rightarrow> (bool \<times> int \<times> expr) option" where
  "clamp_of (ECall t (Fn n) [x, y]) =
     (if is_smin n \<or> is_smax n then
        (case constInt y of
           Some k \<Rightarrow> if type_of x = t then Some (is_smin n, k, x) else None
         | None \<Rightarrow>
             (case constInt x of
                Some k \<Rightarrow> if type_of y = t then Some (is_smin n, k, y) else None
              | None \<Rightarrow> None))
      else None)"
| "clamp_of e = None"

text \<open>A quotient by a positive constant.\<close>

fun div_of :: "expr \<Rightarrow> (int \<times> expr) option" where
  "div_of (EOp t OpSDiv [x, y]) = (case constInt y of Some k \<Rightarrow> if 0 < k then Some (k, x) else None | None \<Rightarrow> None)"
| "div_of e = None"

fun unit_atom :: "terms \<Rightarrow> nat option" where
  "unit_atom [([i], c)] = (if c = 1 then Some i else None)"
| "unit_atom pn = None"

type_synonym progress = "arena + arena \<times> groups"

text \<open>An (in)equality of a clamp with a constant. \<open>Inl\<close> says that the literal never holds.\<close>

definition clamp_equal :: "pred \<Rightarrow> int \<Rightarrow> bool \<Rightarrow> int \<Rightarrow> expr \<Rightarrow> arena \<times> groups \<Rightarrow> progress" where
  "clamp_equal op c isMin k P S =
     (let (A, G) = S; v = - c; (dp, A) = asPoly P A; (pp, cp) = split_const (terms_of dp);
          derive = (\<lambda>op2 v2. if half_int64 (cp - v2) then add_bound pp (cp - v2) op2 G else G)
      in if pp = [] then Inr (A, G)
         else if op = NE then
           if v = k then Inr (A, derive (if isMin then SLT else SGT) k)
           else if isMin \<and> v < k \<or> \<not> isMin \<and> k < v then Inr (A, derive NE v)
           else Inr (A, G)
         else if isMin \<and> k < v \<or> \<not> isMin \<and> v < k then Inl A
         else if v = k then Inr (A, derive (if isMin then SGE else SLE) k)
         else Inr (A, derive EQ v))"

text \<open>\<open>boundPoly\<close>: \<open>v \<le> P\<close> or \<open>P \<le> v\<close>.\<close>

definition bound_poly :: "expr \<Rightarrow> int \<Rightarrow> bool \<Rightarrow> arena \<times> groups \<Rightarrow> arena \<times> groups" where
  "bound_poly P v lower S =
     (let (A, G) = S; (dp, A) = asPoly P A; (pp, c0) = split_const (terms_of dp); cp = - v + c0
      in if pp = [] \<or> \<not> half_int64 cp then (A, G)
         else (A, add_bound pp cp (if lower then SGE else SLE) G))"

definition quotient_bound :: "pred \<Rightarrow> int \<Rightarrow> int \<Rightarrow> expr \<Rightarrow> arena \<times> groups \<Rightarrow> arena \<times> groups" where
  "quotient_bound op c k P S =
     (let t = - c in
      if op = SGT \<or> op = SGE then
        let m = (if op = SGT then t + 1 else t) in bound_poly P (if 1 \<le> m then m * k else (m - 1) * k + 1) True S
      else
        let m = (if op = SLT then t - 1 else t) in bound_poly P (if 0 \<le> m then (m + 1) * k - 1 else m * k) False S)"

definition clamp_bound :: "pred \<Rightarrow> int \<Rightarrow> bool \<Rightarrow> int \<Rightarrow> expr \<Rightarrow> arena \<times> groups \<Rightarrow> progress" where
  "clamp_bound op c isMin k P S =
     (let (A, G) = S; lower = (op = SGT \<or> op = SGE); t = - c;
          kHolds = (if op = SGT then t < k else if op = SGE then t \<le> k else if op = SLT then k < t else k \<le> t);
          both = (isMin = lower)
      in if both \<and> \<not> kHolds then Inl A
         else if both \<or> \<not> kHolds then
           let (dp, A) = asPoly P A; (pp, c0) = split_const (terms_of dp)
           in if pp = [] then Inr (A, G) else Inr (A, add_bound pp (c + c0) op G)
         else Inr (A, G))"

subsection \<open>The test\<close>

text \<open>The literals it looks at: the integer comparisons that are not unsigned.\<close>

fun lit_sides :: "expr \<Rightarrow> (pred \<times> expr \<times> expr) option" where
  "lit_sides (ECmp op a b) =
     (if (op = EQ \<or> op = NE \<or> isSigned op) \<and> isIntegerTy (type_of a) \<and> type_of a \<noteq> IntT 1 \<and> type_of a = type_of b
         \<and> \<not> isUndef a \<and> \<not> isUndef b
      then Some (op, a, b) else None)"
| "lit_sides e = None"

definition atom_bounds :: "bool \<Rightarrow> pred \<Rightarrow> int \<Rightarrow> expr \<Rightarrow> arena \<times> groups \<Rightarrow> progress" where
  "atom_bounds clamps op c at S =
     (if op = EQ \<or> op = NE then
        (case clamp_of at of None \<Rightarrow> Inr S | Some (isMin, k, P) \<Rightarrow> clamp_equal op c isMin k P S)
      else if clamps then
        let S = (case div_of at of None \<Rightarrow> S | Some (k, P) \<Rightarrow> quotient_bound op c k P S) in
        (case clamp_of at of None \<Rightarrow> Inr S | Some (isMin, k, P) \<Rightarrow> clamp_bound op c isMin k P S)
      else Inr S)"

definition literal_step :: "bool \<Rightarrow> expr \<Rightarrow> arena \<times> groups \<Rightarrow> progress" where
  "literal_step clamps l S =
     (case lit_sides l of
        None \<Rightarrow> Inr S
      | Some (op, a, b) \<Rightarrow>
          (let (A, G) = S; (pa, A) = asPoly a A; (pb, A) = asPoly b A; (d, A) = sub pa pb A;
               (pn, c) = split_const (terms_of d)
           in if pn = [] then Inr (A, G)
              else
                let (pn, c, op) = orient pn c op; G = bound pn c op G in
                (case unit_atom pn of None \<Rightarrow> Inr (A, G) | Some i \<Rightarrow> atom_bounds clamps op c (A ! i) (A, G))))"

text \<open>How a bound on a polynomial maps to an atom.\<close>

definition bound_map :: "expr \<Rightarrow> ((int \<Rightarrow> int) \<times> expr) option" where
  "bound_map at =
     (case div_of at of
        Some (k, P) \<Rightarrow> if type_of P = type_of at then Some (\<lambda>x. x sdiv k, P) else None
      | None \<Rightarrow>
          (case clamp_of at of
             Some (isMin, k, P) \<Rightarrow> Some (if isMin then (\<lambda>x. min x k) else (\<lambda>x. max x k), P)
           | None \<Rightarrow> None))"

definition big_limit :: int where "big_limit = 2 ^ 124 - 1"

definition map_range :: "(int \<Rightarrow> int) \<Rightarrow> bool \<Rightarrow> int \<Rightarrow> int \<Rightarrow> range \<Rightarrow> range \<Rightarrow> range" where
  "map_range q pos g cp pr r =
     (let loB = - big_limit < r_lo pr; hiB = r_hi pr < big_limit;
          plo = (if pos then g * r_lo pr + cp else - g * r_hi pr + cp);
          phi = (if pos then g * r_hi pr + cp else - g * r_lo pr + cp);
          r = (if (if pos then loB else hiB) then r\<lparr>r_lo := max (r_lo r) (q plo)\<rparr> else r)
      in if (if pos then hiB else loB) then r\<lparr>r_hi := min (r_hi r) (q phi)\<rparr> else r)"

definition pass_step :: "terms \<Rightarrow> arena \<times> groups \<Rightarrow> progress" where
  "pass_step key S =
     (let (A, G) = S in
      case unit_atom key of
        None \<Rightarrow> Inr (A, G)
      | Some i \<Rightarrow>
          (case bound_map (A ! i) of
             None \<Rightarrow> Inr (A, G)
           | Some (q, P) \<Rightarrow>
               (let (dp, A) = asPoly P A; (pp, cp) = split_const (terms_of dp) in
                if pp = [] then Inr (A, G)
                else
                  let pos = (0 \<le> snd (hd pp));
                      (pk, g) = primitive (if pos then pp else map (\<lambda>u. (fst u, - snd u)) pp)
                  in case map_of G pk of
                       None \<Rightarrow> Inr (A, G)
                     | Some pr \<Rightarrow>
                         if r_hi pr < r_lo pr then Inl A
                         else Inr (A, at_group key (map_range q pos g cp pr) G))))"

text \<open>A loop over a list that an \<open>Inl\<close> ends.\<close>

fun run_steps :: "('a \<Rightarrow> arena \<times> groups \<Rightarrow> progress) \<Rightarrow> 'a list \<Rightarrow> arena \<times> groups \<Rightarrow> progress" where
  "run_steps h [] S = Inr S"
| "run_steps h (x # xs) S = (case h x S of Inl A \<Rightarrow> Inl A | Inr S \<Rightarrow> run_steps h xs S)"

definition run_passes :: "arena \<times> groups \<Rightarrow> progress" where
  "run_passes S = run_steps pass_step (map fst (snd S) @ map fst (snd S)) S"

definition exhausted :: "range \<Rightarrow> bool" where
  "exhausted r \<longleftrightarrow> r_hi r < r_lo r \<or>
     (r_hi r - r_lo r + 1 \<le> int (length (r_ne r)) \<and> list_all (\<lambda>v. v \<in> set (r_ne r)) [r_lo r..r_hi r])"

definition contradictory :: "expr list \<Rightarrow> bool \<Rightarrow> arena \<Rightarrow> bool \<times> arena" where
  "contradictory lits clamps A =
     (case run_steps (literal_step clamps) lits (A, []) of
        Inl A \<Rightarrow> (True, A)
      | Inr S \<Rightarrow>
          (case (if clamps then run_passes S else Inr S) of
             Inl A \<Rightarrow> (True, A)
           | Inr (A, G) \<Rightarrow> (list_ex (\<lambda>kr. exhausted (snd kr)) G, A)))"

subsection \<open>The test is right\<close>

text \<open>Every group's range holds the value of its polynomial, which is far from the limits.\<close>

definition fits :: "int \<Rightarrow> range \<Rightarrow> bool" where
  "fits x r \<longleftrightarrow> r_lo r \<le> x \<and> x \<le> r_hi r \<and> x \<notin> set (r_ne r)"

definition moderate :: "int \<Rightarrow> bool" where
  "moderate x \<longleftrightarrow> \<bar>x\<bar> \<le> hi_limit"

definition sound_groups :: "(nat \<Rightarrow> int) \<Rightarrow> groups \<Rightarrow> bool" where
  "sound_groups v G \<longleftrightarrow> (\<forall>(k, r) \<in> set G. fits (pval v k) r \<and> moderate (pval v k))"

lemma sound_at_group:
  assumes "sound_groups v G" and "\<And>r. fits (pval v k) r \<Longrightarrow> fits (pval v k) (h r)" and "moderate (pval v k)"
  shows "sound_groups v (at_group k h G)"
proof -
  have "fits (pval v k) full_range" using assms(3) by (auto simp: fits_def full_range_def moderate_def lo_limit_def hi_limit_def)
  with assms show ?thesis by (induction k h G rule: at_group.induct) (auto simp: sound_groups_def)
qed

lemma icmp_swapped: "\<not> isUnsigned op \<Longrightarrow> (\<And>n. op \<noteq> FCmp n) \<Longrightarrow> icmp w (swapped op) (- x) 0 = icmp w op x 0"
  by (cases op) (auto simp: isUnsigned_def)

lemma smod_sdiv_pos:
  fixes g t :: int
  assumes "0 < g"
  shows "t smod g = 0 \<longleftrightarrow> g dvd t" and "g dvd t \<Longrightarrow> t sdiv g = t div g"
proof -
  show "t sdiv g = t div g" if "g dvd t"
    using that assms by (auto simp: signed_divide_int_def sgn_mult abs_mult sgn_mult_abs elim!: dvdE)
  show "t smod g = 0 \<longleftrightarrow> g dvd t"
    using assms by (auto simp: signed_modulo_int_def sgn_if mod_eq_0_iff_dvd)
qed

lemma narrow_fits:
  assumes "fits x r" and "icmp w op (g * x + c) 0" and "0 < g"
  shows "fits x (narrow op (- c) g r)"
proof -
  have lo: "fdiv (- c) g < x" if "- c < g * x"
    using that assms(3) int_le_div [OF assms(3), of x "- c"] by (auto simp: fdiv_div mult.commute not_le [symmetric])
  have le: "x \<le> fdiv (- c) g" if "g * x \<le> - c"
    using that assms(3) int_le_div [OF assms(3), of x "- c"] by (simp add: fdiv_div mult.commute)
  have ge: "cdiv (- c) g \<le> x" if "- c \<le> g * x"
    using that assms(3) int_le_div [OF assms(3), of "- x" c] by (simp add: cdiv_div mult.commute)
  have hi: "x < cdiv (- c) g" if "g * x < - c"
    using that assms(3) int_le_div [OF assms(3), of "- x" c] by (auto simp: cdiv_div mult.commute not_le [symmetric])
  have q: "(- c) sdiv g = x \<and> (- c) smod g = 0" if "g * x = - c"
    using smod_sdiv_pos [OF assms(3), of "- c"] assms(3) unfolding that [symmetric] by simp
  have n: "(- c) sdiv g \<noteq> x" if "(- c) smod g = 0" "g * x \<noteq> - c"
    using smod_sdiv_pos [OF assms(3), of "- c"] that by auto
  show ?thesis
    using assms(1,2) lo le ge hi q n by (cases op) (auto simp: narrow_def fits_def)
qed

lemma all_gcd_coef: "all_gcd ts = coef_gcd ts"
proof -
  have "fold (\<lambda>u g. gcd g \<bar>snd u\<bar>) ts g = fold gcd_step ts g" for g
    by (induction ts arbitrary: g) auto
  then show ?thesis by (simp add: all_gcd_def coef_gcd_def)
qed

text \<open>Non-constant terms, as \<open>split_const\<close> leaves them.\<close>

definition proper :: "terms \<Rightarrow> bool" where
  "proper pn \<longleftrightarrow> pn \<noteq> [] \<and> (\<forall>u \<in> set pn. snd u \<noteq> 0)"

lemma proper_neg [simp]: "proper (map (\<lambda>u. (fst u, - snd u)) pn) = proper pn"
  by (auto simp: proper_def)

lemma pval_neg_map [simp]: "pval v (map (\<lambda>u. (fst u, - snd u)) pn) = - pval v pn"
  by (simp add: pval_def)

lemma primitive_pval:
  assumes "primitive pn = (pk, g)" and "proper pn"
  shows "0 < g \<and> g * pval v pk = pval v pn"
proof -
  have d: "\<forall>u \<in> set pn. all_gcd pn dvd snd u" "0 < all_gcd pn"
    using coef_gcd_dvd [of pn] assms(2) by (auto simp: proper_def all_gcd_coef)
  from pval_scaled [OF d, of v False] have "all_gcd pn * pval v (map (\<lambda>u. (fst u, snd u sdiv all_gcd pn)) pn) = pval v pn"
    by simp
  then show ?thesis
    using assms(1) d(2) by (auto simp: primitive_def Let_def split: if_splits)
qed

lemma moderate_part:
  assumes "moderate (g * x)" and "0 < g"
  shows "moderate x"
proof -
  have "\<bar>x\<bar> \<le> g * \<bar>x\<bar>" using assms(2) by (simp add: mult_le_cancel_right1)
  then have "\<bar>x\<bar> \<le> \<bar>g * x\<bar>" using assms(2) by (simp add: abs_mult)
  then show ?thesis using assms(1) by (simp add: moderate_def)
qed

lemma sound_bound:
  assumes "sound_groups v G" and "proper pn" and "moderate (pval v pn)" and "icmp w op (pval v pn + c) 0"
  shows "sound_groups v (bound pn c op G)"
proof -
  obtain pk g where p: "primitive pn = (pk, g)" by fastforce
  note val = primitive_pval [OF p assms(2), of v]
  have "sound_groups v (at_group pk (narrow op (- c) g) G)"
    using assms(1,3,4) val moderate_part [of g "pval v pk"] narrow_fits [of "pval v pk" _ w op g c]
    by (intro sound_at_group) auto
  then show ?thesis by (simp add: bound_def p)
qed

abbreviation plain :: "pred \<Rightarrow> bool" where
  "plain op \<equiv> op = EQ \<or> op = NE \<or> isSigned op"

lemma orient_right:
  assumes "orient pn c op = (pn', c', op')" and "proper pn" and "plain op"
  shows "proper pn' \<and> plain op' \<and> icmp w op' (pval v pn' + c') 0 = icmp w op (pval v pn + c) 0 \<and> \<bar>pval v pn'\<bar> = \<bar>pval v pn\<bar>"
  using assms icmp_swapped [of op w "pval v pn + c"]
  by (auto simp: orient_def isSigned_def isUnsigned_def split: if_splits)

definition safe :: "int \<Rightarrow> bool" where
  "safe x \<longleftrightarrow> \<bar>x\<bar> \<le> 2 ^ 70"

lemma safe_moderate: "safe x \<Longrightarrow> moderate x"
  by (simp add: safe_def moderate_def hi_limit_def)

lemma safe_abs: "safe x \<Longrightarrow> \<bar>y\<bar> = \<bar>x\<bar> \<Longrightarrow> safe y"
  by (simp add: safe_def)

lemma sound_add_bound:
  assumes "sound_groups v G" and "proper pn" and "safe (pval v pn)" and "plain op" and "icmp w op (pval v pn + c) 0"
  shows "sound_groups v (add_bound pn c op G)"
proof -
  obtain pn' c' op' where o: "orient pn c op = (pn', c', op')" using prod_cases3 by blast
  from orient_right [OF o assms(2,4), of w v] assms(3,5) safe_abs [OF assms(3)]
  have "sound_groups v (bound pn' c' op' G)"
    by (intro sound_bound [OF assms(1), where w = w] safe_moderate) auto
  then show ?thesis by (simp add: add_bound_def o)
qed

lemma clamp_of_ev:
  assumes "clamp_of at = Some (m, k, P)"
  shows "ev v f at = (if m then min (ev v f P) k else max (ev v f P) k)"
proof -
  obtain t n x y where at: "at = ECall t (Fn n) [x, y]" using assms by (cases at rule: clamp_of.cases) auto
  from assms show ?thesis
    using constInt_ev [of y _ v f] constInt_ev [of x _ v f] unfolding at
    by (auto simp: is_smin_def is_smax_def call_val_def min.commute max.commute split: if_splits option.splits)
qed

lemma div_of_ev: "div_of at = Some (k, P) \<Longrightarrow> 0 < k \<and> ev v f at = ev v f P sdiv k"
  by (cases at rule: div_of.cases) (auto simp: op_val_def sem_bin_def dest: constInt_ev [of _ _ v f] split: if_splits option.splits)

lemma asPoly_split:
  assumes "asPoly P A = (dp, B)" and "split_const (terms_of dp) = (pp, cp)" and "tame_side v f 64 P"
  shows "prefix A B \<and> canonical (terms_of dp) \<and> (pp \<noteq> [] \<longrightarrow> proper pp) \<and> (consistent v f B \<longrightarrow> ev v f P = pval v pp + cp \<and> \<bar>pval v pp\<bar> \<le> 2 ^ 65)"
proof -
  obtain ts where dp: "dp = EPoly (type_of P) ts" and pre: "prefix A B" using asPoly_ev [OF assms(1)] by blast
  have can: "canonical ts" and cp: "\<bar>cp\<bar> \<le> 2 ^ 63 \<or> pp = []"
  proof -
    consider t us where "P = EPoly t us" | w b where "P = EConst (IntT w) b" |
      "\<nexists>t ts. P = EPoly t ts" "\<nexists>w b. P = EConst (IntT w) b" by blast
    then have "canonical ts \<and> (\<bar>cp\<bar> \<le> 2 ^ 63 \<or> pp = [])"
    proof cases
      case 3
      from asPoly_atom [OF 3, of A] assms(1,2) dp show ?thesis
        by (auto simp: mkPoly_def mk_terms_def split_const_def)
    qed (use assms dp in \<open>auto simp: asPoly_const polyConst_def mkPoly_def mk_terms_def split_const_def split: if_splits\<close>)
    then show "canonical ts" "\<bar>cp\<bar> \<le> 2 ^ 63 \<or> pp = []" by auto
  qed
  have "proper pp" if "pp \<noteq> []"
    using that assms(2) can unfolding dp by (auto simp: proper_def split_const_def canonical_sorted_wrt)
  moreover have "ev v f P = pval v pp + cp \<and> \<bar>pval v pp\<bar> \<le> 2 ^ 65" if "consistent v f B"
  proof -
    have val: "ev v f P = pval v pp + cp"
      using asPoly_ev [OF assms(1), of v f] that split_const_val [OF can, of v] assms(2) unfolding dp by simp
    then show ?thesis using in_range_64 [OF tame_side_range [OF assms(3)]] cp by auto
  qed
  ultimately show ?thesis using pre can dp by simp
qed

lemma asPoly_split_safe:
  assumes "asPoly P A = (dp, B)" and "split_const (terms_of dp) = (pp, cp)" and "tame_side v f 64 P" and "consistent v f B"
  shows "ev v f P = pval v pp + cp" and "safe (pval v pp)"
  using asPoly_split [OF assms(1-3)] assms(4) by (auto simp: safe_def)

text \<open>A step is right if it only adds atoms, keeps the groups right and stops only when the atoms cannot have
  their values.\<close>

definition right_step :: "(nat \<Rightarrow> int) \<Rightarrow> (expr \<Rightarrow> int) \<Rightarrow> arena \<Rightarrow> progress \<Rightarrow> bool" where
  "right_step v f A r \<longleftrightarrow>
     (case r of
        Inl B \<Rightarrow> prefix A B \<and> \<not> consistent v f B
      | Inr (B, G) \<Rightarrow> prefix A B \<and> (consistent v f B \<longrightarrow> sound_groups v G))"

lemma clamp_equal_right:
  assumes "clamp_of at = Some (m, k, P)" and "tame_side v f 64 P" and "op = EQ \<or> op = NE"
    and "icmp w op (ev v f at + c) 0" and "sound_groups v G"
  shows "right_step v f A (clamp_equal op c m k P (A, G))"
proof -
  obtain dp B where p: "asPoly P A = (dp, B)" by fastforce
  obtain pp cp where s: "split_const (terms_of dp) = (pp, cp)" by fastforce
  note ap = asPoly_split [OF p s assms(2)]
  show ?thesis
  proof (cases "consistent v f B \<and> pp \<noteq> []")
    case False
    then show ?thesis using ap assms(5) by (auto simp: clamp_equal_def p s right_step_def Let_def)
  next
    case True
    then have val: "ev v f P = pval v pp + cp" "safe (pval v pp)" and pr: "proper pp"
      using asPoly_split_safe [OF p s assms(2)] ap by auto
    have at: "ev v f at = (if m then min (ev v f P) k else max (ev v f P) k)" by (rule clamp_of_ev [OF assms(1)])
    have derive: "sound_groups v (if half_int64 (cp - v2) then add_bound pp (cp - v2) op2 G else G)"
      if "plain op2" "icmp w op2 (ev v f P - v2) 0" for op2 v2
      using sound_add_bound [OF assms(5) pr val(2) that(1), of w "cp - v2"] that(2) assms(5) val(1) by (simp add: add_diff_eq)
    define D where "D = (\<lambda>op2 v2. if half_int64 (cp - v2) then add_bound pp (cp - v2) op2 G else G)"
    have D: "sound_groups v (D op2 v2)" if "plain op2" "icmp w op2 (ev v f P - v2) 0" for op2 v2
      using derive [OF that] by (simp add: D_def)
    have pre: "prefix A B" "consistent v f B" "pp \<noteq> []" using ap True by auto
    have run: "clamp_equal op c m k P (A, G) =
        (if op = NE then
           if - c = k then Inr (B, D (if m then SLT else SGT) k)
           else if m \<and> - c < k \<or> \<not> m \<and> k < - c then Inr (B, D NE (- c)) else Inr (B, G)
         else if m \<and> k < - c \<or> \<not> m \<and> - c < k then Inl B
         else if - c = k then Inr (B, D (if m then SGE else SLE) k) else Inr (B, D EQ (- c)))"
      using pre(3) by (simp add: clamp_equal_def p s D_def Let_def)
    have ok: "right_step v f A (Inr (B, H))" if "sound_groups v H" for H
      using that pre by (simp add: right_step_def)
    from assms(3) show ?thesis
    proof
      assume "op = NE"
      then show ?thesis using assms(4,5) at unfolding run
        by (auto intro!: ok D simp: isSigned_def min_def max_def split: if_splits)
    next
      assume "op = EQ"
      then show ?thesis using assms(4,5) at unfolding run
        by (auto intro!: ok D simp: isSigned_def min_def max_def split: if_splits)
    qed
  qed
qed

lemma bound_poly_right:
  assumes "tame_side v f 64 P" and "if lower then u \<le> ev v f P else ev v f P \<le> u" and "sound_groups v G"
  shows "right_step v f A (Inr (bound_poly P u lower (A, G)))"
proof -
  obtain dp B where p: "asPoly P A = (dp, B)" by fastforce
  obtain pp cp where s: "split_const (terms_of dp) = (pp, cp)" by fastforce
  note ap = asPoly_split [OF p s assms(1)]
  show ?thesis
  proof (cases "consistent v f B \<and> pp \<noteq> []")
    case False
    then show ?thesis using ap assms(3) by (auto simp: bound_poly_def p s right_step_def Let_def)
  next
    case True
    then have val: "ev v f P = pval v pp + cp" "safe (pval v pp)" and pr: "proper pp"
      using asPoly_split_safe [OF p s assms(1)] ap by auto
    have "sound_groups v (add_bound pp (- u + cp) (if lower then SGE else SLE) G)"
      using sound_add_bound [OF assms(3) pr val(2), of "if lower then SGE else SLE" 0 "- u + cp"] assms(2) val(1)
      by (auto simp: isSigned_def)
    then show ?thesis using ap True assms(3) by (simp add: bound_poly_def p s right_step_def Let_def)
  qed
qed

text \<open>Division that truncates, against a constant.\<close>

lemma sdiv_bounds:
  fixes x k m :: int
  assumes "0 < k"
  shows "m \<le> x sdiv k \<longleftrightarrow> (if 1 \<le> m then m * k else (m - 1) * k + 1) \<le> x"
    and "x sdiv k \<le> m \<longleftrightarrow> x \<le> (if 0 \<le> m then (m + 1) * k - 1 else m * k)"
proof -
  have q: "x sdiv k = (if 0 \<le> x then x div k else - ((- x) div k))"
    using assms by (auto simp: signed_divide_int_def sgn_if)
  have pos: "0 \<le> x div k" if "0 \<le> x" for x using that assms by (simp add: pos_imp_zdiv_nonneg_iff)
  have le: "j \<le> y div k \<longleftrightarrow> j * k \<le> y" for j y by (rule int_le_div [OF assms])
  have gt: "y div k \<le> j \<longleftrightarrow> y < (j + 1) * k" for j y using le [of "j + 1" y] by linarith
  have mk: "0 < m * k" if "1 \<le> m" using that assms by simp
  have nk: "(m - 1) * k + 1 \<le> 0" if "m \<le> 0"
  proof -
    have "k \<le> (1 - m) * k" using that assms by simp
    then show ?thesis using assms by (simp add: algebra_simps)
  qed
  show "m \<le> x sdiv k \<longleftrightarrow> (if 1 \<le> m then m * k else (m - 1) * k + 1) \<le> x"
  proof (cases "0 \<le> x")
    case True
    then show ?thesis using q le [of m x] pos [OF True] nk by auto
  next
    case False
    then have "m \<le> x sdiv k \<longleftrightarrow> - x < (- m + 1) * k" using q gt [of "- x" "- m"] by auto
    also have "\<dots> \<longleftrightarrow> (m - 1) * k + 1 \<le> x" by (auto simp: algebra_simps)
    finally show ?thesis using False pos [of "- x"] q mk by auto
  qed
  have nm: "m * k < 0" if "m < 0" using that assms by (simp add: mult_less_0_iff)
  have pm: "0 \<le> (m + 1) * k - 1" if "0 \<le> m" using that assms mult_mono [of 1 "m + 1" 1 k] by simp
  show "x sdiv k \<le> m \<longleftrightarrow> x \<le> (if 0 \<le> m then (m + 1) * k - 1 else m * k)"
  proof (cases "0 \<le> x")
    case True
    then show ?thesis using q gt [of x m] pos [OF True] nm by auto
  next
    case False
    then have "x sdiv k \<le> m \<longleftrightarrow> x \<le> m * k" using q le [of "- m" "- x"] by auto
    then show ?thesis using False pos [of "- x"] q pm by auto
  qed
qed

lemma quotient_bound_right:
  assumes "div_of at = Some (k, P)" and "tame_side v f 64 P" and "isSigned op"
    and "icmp w op (ev v f at + c) 0" and "sound_groups v G"
  shows "right_step v f A (Inr (quotient_bound op c k P (A, G)))"
proof -
  have at: "0 < k" "ev v f at = ev v f P sdiv k" using div_of_ev [OF assms(1)] by blast+
  note b = sdiv_bounds [OF at(1), of _ "ev v f P"] bound_poly_right [OF assms(2) _ assms(5)]
  show ?thesis using assms(3,4) b(1) [of "- c + 1"] b(1) [of "- c"] b(2) [of "- c - 1"] b(2) [of "- c"] unfolding at(2)
    by (auto simp: quotient_bound_def isSigned_def Let_def intro!: b(3))
qed

lemma clamp_bound_right:
  assumes "clamp_of at = Some (m, k, P)" and "tame_side v f 64 P" and "isSigned op"
    and "icmp w op (ev v f at + c) 0" and "sound_groups v G"
  shows "right_step v f A (clamp_bound op c m k P (A, G))"
proof -
  obtain dp B where p: "asPoly P A = (dp, B)" by fastforce
  obtain pp cp where s: "split_const (terms_of dp) = (pp, cp)" by fastforce
  note ap = asPoly_split [OF p s assms(2)]
  let ?lower = "op = SGT \<or> op = SGE"
  let ?k = "if op = SGT then - c < k else if op = SGE then - c \<le> k else if op = SLT then k < - c else k \<le> - c"
  have at: "ev v f at = (if m then min (ev v f P) k else max (ev v f P) k)" by (rule clamp_of_ev [OF assms(1)])
  have kh: "(m = ?lower) \<longrightarrow> ?k" and Ph: "(m = ?lower) \<or> \<not> ?k \<longrightarrow> icmp w op (ev v f P + c) 0"
    using assms(3,4) unfolding at by (auto simp: isSigned_def min_def max_def split: if_splits)
  show ?thesis
  proof (cases "((m = ?lower) \<or> \<not> ?k) \<and> consistent v f B \<and> pp \<noteq> []")
    case False
    then show ?thesis using ap kh assms(5) by (auto simp: clamp_bound_def p s right_step_def Let_def)
  next
    case True
    then have val: "ev v f P = pval v pp + cp" "safe (pval v pp)" and pr: "proper pp"
      using asPoly_split_safe [OF p s assms(2)] ap by auto
    have "sound_groups v (add_bound pp (c + cp) op G)"
      using sound_add_bound [OF assms(5) pr val(2), of op w "c + cp"] assms(3) Ph True val(1) by (auto simp: add_ac)
    then show ?thesis using ap True kh assms(5) by (auto simp: clamp_bound_def p s right_step_def Let_def)
  qed
qed

subsection \<open>Atoms in scope\<close>

text \<open>A polynomial is built from atoms the arena has, and what is inside an atom from earlier ones.\<close>

definition scoped_terms :: "nat \<Rightarrow> terms \<Rightarrow> bool" where
  "scoped_terms n ts \<longleftrightarrow> (\<forall>m \<in> fst ` set ts. \<forall>i \<in> set m. i < n)"

fun scoped :: "nat \<Rightarrow> expr \<Rightarrow> bool" where
  "scoped n (EPoly t ts) = scoped_terms n ts"
| "scoped n e = True"

fun scoped_lit :: "nat \<Rightarrow> expr \<Rightarrow> bool" where
  "scoped_lit n (ECmp p a b) = (scoped n a \<and> scoped n b)"
| "scoped_lit n e = True"

text \<open>Atom \<open>i\<close>, whose inner polynomial does not wrap.\<close>

definition tame_atom :: "(nat \<Rightarrow> int) \<Rightarrow> (expr \<Rightarrow> int) \<Rightarrow> nat \<Rightarrow> expr \<Rightarrow> bool" where
  "tame_atom v f i at \<longleftrightarrow>
     (\<forall>k P. div_of at = Some (k, P) \<longrightarrow> tame_side v f 64 P \<and> scoped i P) \<and>
     (\<forall>m k P. clamp_of at = Some (m, k, P) \<longrightarrow> tame_side v f 64 P \<and> scoped i P)"

definition tame_arena :: "(nat \<Rightarrow> int) \<Rightarrow> (expr \<Rightarrow> int) \<Rightarrow> arena \<Rightarrow> bool" where
  "tame_arena v f A \<longleftrightarrow> (\<forall>i < length A. tame_atom v f i (A ! i))"

definition scoped_groups :: "nat \<Rightarrow> groups \<Rightarrow> bool" where
  "scoped_groups n G \<longleftrightarrow> (\<forall>k \<in> fst ` set G. scoped_terms n k)"

lemma scoped_mono: "n \<le> m \<Longrightarrow> scoped_terms n ts \<Longrightarrow> scoped_terms m ts"
  "n \<le> m \<Longrightarrow> scoped n e \<Longrightarrow> scoped m e" "n \<le> m \<Longrightarrow> scoped_groups n G \<Longrightarrow> scoped_groups m G"
proof -
  show t: "n \<le> m \<Longrightarrow> scoped_terms n ts \<Longrightarrow> scoped_terms m ts" for ts
    unfolding scoped_terms_def by (meson less_le_trans)
  show "n \<le> m \<Longrightarrow> scoped n e \<Longrightarrow> scoped m e" by (cases e) (simp_all add: t)
  show "n \<le> m \<Longrightarrow> scoped_groups n G \<Longrightarrow> scoped_groups m G" unfolding scoped_groups_def using t by blast
qed

lemma scoped_append [simp]: "scoped_terms n (ts @ us) \<longleftrightarrow> scoped_terms n ts \<and> scoped_terms n us"
  by (auto simp: scoped_terms_def)

lemma scoped_map [simp]: "scoped_terms n (map (\<lambda>u. (fst u, h u)) ts) = scoped_terms n ts"
  by (auto simp: scoped_terms_def)

lemma scoped_mk: "scoped_terms n ts \<Longrightarrow> scoped_terms n (mk_terms ts)"
proof -
  assume ts: "scoped_terms n ts"
  have "fst ` set (merge_terms (sort_key fst ts)) = fst ` set ts" using merge_sorted [of "sort_key fst ts"] by simp
  then have "fst ` set (mk_terms ts) \<subseteq> fst ` set ts" by (auto simp: mk_terms_def)
  with ts show ?thesis unfolding scoped_terms_def by blast
qed

lemma scoped_sub: "scoped_terms n as \<Longrightarrow> scoped_terms n bs \<Longrightarrow> scoped_terms n (sub_terms as bs)"
  by (simp add: sub_terms_def add_terms_def neg_terms_def scoped_mk)

lemma scoped_split: "scoped_terms n ts \<Longrightarrow> split_const ts = (pn, c) \<Longrightarrow> scoped_terms n pn"
  by (auto simp: scoped_terms_def split_const_def)

lemma scoped_at_group: "scoped_groups n G \<Longrightarrow> scoped_terms n k \<Longrightarrow> scoped_groups n (at_group k h G)"
  by (induction k h G rule: at_group.induct) (auto simp: scoped_groups_def)

lemma scoped_orient: "orient pn c op = (pn', c', op') \<Longrightarrow> scoped_terms n pn \<Longrightarrow> scoped_terms n pn'"
  by (auto simp: orient_def split: if_splits)

lemma scoped_bound: "scoped_groups n G \<Longrightarrow> scoped_terms n pn \<Longrightarrow> scoped_groups n (bound pn c op G)"
  by (auto simp: bound_def primitive_def Let_def intro: scoped_at_group)

lemma scoped_add_bound: "scoped_groups n G \<Longrightarrow> scoped_terms n pn \<Longrightarrow> scoped_groups n (add_bound pn c op G)"
  by (auto simp: add_bound_def Let_def split: prod.splits dest: scoped_orient intro: scoped_bound)

lemma prefix_length: "prefix A B \<Longrightarrow> length A \<le> length B"
  by (auto simp: prefix_def)

lemma asPoly_scoped:
  assumes "asPoly e A = (p, B)" and "scoped (length A) e"
  shows "prefix A B \<and> scoped_terms (length B) (terms_of p)"
proof -
  consider t ts where "e = EPoly t ts" | w b where "e = EConst (IntT w) b" |
    "\<nexists>t ts. e = EPoly t ts" "\<nexists>w b. e = EConst (IntT w) b" by blast
  then show ?thesis
  proof cases
    case 3
    obtain i C where i: "atomOf e A = (i, C)" by fastforce
    with asPoly_atom [OF 3, of A] assms(1) have p: "p = mkPoly (type_of e) [([i], 1)]" "B = C" by simp_all
    have "i < length C" using i find_atom_Some [of e 0 A] by (auto simp: atomOf_def split: option.splits)
    then have "scoped_terms (length C) [([i], 1)]" by (simp add: scoped_terms_def)
    then show ?thesis using atomOf_ev [OF i] p scoped_mk by (simp add: mkPoly_def)
  qed (use assms scoped_mk [of "length A" "[([], sext w b)]" for w b] in
      \<open>auto simp: asPoly_const polyConst_def mkPoly_def scoped_terms_def\<close>)
qed

fun arena_of :: "progress \<Rightarrow> arena" where
  "arena_of (Inl A) = A"
| "arena_of (Inr S) = fst S"

definition groups_in_scope :: "progress \<Rightarrow> bool" where
  "groups_in_scope r \<longleftrightarrow> (case r of Inl A \<Rightarrow> True | Inr (A, G) \<Rightarrow> scoped_groups (length A) G)"

lemma inner_scope:
  assumes "asPoly P A = (dp, B)" and "split_const (terms_of dp) = (pp, cp)" and "scoped (length A) P" and "scoped_groups (length A) G"
  shows "scoped_groups (length B) G" and "scoped_groups (length B) (add_bound pp c op G)"
  using asPoly_scoped [OF assms(1,3)] scoped_split [OF _ assms(2)] scoped_mono(3) [OF prefix_length assms(4)]
  by (auto intro: scoped_add_bound)

lemma clamp_equal_scope:
  assumes "scoped (length A) P" and "scoped_groups (length A) G"
  shows "groups_in_scope (clamp_equal op c m k P (A, G))"
  by (auto simp: clamp_equal_def groups_in_scope_def Let_def split: prod.splits dest: inner_scope [OF _ _ assms])

lemma bound_poly_scope:
  assumes "scoped (length A) P" and "scoped_groups (length A) G"
  shows "groups_in_scope (Inr (bound_poly P u lower (A, G)))"
  by (auto simp: bound_poly_def groups_in_scope_def Let_def split: prod.splits dest: inner_scope [OF _ _ assms])

lemma quotient_bound_scope:
  assumes "scoped (length A) P" and "scoped_groups (length A) G"
  shows "groups_in_scope (Inr (quotient_bound op c k P (A, G)))"
  by (auto simp: quotient_bound_def Let_def intro: bound_poly_scope [OF assms])

lemma clamp_bound_scope:
  assumes "scoped (length A) P" and "scoped_groups (length A) G"
  shows "groups_in_scope (clamp_bound op c m k P (A, G))"
  using assms(2)
  by (auto simp: clamp_bound_def groups_in_scope_def Let_def split: prod.splits dest: inner_scope [OF _ _ assms])

subsection \<open>No conjunction that holds is contradictory\<close>

text \<open>A step is good if, where the atoms it leaves have their values and do not wrap, it does not stop and
  keeps the groups right and in scope.\<close>

definition good_step :: "(nat \<Rightarrow> int) \<Rightarrow> (expr \<Rightarrow> int) \<Rightarrow> arena \<Rightarrow> progress \<Rightarrow> bool" where
  "good_step v f A r \<longleftrightarrow> prefix A (arena_of r) \<and>
     (consistent v f (arena_of r) \<and> tame_arena v f (arena_of r) \<longrightarrow>
       (\<exists>B H. r = Inr (B, H) \<and> sound_groups v H \<and> scoped_groups (length B) H))"

lemma good_stepI: "right_step v f A r \<Longrightarrow> groups_in_scope r \<Longrightarrow> good_step v f A r"
  by (cases r) (auto simp: right_step_def groups_in_scope_def good_step_def)

lemma good_same: "sound_groups v G \<Longrightarrow> scoped_groups (length A) G \<Longrightarrow> good_step v f A (Inr (A, G))"
  by (simp add: good_step_def)

lemma tame_prefix: "prefix A B \<Longrightarrow> tame_arena v f B \<Longrightarrow> tame_arena v f A"
  unfolding tame_arena_def by (metis prefix_length less_le_trans nth_append prefix_def)

lemma tame_atom_inner:
  assumes "tame_atom v f i at" and "i \<le> n"
  shows "div_of at = Some (k, P) \<Longrightarrow> tame_side v f 64 P \<and> scoped n P"
    and "clamp_of at = Some (m, k, P) \<Longrightarrow> tame_side v f 64 P \<and> scoped n P"
  using assms scoped_mono(2) [OF assms(2)] by (auto simp: tame_atom_def)

text \<open>Whatever the literal on the atom, its bounds are good.\<close>

lemma atom_bounds_good:
  assumes "tame_atom v f i at" and "i \<le> length A" and "plain op" and "icmp w op (ev v f at + c) 0"
    and "sound_groups v G" and "scoped_groups (length A) G"
  shows "good_step v f A (atom_bounds clamps op c at (A, G))"
proof -
  note inner = tame_atom_inner [OF assms(1,2)]
  have div: "good_step v f A (Inr (quotient_bound op c k P (A, G)))" if "div_of at = Some (k, P)" "isSigned op" for k P
    using that inner(1) [OF that(1)] quotient_bound_right [OF that(1) _ that(2) assms(4,5)] quotient_bound_scope [OF _ assms(6)]
    by (intro good_stepI) auto
  have clamp: "good_step v f A (clamp_bound op c m k P (A, G))" if "clamp_of at = Some (m, k, P)" "isSigned op" for m k P
    using that inner(2) [OF that(1)] clamp_bound_right [OF that(1) _ that(2) assms(4,5)] clamp_bound_scope [OF _ assms(6)]
    by (intro good_stepI) auto
  have equal: "good_step v f A (clamp_equal op c m k P (A, G))" if "clamp_of at = Some (m, k, P)" "op = EQ \<or> op = NE" for m k P
    using that inner(2) [OF that(1)] clamp_equal_right [OF that(1) _ that(2) assms(4,5)] clamp_equal_scope [OF _ assms(6)]
    by (intro good_stepI) auto
  have excl: "clamp_of at = None" if "div_of at \<noteq> None"
    using that by (cases at rule: clamp_of.cases) auto
  show ?thesis
    using assms(3) div clamp equal excl good_same [OF assms(5,6)]
    by (auto simp: atom_bounds_def isSigned_def Let_def split: option.splits)
qed

lemma good_step_prefix: "prefix A B \<Longrightarrow> good_step v f B r \<Longrightarrow> good_step v f A r"
  by (auto simp: good_step_def intro: prefix_order.trans)

lemma unit_atom_Some: "unit_atom pn = Some i \<longleftrightarrow> pn = [([i], 1)]"
  by (cases pn rule: unit_atom.cases) auto

lemma tame_side_64: "tame_side v f w e \<Longrightarrow> w \<le> 64 \<Longrightarrow> tame_side v f 64 e"
  using in_range_64 [of w "ev v f e"] by (cases e) (auto simp: in_range_def)

lemma sub_polys: "sub (EPoly t as) (EPoly u bs) A = (EPoly t (sub_terms as bs), A)"
  by (simp add: sub_def neg_def add_def lift2_def sub_terms_def)

lemma asPoly_prefix: "asPoly e A = (p, B) \<Longrightarrow> prefix A B"
  using asPoly_ev by blast

lemma atom_bounds_prefix: "prefix A (arena_of (atom_bounds clamps op c at (A, G)))"
proof -
  have q: "prefix A (fst (bound_poly P u b (A, G)))" for P u b A G
    by (auto simp: bound_poly_def Let_def split: prod.splits dest: asPoly_prefix)
  then have "prefix A (fst (quotient_bound op c k P (A, G)))" for k P
    by (simp add: quotient_bound_def Let_def)
  moreover have "prefix A (arena_of (clamp_bound op c m k P (A, G)))" for m k P A G
    by (auto simp: clamp_bound_def Let_def split: prod.splits dest: asPoly_prefix)
  moreover have "prefix A (arena_of (clamp_equal op c m k P (A, G)))" for m k P
    by (auto simp: clamp_equal_def Let_def split: prod.splits dest: asPoly_prefix)
  ultimately show ?thesis
    by (auto simp: atom_bounds_def Let_def split: option.splits) (metis prefix_order.trans surj_pair fst_conv)
qed

lemma literal_step_good:
  assumes "holds v f l" and "tame v f l" and "scoped_lit (length A) l"
    and "sound_groups v G" and "scoped_groups (length A) G"
  shows "good_step v f A (literal_step clamps l (A, G))"
proof (cases "lit_sides l")
  case None
  then show ?thesis using good_same [OF assms(4,5)] by (simp add: literal_step_def)
next
  case (Some q)
  then obtain op a b where l: "l = ECmp op a b" "plain op" and q: "lit_sides l = Some (op, a, b)"
    by (cases l rule: lit_sides.cases) (auto split: if_splits)
  obtain pa B where pa: "asPoly a A = (pa, B)" by fastforce
  obtain pb C where pb: "asPoly b B = (pb, C)" by fastforce
  obtain as bs where ab: "pa = EPoly (type_of a) as" "pb = EPoly (type_of b) bs"
    using asPoly_ev [OF pa, of v f] asPoly_ev [OF pb, of v f] that by (elim conjE exE) simp
  obtain pna ca where sa: "split_const as = (pna, ca)" by fastforce
  obtain pnb cb where sb: "split_const bs = (pnb, cb)" by fastforce
  obtain pn c where s: "split_const (sub_terms as bs) = (pn, c)" by fastforce
  obtain pn' c' op' where o: "orient pn c op = (pn', c', op')" using prod_cases3 by blast
  have t: "tame_side v f 64 a" "tame_side v f 64 b"
    using assms(2) tame_side_64 [of v f "width (type_of a)"] unfolding l by simp_all
  note spa = asPoly_split [OF pa _ t(1), unfolded ab, simplified, OF sa]
  note spb = asPoly_split [OF pb _ t(2), unfolded ab, simplified, OF sb]
  have pre: "prefix A B" "prefix B C" "prefix A C" using spa spb prefix_order.trans [of A B C] by blast+
  have "scoped (length A) a" "scoped (length B) b"
    using assms(3) scoped_mono(2) [OF prefix_length [OF pre(1)]] unfolding l by simp_all
  with asPoly_scoped [OF pa] asPoly_scoped [OF pb] have "scoped_terms (length B) as" "scoped_terms (length C) bs"
    unfolding ab by simp_all
  then have scA: "scoped_terms (length C) as" "scoped_terms (length C) bs"
    using scoped_mono(1) [OF prefix_length [OF pre(2)]] by blast+
  have scp: "scoped_terms (length C) pn" using scoped_split [OF scoped_sub [OF scA] s] .
  have scG: "scoped_groups (length C) G" using scoped_mono(3) [OF prefix_length [OF pre(3)] assms(5)] .
  have run: "literal_step clamps l (A, G) =
      (if pn = [] then Inr (C, G)
       else case unit_atom pn' of None \<Rightarrow> Inr (C, bound pn' c' op' G)
          | Some i \<Rightarrow> atom_bounds clamps op' c' (C ! i) (C, bound pn' c' op' G))"
    unfolding literal_step_def q by (simp add: pa pb ab sub_polys s o Let_def)
  have same: "good_step v f C (Inr (C, G))" by (rule good_same [OF assms(4) scG])
  show ?thesis
  proof (cases "pn = []")
    case True
    then show ?thesis using good_step_prefix [OF pre(3) same] run by simp
  next
    case ne: False
    have proper: "proper pn"
      using ne s canonical_ops(3) [of as bs] by (auto simp: proper_def split_const_def canonical_sorted_wrt)
    have val: "safe (pval v pn)" "icmp w op (pval v pn + c) 0" if "consistent v f C" for w
    proof -
      have B: "consistent v f B" using that spb consistent_prefix by blast
      have e: "ev v f a = pval v pna + ca" "\<bar>pval v pna\<bar> \<le> 2 ^ 65" "ev v f b = pval v pnb + cb" "\<bar>pval v pnb\<bar> \<le> 2 ^ 65"
        using spa spb B that by auto
      have cab: "c = ca - cb"
        using split_const_coef [of as] split_const_coef [of bs] split_const_coef [of "sub_terms as bs"] spa spb sa sb s by simp
      have ab': "pval v as = ev v f a" "pval v bs = ev v f b"
        using asPoly_ev [OF pa, of v f] asPoly_ev [OF pb, of v f] B that ab by auto
      then have d: "pval v pn + c = ev v f a - ev v f b"
        using split_const_val [OF canonical_ops(3), of v as bs] s by simp
      have r: "\<bar>ev v f a\<bar> \<le> 2 ^ 63" "\<bar>ev v f b\<bar> \<le> 2 ^ 63"
        using in_range_64 [OF tame_side_range [OF t(1)]] in_range_64 [OF tame_side_range [OF t(2)]] by auto
      show "safe (pval v pn)" unfolding safe_def using d e r cab by (simp add: abs_le_iff)
      show "icmp w op (pval v pn + c) 0"
        using assms(1) l(2) unfolding d l by (auto simp: isSigned_def)
    qed
    let ?G = "bound pn' c' op' G"
    note o' = orient_right [OF o proper l(2)]
    have scB: "scoped_groups (length C) ?G" using scoped_bound [OF scG scoped_orient [OF o scp]] .
    have sound: "sound_groups v ?G" if "consistent v f C"
      using sound_bound [OF assms(4), of pn' 0 op' c'] o' val [OF that] safe_moderate safe_abs by blast
    show ?thesis
    proof (cases "unit_atom pn'")
      case None
      have "good_step v f C (Inr (C, ?G))" using sound scB by (simp add: good_step_def)
      then show ?thesis using good_step_prefix [OF pre(3)] None ne run by simp
    next
      case (Some i)
      then have u: "pn' = [([i], 1)]" by (simp add: unit_atom_Some)
      have i: "i < length C" using scoped_orient [OF o scp] u by (simp add: scoped_terms_def)
      let ?r = "atom_bounds clamps op' c' (C ! i) (C, ?G)"
      have good: "good_step v f C ?r" if c: "consistent v f C" and "tame_arena v f C"
      proof (rule atom_bounds_good)
        show "tame_atom v f i (C ! i)" using that(2) i by (simp add: tame_arena_def)
        have e: "v i = ev v f (C ! i)" using c i by (simp add: consistent_def)
        have "icmp 0 op' (pval v pn' + c') 0" using o' val(2) [OF c] by blast
        then show "icmp 0 op' (ev v f (C ! i) + c') 0" unfolding u by (simp add: mval_def e)
      qed (use i o' sound [OF c] scB in simp_all)
      have "prefix C (arena_of ?r)" by (rule atom_bounds_prefix)
      with good have "good_step v f C ?r"
        using consistent_prefix tame_prefix unfolding good_step_def by blast
      then show ?thesis using good_step_prefix [OF pre(3)] Some ne run by simp
    qed
  qed
qed

lemma sdiv_mono:
  fixes k :: int
  assumes "0 < k" and "x \<le> y"
  shows "x sdiv k \<le> y sdiv k"
  using sdiv_bounds(1) [OF assms(1), of "x sdiv k" x] sdiv_bounds(1) [OF assms(1), of "x sdiv k" y] assms(2) by linarith

lemma bound_map_ev:
  assumes "bound_map at = Some (q, P)"
  shows "ev v f at = q (ev v f P) \<and> (\<forall>x y. x \<le> y \<longrightarrow> q x \<le> q y) \<and>
    ((\<exists>k. div_of at = Some (k, P)) \<or> (\<exists>m k. clamp_of at = Some (m, k, P)))"
proof (cases "div_of at")
  case None
  then obtain m k where "clamp_of at = Some (m, k, P)" "q = (if m then (\<lambda>x. min x k) else (\<lambda>x. max x k))"
    using assms by (auto simp: bound_map_def split: option.splits prod.splits)
  with clamp_of_ev [of at m k P v f] show ?thesis by auto
next
  case (Some kp)
  then obtain k where "div_of at = Some (k, P)" "q = (\<lambda>x. x sdiv k)"
    using assms by (auto simp: bound_map_def split: if_splits prod.splits)
  with div_of_ev [of at k P v f] sdiv_mono [of k] show ?thesis by auto
qed

lemma map_range_fits:
  assumes "fits (q (if pos then g * x + cp else - g * x + cp)) r" and "r_lo pr \<le> x" and "x \<le> r_hi pr" and "0 < g"
    and "\<And>x y. x \<le> y \<Longrightarrow> q x \<le> q y"
  shows "fits (q (if pos then g * x + cp else - g * x + cp)) (map_range q pos g cp pr r)"
proof -
  have m: "g * r_lo pr \<le> g * x" "g * x \<le> g * r_hi pr" using assms(2-4) by simp_all
  have "q (if pos then g * r_lo pr + cp else - g * r_hi pr + cp) \<le> q (if pos then g * x + cp else - g * x + cp)"
    "q (if pos then g * x + cp else - g * x + cp) \<le> q (if pos then g * r_hi pr + cp else - g * r_lo pr + cp)"
    using m by (intro assms(5); simp)+
  with assms(1) show ?thesis by (auto simp: map_range_def fits_def Let_def)
qed

lemma at_group_keys: "fst ` set G \<subseteq> fst ` set (at_group k h G)"
  by (induction k h G rule: at_group.induct) auto

lemma pass_step_good:
  assumes "key \<in> fst ` set G" and "sound_groups v G" and "scoped_groups (length A) G"
  shows "good_step v f A (pass_step key (A, G)) \<and>
    (\<forall>B H. pass_step key (A, G) = Inr (B, H) \<longrightarrow> fst ` set G \<subseteq> fst ` set H)"
proof -
  note same = good_same [OF assms(2,3)]
  have scope: "scoped_terms (length A) key" using assms(1,3) unfolding scoped_groups_def by blast
  show ?thesis
  proof (cases "\<exists>i q P. unit_atom key = Some i \<and> bound_map (A ! i) = Some (q, P)")
    case False
    then have "pass_step key (A, G) = Inr (A, G)" by (auto simp: pass_step_def split: option.splits)
    then show ?thesis using same by simp
  next
    case True
    then obtain i q P where iq: "unit_atom key = Some i" "bound_map (A ! i) = Some (q, P)" by blast
    have key: "key = [([i], 1)]" using iq(1) by (simp add: unit_atom_Some)
    have i: "i < length A" using scope unfolding key by (simp add: scoped_terms_def)
    obtain dp B where p: "asPoly P A = (dp, B)" by fastforce
    obtain pp cp where s: "split_const (terms_of dp) = (pp, cp)" by fastforce
    define pos where "pos = (0 \<le> snd (hd pp))"
    obtain pk g where pk: "primitive (if pos then pp else map (\<lambda>u. (fst u, - snd u)) pp) = (pk, g)" by fastforce
    have run: "pass_step key (A, G) =
        (if pp = [] then Inr (B, G)
         else case map_of G pk of None \<Rightarrow> Inr (B, G)
            | Some pr \<Rightarrow> if r_hi pr < r_lo pr then Inl B else Inr (B, at_group key (map_range q pos g cp pr) G))"
      using pk by (simp add: pass_step_def iq p s pos_def [symmetric] Let_def)
    have pre: "prefix A B" using asPoly_prefix [OF p] .
    have scG: "scoped_groups (length B) G" using scoped_mono(3) [OF prefix_length [OF pre] assms(3)] .
    note bm = bound_map_ev [OF iq(2)]
    have right: "(pp \<noteq> [] \<longrightarrow> (\<forall>pr. map_of G pk = Some pr \<longrightarrow> \<not> r_hi pr < r_lo pr \<and>
        sound_groups v (at_group key (map_range q pos g cp pr) G)))" if c: "consistent v f B" "tame_arena v f B"
    proof (intro impI allI)
      fix pr
      assume ne: "pp \<noteq> []" and pr: "map_of G pk = Some pr"
      have "tame_atom v f i (A ! i)" using tame_prefix [OF pre c(2)] i by (simp add: tame_arena_def)
      then have t: "tame_side v f 64 P" using bm unfolding tame_atom_def by blast
      note ap = asPoly_split [OF p s t]
      have val: "ev v f P = pval v pp + cp" and pr': "proper pp" using ap c(1) ne by auto
      have g: "0 < g \<and> g * pval v pk = (if pos then pval v pp else - pval v pp)"
        using primitive_pval [OF pk, of v] pr' by (auto split: if_splits)
      have at: "pval v key = ev v f (A ! i)"
        using consistent_prefix [OF pre c(1)] i unfolding key by (simp add: consistent_def mval_def)
      have x: "fits (pval v pk) pr" using assms(2) map_of_SomeD [OF pr] by (auto simp: sound_groups_def)
      have "ev v f P = (if pos then g * pval v pk + cp else - g * pval v pk + cp)"
        using val g by (auto split: if_splits)
      then have key': "pval v key = q (if pos then g * pval v pk + cp else - g * pval v pk + cp)"
        using at bm by metis
      have "sound_groups v (at_group key (map_range q pos g cp pr) G)"
      proof (rule sound_at_group [OF assms(2)])
        show "fits (pval v key) (map_range q pos g cp pr r)" if "fits (pval v key) r" for r
          using that x g bm unfolding key' fits_def [of "pval v pk"] by (intro map_range_fits) auto
        show "moderate (pval v key)" using assms(1,2) by (auto simp: sound_groups_def)
      qed
      then show "\<not> r_hi pr < r_lo pr \<and> sound_groups v (at_group key (map_range q pos g cp pr) G)"
        using x by (auto simp: fits_def)
    qed
    have "good_step v f A (pass_step key (A, G))"
      using pre right assms(2) scG scoped_at_group [OF scG scoped_mono(1) [OF prefix_length [OF pre] scope]]
      unfolding run good_step_def by (auto split: option.splits)
    then show ?thesis using at_group_keys [of G key] unfolding run by (auto split: option.splits if_splits)
  qed
qed

lemma step_prefix:
  "prefix (fst S) (arena_of (literal_step clamps l S))" "prefix (fst S) (arena_of (pass_step key S))"
proof -
  have sub: "sub a b A = (d, B) \<Longrightarrow> prefix A B" for a b d A B using sub_ev by blast
  have at: "prefix A B \<Longrightarrow> prefix A (arena_of (atom_bounds clamps op c at (B, G)))" for op c at A B G
    using atom_bounds_prefix prefix_order.trans by blast
  show "prefix (fst S) (arena_of (literal_step clamps l S))"
    unfolding literal_step_def Let_def
    by (auto split: option.splits prod.splits dest!: asPoly_prefix sub intro!: at intro: prefix_order.trans)
  show "prefix (fst S) (arena_of (pass_step key S))"
    unfolding pass_step_def Let_def by (auto split: option.splits prod.splits dest!: asPoly_prefix)
qed

lemma run_steps_prefix:
  assumes "\<And>x S. prefix (fst S) (arena_of (h x S))"
  shows "prefix (fst S) (arena_of (run_steps h xs S))"
proof (induction xs arbitrary: S)
  case (Cons x xs)
  show ?case using assms [of S x] Cons prefix_order.trans by (cases "h x S") fastforce+
qed simp

lemma run_steps_good:
  assumes "\<And>x A G. x \<in> set xs \<Longrightarrow> prefix A0 A \<Longrightarrow> K \<subseteq> fst ` set G \<Longrightarrow> sound_groups v G \<Longrightarrow> scoped_groups (length A) G \<Longrightarrow>
      good_step v f A (h x (A, G)) \<and> (\<forall>B H. h x (A, G) = Inr (B, H) \<longrightarrow> K \<subseteq> fst ` set H)"
    and "\<And>x S. prefix (fst S) (arena_of (h x S))"
    and "prefix A0 A" and "K \<subseteq> fst ` set G" and "sound_groups v G" and "scoped_groups (length A) G"
  shows "good_step v f A (run_steps h xs (A, G))"
  using assms(1,3-6)
proof (induction xs arbitrary: A G)
  case (Cons x xs)
  from Cons.prems(1) [of x A G] Cons.prems(2-5) have step: "good_step v f A (h x (A, G))"
    and keys: "\<And>B H. h x (A, G) = Inr (B, H) \<Longrightarrow> K \<subseteq> fst ` set H" by auto
  show ?case
  proof (cases "h x (A, G)")
    case (Inl B)
    with step show ?thesis by (simp add: good_step_def)
  next
    case (Inr S)
    then obtain B H where S: "h x (A, G) = Inr (B, H)" by (cases S) simp
    let ?R = "arena_of (run_steps h xs (B, H))"
    have pre: "prefix A B" "prefix B ?R"
      using step S run_steps_prefix [OF assms(2), where S = "(B, H)" and xs = xs] by (auto simp: good_step_def)
    have "good_step v f B (run_steps h xs (B, H))" if R: "consistent v f ?R" "tame_arena v f ?R"
    proof (rule Cons.IH)
      have "consistent v f B" "tame_arena v f B" using R pre(2) consistent_prefix tame_prefix by blast+
      then show "sound_groups v H" "scoped_groups (length B) H" using step S by (auto simp: good_step_def)
      show "prefix A0 B" using Cons.prems(2) pre(1) prefix_order.trans by blast
      show "K \<subseteq> fst ` set H" using keys [OF S] .
    qed (rule Cons.prems(1); simp)
    then have "good_step v f B (run_steps h xs (B, H))" using pre(2) unfolding good_step_def by blast
    then show ?thesis using good_step_prefix [OF pre(1)] S by simp
  qed
qed (simp add: good_step_def)

text \<open>A group that holds a value is not exhausted.\<close>

lemma fits_not_exhausted: "fits x r \<Longrightarrow> \<not> exhausted r"
  by (auto simp: fits_def exhausted_def list_all_iff)

lemma contradictory_sound:
  assumes "contradictory lits clamps A = (True, B)" and "consistent v f B" and "tame_arena v f B"
    and "\<forall>l \<in> set lits. tame v f l \<and> scoped_lit (length A) l"
  shows "\<exists>l \<in> set lits. \<not> holds v f l"
proof (rule ccontr)
  assume "\<not> (\<exists>l \<in> set lits. \<not> holds v f l)"
  then have all: "\<forall>l \<in> set lits. holds v f l" by blast
  let ?r = "run_steps (literal_step clamps) lits (A, [])"
  have good: "good_step v f A ?r"
  proof (rule run_steps_good [where K = "{}" and ?A0.0 = A])
    fix l C G
    assume l: "l \<in> set lits" and "prefix A C" and G: "sound_groups v G" "scoped_groups (length C) G"
    then have "tame v f l" "scoped_lit (length A) l" "holds v f l" using all assms(4) by auto
    moreover have "scoped_lit (length C) l"
      using \<open>scoped_lit (length A) l\<close> scoped_mono(2) [OF prefix_length [OF \<open>prefix A C\<close>]] by (cases l) simp_all
    ultimately have "tame v f l" "scoped_lit (length C) l" "holds v f l" by blast+
    then show "good_step v f C (literal_step clamps l (C, G)) \<and> (\<forall>B H. literal_step clamps l (C, G) = Inr (B, H) \<longrightarrow> {} \<subseteq> fst ` set H)"
      using literal_step_good G by blast
  qed (auto simp: step_prefix sound_groups_def scoped_groups_def)
  show False
  proof (cases ?r)
    case (Inl C)
    with assms good show False by (simp add: contradictory_def good_step_def)
  next
    case (Inr S)
    then obtain C G where S: "?r = Inr (C, G)" by (cases S) simp
    let ?q = "if clamps then run_passes (C, G) else Inr (C, G)"
    have B: "arena_of ?q = B"
      using assms(1) S by (cases ?q) (auto simp: contradictory_def split: prod.splits)
    have "prefix C B"
      using run_steps_prefix [OF step_prefix(2), of "(C, G)"] B by (auto simp: run_passes_def split: if_splits)
    then have C: "consistent v f C" "tame_arena v f C" using assms(2,3) consistent_prefix tame_prefix by blast+
    with good S have G: "sound_groups v G" "scoped_groups (length C) G" by (auto simp: good_step_def)
    have passes: "good_step v f A (pass_step k (A, H)) \<and> (\<forall>B I. pass_step k (A, H) = Inr (B, I) \<longrightarrow> fst ` set G \<subseteq> fst ` set I)"
      if "k \<in> fst ` set G" "fst ` set G \<subseteq> fst ` set H" "sound_groups v H" "scoped_groups (length A) H" for k A H
      using pass_step_good [of k H v A f] that by (meson subset_iff subset_trans)
    have "good_step v f C ?q"
    proof (cases clamps)
      case True
      have "good_step v f C (run_steps pass_step (map fst G @ map fst G) (C, G))"
        by (rule run_steps_good [where K = "fst ` set G" and ?A0.0 = C])
          (use G in \<open>simp_all add: step_prefix passes\<close>)
      with True show ?thesis by (simp add: run_passes_def)
    qed (use good_same [OF G] in simp)
    then obtain H where "?q = Inr (B, H)" "sound_groups v H"
      using B assms(2,3) by (auto simp: good_step_def)
    then show False
      using assms(1) S fits_not_exhausted by (auto simp: contradictory_def list_ex_iff sound_groups_def)
  qed
qed

text \<open>C7: a conjunction found contradictory has a literal that does not hold, for every valuation of the
  atoms in which nothing wraps: no path that can be taken is dropped.\<close>

theorem contradictory_right:
  assumes "contradictory lits clamps A = (True, B)" and "consistent v f B" and "tame_arena v f B"
    and "\<forall>l \<in> set lits. tame v f l \<and> scoped_lit (length A) l"
  shows "\<exists>l \<in> set lits. \<not> holds v f l"
  by (rule contradictory_sound [OF assms])

subsection \<open>Concrete inputs\<close>

text \<open>The bounds and inequalities of a ring with less than three stages, which leave no value.\<close>

definition demo_lits :: "expr list" where
  "demo_lits = [ECmp SGT demo_x (EPoly i32 []), ECmp NE demo_x (EPoly i32 [([], 1)]),
     ECmp NE demo_x (EPoly i32 [([], 2)]), ECmp SLT demo_x (EPoly i32 [([], 3)])]"

lemma demo_lits_tame: "\<forall>l \<in> set demo_lits. tame (\<lambda>_. 4) (\<lambda>_. 4) l \<and> scoped_lit 1 l"
  by (simp add: demo_lits_def demo_x_def in_range_def split_const_def scoped_terms_def mval_def)

theorem contradictory_right_witness:
  "contradictory demo_lits False demo_arena = (True, demo_arena) \<and> (\<exists>l \<in> set demo_lits. \<not> holds (\<lambda>_. 4) (\<lambda>_. 4) l)"
proof -
  have run: "contradictory demo_lits False demo_arena = (True, demo_arena)" by code_simp
  have "tame_arena (\<lambda>_. 4) (\<lambda>_. 4) demo_arena" by (simp add: tame_arena_def demo_arena_def tame_atom_def)
  with contradictory_right [OF run demo_consistent] demo_lits_tame run show ?thesis
    by (simp add: demo_arena_def)
qed

theorem decideLit_right_witness:
  "decideLit (ECmp SGT demo_x (EPoly i32 [])) [ECmp SGE demo_x3 (EPoly i32 [])] = None \<and>
   holds (\<lambda>_. 4) (\<lambda>_. 4) (ECmp SGE demo_x3 (EPoly i32 []))"
proof -
  have "decideLit (ECmp SGE demo_x3 (EPoly i32 [])) [ECmp SGT demo_x (EPoly i32 [])] = Some True" by code_simp
  then have "holds (\<lambda>_. 4) (\<lambda>_. 4) (ECmp SGE demo_x3 (EPoly i32 []))"
    by (rule decideLit_right [of _ _ True, simplified])
      (simp_all add: demo_x_def demo_x3_def in_range_def split_const_def mval_def)
  moreover have "decideLit (ECmp SGT demo_x (EPoly i32 [])) [ECmp SGE demo_x3 (EPoly i32 [])] = None" by code_simp
  ultimately show ?thesis by simp
qed

theorem litImplies_right_witness:
  "litImplies False (ECmp SGT demo_x (EPoly i32 [])) (ECmp SGE demo_x3 (EPoly i32 [])) \<and>
   holds (\<lambda>_. 4) (\<lambda>_. 4) (ECmp SGE demo_x3 (EPoly i32 []))"
proof
  show i: "litImplies False (ECmp SGT demo_x (EPoly i32 [])) (ECmp SGE demo_x3 (EPoly i32 []))" by code_simp
  show "holds (\<lambda>_. 4) (\<lambda>_. 4) (ECmp SGE demo_x3 (EPoly i32 []))"
    by (rule litImplies_right [OF i]) (simp_all add: demo_x_def demo_x3_def in_range_def split_const_def mval_def)
qed

end
