(* ===== verification/Sym_Conditions.thy ===== *)
theory Sym_Conditions
  imports Sym_Groups
begin

text \<open>
  The conditions of paths (\<open>notb\<close>, \<open>andb\<close>, \<open>orb\<close>, \<open>factor\<close>, \<open>implies\<close>, \<open>disjoint\<close> and \<open>given\<close> of
  \<open>cpp/mvcc-llvm/symexec.cpp\<close>): disjunctions of conjunctions of literals, simplified as they are built.

  The functions of the source call each other. Each is a definition here that takes the functions it calls
  as a record \<open>calls\<close>; \<open>calls_at n\<close> ties the knot for calls nested at most \<open>n\<close> deep, an iteration of a
  \<open>while\<close> loop counting as a call. \<open>None\<close> is a run that has not returned within that depth, or one in which
  \<open>cmp\<close> does not return. Arguments of a call are evaluated from left to right.
\<close>

subsection \<open>State\<close>

text \<open>What the arena knows of a symbol: the index of its definition if it is a guard.\<close>

datatype symbol = Guard nat | Plain

record bools =
  s_atoms :: arena
  s_symbols :: "symbol list"
  s_guardDefs :: "expr list"
  s_guardOf :: "expr \<Rightarrow> expr option"
  s_notbMemo :: "expr \<Rightarrow> expr option"
  s_andMemo :: "expr \<times> expr \<Rightarrow> expr option"
  s_orMemo :: "expr \<times> expr \<Rightarrow> expr option"
  s_givenMemo :: "expr \<times> expr \<Rightarrow> expr option"
  s_impliesMemo :: "expr \<times> expr \<Rightarrow> bool option"
  s_disjointMemo :: "expr \<times> expr \<Rightarrow> bool option"
  s_orbDepth :: nat
  s_guardDepth :: nat
  s_semantic :: bool
  s_ident :: "expr \<Rightarrow> nat"

text \<open>\<open>s_ident\<close> is the number of each node: a node keeps the number it got, so that the numbering of the
  finished arena serves the whole run.\<close>

type_synonym 'a act = "bools \<Rightarrow> ('a \<times> bools) option"

definition ret :: "'a \<Rightarrow> 'a act" where
  "ret x S = Some (x, S)"

definition andThen :: "'a act \<Rightarrow> ('a \<Rightarrow> 'b act) \<Rightarrow> 'b act" where
  "andThen m k S = (case m S of None \<Rightarrow> None | Some (x, S) \<Rightarrow> k x S)"

text \<open>An action that looks at the state.\<close>

definition with_state :: "(bools \<Rightarrow> 'a act) \<Rightarrow> 'a act" where
  "with_state k S = k S S"

text \<open>A call whose results are kept in a table.\<close>

definition memoed :: "(bools \<Rightarrow> 'k \<Rightarrow> 'a option) \<Rightarrow> ('k \<Rightarrow> 'a \<Rightarrow> bools \<Rightarrow> bools) \<Rightarrow> 'k \<Rightarrow> 'a act \<Rightarrow> 'a act" where
  "memoed look store key m S =
     (case look S key of
        Some r \<Rightarrow> Some (r, S)
      | None \<Rightarrow> andThen m (\<lambda>r S. Some (r, store key r S)) S)"

fun any_act :: "('a \<Rightarrow> bool act) \<Rightarrow> 'a list \<Rightarrow> bool act" where
  "any_act h [] = ret False"
| "any_act h (x # xs) = andThen (h x) (\<lambda>r. if r then ret True else any_act h xs)"

fun all_act :: "('a \<Rightarrow> bool act) \<Rightarrow> 'a list \<Rightarrow> bool act" where
  "all_act h [] = ret True"
| "all_act h (x # xs) = andThen (h x) (\<lambda>r. if r then all_act h xs else ret False)"

fun fold_act :: "('a \<Rightarrow> 'b \<Rightarrow> 'b act) \<Rightarrow> 'a list \<Rightarrow> 'b \<Rightarrow> 'b act" where
  "fold_act h [] y = ret y"
| "fold_act h (x # xs) y = andThen (h x y) (fold_act h xs)"

fun first_act :: "('a \<Rightarrow> 'b option act) \<Rightarrow> 'a list \<Rightarrow> 'b option act" where
  "first_act h [] = ret None"
| "first_act h (x # xs) = andThen (h x) (\<lambda>r. if r = None then first_act h xs else ret r)"

record calls =
  c_notb :: "expr \<Rightarrow> expr act"
  c_andb :: "expr \<Rightarrow> expr \<Rightarrow> expr act"
  c_orb :: "expr \<Rightarrow> expr \<Rightarrow> expr act"
  c_implies :: "expr \<Rightarrow> expr \<Rightarrow> bool act"
  c_disjoint :: "expr \<Rightarrow> expr \<Rightarrow> bool act"
  c_flat :: "expr \<Rightarrow> bool \<Rightarrow> expr list list \<Rightarrow> expr list list act"
  c_resolve :: "expr list list \<Rightarrow> expr list list act"
  c_given :: "expr \<Rightarrow> expr \<Rightarrow> expr act"

subsection \<open>Shapes of conditions\<close>

fun binary :: "opcode \<Rightarrow> expr \<Rightarrow> (expr \<times> expr) option" where
  "binary op (EOp t o' [a, b]) = (if o' = op \<and> t = IntT 1 then Some (a, b) else None)"
| "binary op e = None"

fun negated :: "expr \<Rightarrow> expr option" where
  "negated (EOp t op [a, b]) = (if op = OpXor \<and> isTrue b then Some a else None)"
| "negated e = None"

fun sides :: "expr \<Rightarrow> (pred \<times> expr \<times> expr) option" where
  "sides (ECmp p a b) = Some (p, a, b)"
| "sides e = None"

text \<open>\<open>getInversePredicate\<close>; \<open>FCmp n\<close> has the number LLVM gives it, from \<open>FCMP_FALSE = 0\<close> to
  \<open>FCMP_TRUE = 15\<close>.\<close>

fun inverse_pred :: "pred \<Rightarrow> pred" where
  "inverse_pred EQ = NE"
| "inverse_pred NE = EQ"
| "inverse_pred UGT = ULE"
| "inverse_pred UGE = ULT"
| "inverse_pred ULT = UGE"
| "inverse_pred ULE = UGT"
| "inverse_pred SGT = SLE"
| "inverse_pred SGE = SLT"
| "inverse_pred SLT = SGE"
| "inverse_pred SLE = SGT"
| "inverse_pred (FCmp n) = FCmp (15 - n)"

text \<open>The lambdas \<open>flat\<close> and \<open>fd\<close>: the members of a disjunction.\<close>

fun disjuncts :: "expr \<Rightarrow> expr list" where
  "disjuncts (EOp t op [a, b]) =
     (if op = OpOr \<and> t = IntT 1 then disjuncts a @ disjuncts b else [EOp t op [a, b]])"
| "disjuncts e = [e]"

text \<open>\<open>isGuardSym\<close>, with the definition of the guard.\<close>

fun guard_index :: "bools \<Rightarrow> expr \<Rightarrow> nat option" where
  "guard_index S (ESym t s) =
     (if s < length (s_symbols S) then (case s_symbols S ! s of Guard k \<Rightarrow> Some k | Plain \<Rightarrow> None) else None)"
| "guard_index S e = None"

definition isGuardSym :: "bools \<Rightarrow> expr \<Rightarrow> bool" where
  "isGuardSym S l \<longleftrightarrow> guard_index S l \<noteq> None"

definition guardDef :: "bools \<Rightarrow> expr \<Rightarrow> expr" where
  "guardDef S l = s_guardDefs S ! the (guard_index S l)"

text \<open>A call of \<open>cmp\<close>.\<close>

definition cmp_act :: "pred \<Rightarrow> expr \<Rightarrow> expr \<Rightarrow> expr act" where
  "cmp_act p a b S = (case cmp p a b (s_atoms S) of (None, A) \<Rightarrow> None | (Some r, A) \<Rightarrow> Some (r, S\<lparr>s_atoms := A\<rparr>))"

definition contradictory_act :: "expr list \<Rightarrow> bool act" where
  "contradictory_act lits S = (let (r, A) = contradictory lits False (s_atoms S) in Some (r, S\<lparr>s_atoms := A\<rparr>))"

subsection \<open>Negation and conjunction\<close>

definition notb_body :: "calls \<Rightarrow> expr \<Rightarrow> expr act" where
  "notb_body c a =
     (case sides a of
        Some (p, x, y) \<Rightarrow> cmp_act (inverse_pred p) x y
      | None \<Rightarrow>
          (case binary OpAnd a of
             Some (x, y) \<Rightarrow> andThen (c_notb c x) (\<lambda>nx. andThen (c_notb c y) (c_orb c nx))
           | None \<Rightarrow>
               (case binary OpOr a of
                  Some (x, y) \<Rightarrow> andThen (c_notb c x) (\<lambda>nx. andThen (c_notb c y) (c_andb c nx))
                | None \<Rightarrow> ret (EOp (type_of a) OpXor [a, mkBool True]))))"

definition notb :: "calls \<Rightarrow> expr \<Rightarrow> expr act" where
  "notb c a =
     (if isTrue a then ret (mkBool False)
      else if isFalse a then ret (mkBool True)
      else
        (case negated a of
           Some x \<Rightarrow> ret x
         | None \<Rightarrow> memoed s_notbMemo (\<lambda>k r S. S\<lparr>s_notbMemo := (s_notbMemo S)(k \<mapsto> r)\<rparr>) a (notb_body c a)))"

text \<open>The literals of a conjunction that no other one implies; of two that imply each other the first.\<close>

definition keep_lits :: "bool \<Rightarrow> expr list \<Rightarrow> expr list" where
  "keep_lits sem ls =
     [ls ! i. i \<leftarrow> [0..<length ls],
        \<not> (\<exists>j \<in> {0..<length ls}. i \<noteq> j \<and> litImplies sem (ls ! j) (ls ! i) \<and> \<not> (litImplies sem (ls ! i) (ls ! j) \<and> i < j))]"

text \<open>A chain of nodes \<open>op\<close>, to the left.\<close>

definition chain :: "sty \<Rightarrow> opcode \<Rightarrow> expr list \<Rightarrow> expr option" where
  "chain t op es = (case es of [] \<Rightarrow> None | e # es \<Rightarrow> Some (foldl (\<lambda>r x. EOp t op [r, x]) e es))"

definition conj_lits :: "sty \<Rightarrow> expr list \<Rightarrow> expr act" where
  "conj_lits t ls S =
     (case chain t OpAnd (remdups_adj (sort_key (s_ident S) (keep_lits (s_semantic S) ls))) of
        None \<Rightarrow> None
      | Some r \<Rightarrow> Some (r, S))"

text \<open>A conjunction with a disjunction among its members is distributed.\<close>

definition distribute :: "calls \<Rightarrow> expr \<Rightarrow> expr \<Rightarrow> expr act" where
  "distribute c a b =
     (case binary OpOr b of
        Some (x, y) \<Rightarrow> andThen (c_andb c a x) (\<lambda>l. andThen (c_andb c a y) (c_orb c l))
      | None \<Rightarrow>
          (case binary OpOr a of
             Some (x, y) \<Rightarrow> andThen (c_andb c x b) (\<lambda>l. andThen (c_andb c y b) (c_orb c l))
           | None \<Rightarrow> ret (EOp (type_of a) OpAnd [a, b])))"

definition andbRaw :: "calls \<Rightarrow> expr \<Rightarrow> expr \<Rightarrow> expr act" where
  "andbRaw c a b =
     andThen (c_implies c a b) (\<lambda>i. if i then ret a else
     andThen (c_implies c b a) (\<lambda>i. if i then ret b else
     andThen (c_disjoint c a b) (\<lambda>d. if d then ret (mkBool False) else
       (let ls = conjuncts a @ conjuncts b in
        if list_all (\<lambda>l. binary OpOr l = None) ls then conj_lits (type_of a) ls else distribute c a b))))"

definition andb :: "calls \<Rightarrow> expr \<Rightarrow> expr \<Rightarrow> expr act" where
  "andb c a b =
     (if isTrue a then ret b
      else if isTrue b then ret a
      else if isFalse a \<or> isFalse b then ret (mkBool False)
      else if a = b then ret a
      else memoed s_andMemo (\<lambda>k r S. S\<lparr>s_andMemo := (s_andMemo S)(k \<mapsto> r)\<rparr>) (a, b) (andbRaw c a b))"

text \<open>\<open>andb\<close> of a list of literals, starting with \<open>r\<close>.\<close>

definition and_lits :: "calls \<Rightarrow> expr list \<Rightarrow> expr \<Rightarrow> expr act" where
  "and_lits c ls r = fold_act (\<lambda>l r. c_andb c r l) ls r"

subsection \<open>Implication and disjointness\<close>

text \<open>The first guard of a conjunction replaced by its definition, distributed.\<close>

definition expandGuard :: "bools \<Rightarrow> expr list \<Rightarrow> expr option" where
  "expandGuard S lits =
     (case filter (\<lambda>i. isGuardSym S (lits ! i)) [0..<length lits] of
        [] \<Rightarrow> None
      | i # _ \<Rightarrow>
          (let rest = fold (\<lambda>l r. if isTrue r then l else EOp (type_of l) OpAnd [r, l]) (take i lits @ drop (Suc i) lits) (mkBool True);
               clauses = map (\<lambda>c. if isTrue rest then c else EOp (type_of c) OpAnd [c, rest]) (disjuncts (guardDef S (lits ! i)))
           in (case clauses of
                 [] \<Rightarrow> None
               | cl # cls \<Rightarrow> Some (foldl (\<lambda>r x. EOp (type_of x) OpOr [r, x]) cl cls))))"

definition guard_limit :: nat where "guard_limit = 32"

text \<open>A call under \<open>GuardExpandScope\<close>, \<open>False\<close> at the limit of the nesting.\<close>

definition scoped_call :: "bool act \<Rightarrow> bool act" where
  "scoped_call m S =
     (if guard_limit \<le> s_guardDepth S then Some (False, S)
      else andThen m (\<lambda>r S'. Some (r, S'\<lparr>s_guardDepth := s_guardDepth S' - 1\<rparr>)) (S\<lparr>s_guardDepth := s_guardDepth S + 1\<rparr>))"

text \<open>One literal of the right-hand side: \<open>a\<close>, with the literals \<open>la\<close>, implies \<open>l\<close> by itself, through the
  definition of a guard, or by excluding the negation.\<close>

definition implies_lit :: "calls \<Rightarrow> expr \<Rightarrow> expr list \<Rightarrow> expr \<Rightarrow> bool act" where
  "implies_lit c a la l =
     with_state (\<lambda>S. if list_ex (\<lambda>m. litImplies (s_semantic S) m l) la then ret True
      else
        andThen (if isGuardSym S l then c_implies c a (guardDef S l) else ret False) (\<lambda>ok. if ok then ret True else
        andThen (case negated l of
                   Some g \<Rightarrow> if isGuardSym S g then c_disjoint c a (guardDef S g) else ret False
                 | None \<Rightarrow> ret False) (\<lambda>ok. if ok then ret True else
        andThen (c_notb c l) (\<lambda>nl. contradictory_act (la @ [nl])))))"

fun implies_lits :: "calls \<Rightarrow> expr \<Rightarrow> expr \<Rightarrow> expr list \<Rightarrow> expr list \<Rightarrow> bool act" where
  "implies_lits c a b la [] = ret True"
| "implies_lits c a b la (l # lb) =
     andThen (implies_lit c a la l) (\<lambda>ok. if ok then implies_lits c a b la lb else
       with_state (\<lambda>S. case expandGuard S la of
                         None \<Rightarrow> ret False
                       | Some ex \<Rightarrow> scoped_call (c_implies c ex b)))"

definition impliesRaw :: "calls \<Rightarrow> expr \<Rightarrow> expr \<Rightarrow> bool act" where
  "impliesRaw c a b =
     (if isTrue b \<or> a = b \<or> isFalse a then ret True
      else
        (case binary OpOr a of
           Some (x, y) \<Rightarrow> andThen (c_implies c x b) (\<lambda>i. if i then c_implies c y b else ret False)
         | None \<Rightarrow>
             (case binary OpOr b of
                Some (x, y) \<Rightarrow> andThen (c_implies c a x) (\<lambda>i. if i then ret True else c_implies c a y)
              | None \<Rightarrow>
                  with_state (\<lambda>S. if isGuardSym S b then c_implies c a (guardDef S b)
                                  else implies_lits c a b (conjuncts a) (conjuncts b)))))"

definition implies :: "calls \<Rightarrow> expr \<Rightarrow> expr \<Rightarrow> bool act" where
  "implies c a b =
     (if isTrue b \<or> a = b \<or> isFalse a then ret True
      else memoed s_impliesMemo (\<lambda>k r S. S\<lparr>s_impliesMemo := (s_impliesMemo S)(k \<mapsto> r)\<rparr>) (a, b) (impliesRaw c a b))"

definition excludes :: "calls \<Rightarrow> expr \<Rightarrow> expr \<Rightarrow> bool act" where
  "excludes c x y = andThen (c_notb c x) (\<lambda>nx. with_state (\<lambda>S. ret (nx = y \<or> litImplies (s_semantic S) y nx)))"

text \<open>\<open>litImplies(notb(x), y)\<close>.\<close>

definition excludes_not :: "calls \<Rightarrow> expr \<Rightarrow> expr \<Rightarrow> bool act" where
  "excludes_not c x y = andThen (c_notb c x) (\<lambda>nx. with_state (\<lambda>S. ret (litImplies (s_semantic S) nx y)))"

definition disjointRaw :: "calls \<Rightarrow> expr \<Rightarrow> expr \<Rightarrow> bool act" where
  "disjointRaw c a b =
     (if isFalse a \<or> isFalse b then ret True
      else
        (case binary OpOr a of
           Some (x, y) \<Rightarrow> andThen (c_disjoint c x b) (\<lambda>d. if d then c_disjoint c y b else ret False)
         | None \<Rightarrow>
             (case binary OpOr b of
                Some (x, y) \<Rightarrow> andThen (c_disjoint c a x) (\<lambda>d. if d then c_disjoint c a y else ret False)
              | None \<Rightarrow>
                  (let la = conjuncts a; lb = conjuncts b in
                   andThen (any_act (\<lambda>(x, y). excludes c x y) (List.product la lb)) (\<lambda>d. if d then ret True else
                   andThen (contradictory_act (la @ lb)) (\<lambda>d. if d then ret True else
                     with_state (\<lambda>S. case expandGuard S la of
                            Some ea \<Rightarrow> scoped_call (c_disjoint c ea b)
                          | None \<Rightarrow>
                              (case expandGuard S lb of
                                 Some eb \<Rightarrow> scoped_call (c_disjoint c a eb)
                               | None \<Rightarrow> ret False))))))))"

definition disjoint :: "calls \<Rightarrow> expr \<Rightarrow> expr \<Rightarrow> bool act" where
  "disjoint c a b =
     (if isFalse a \<or> isFalse b then ret True
      else memoed s_disjointMemo (\<lambda>k r S. S\<lparr>s_disjointMemo := (s_disjointMemo S)(k \<mapsto> r)\<rparr>) (a, b) (disjointRaw c a b))"

subsection \<open>Disjunction\<close>

text \<open>A guard with at most four clauses of literals that are no guards: its definition.\<close>

definition shallowGuard :: "bools \<Rightarrow> expr \<Rightarrow> expr option" where
  "shallowGuard S l =
     (if \<not> isGuardSym S l then None
      else
        let cls = disjuncts (guardDef S l) in
        if list_all (\<lambda>c. list_all (\<lambda>x. \<not> isGuardSym S x) (conjuncts c)) cls \<and> length cls \<le> 4
        then Some (guardDef S l) else None)"

text \<open>The first literal that is such a guard, with its position.\<close>

definition shallow_at :: "bools \<Rightarrow> expr list \<Rightarrow> (nat \<times> expr) option" where
  "shallow_at S ls =
     (case filter (\<lambda>i. shallowGuard S (ls ! i) \<noteq> None) [0..<length ls] of
        [] \<Rightarrow> None
      | i # _ \<Rightarrow> Some (i, the (shallowGuard S (ls ! i))))"

definition without :: "nat \<Rightarrow> 'a list \<Rightarrow> 'a list" where
  "without i xs = take i xs @ drop (Suc i) xs"

text \<open>The clause \<open>c\<close>, with the literals \<open>ls\<close>, added to the clauses, or expanded.\<close>

definition add_clause :: "calls \<Rightarrow> expr \<Rightarrow> expr list \<Rightarrow> expr list list \<Rightarrow> expr list list act" where
  "add_clause c e ls cls =
     (if isTrue e then ret [[]]
      else
        with_state (\<lambda>S. case (if length cls < 64 then shallow_at S ls else None) of
           Some (i, d) \<Rightarrow>
             andThen (and_lits c (without i ls) (mkBool True)) (\<lambda>rest.
               fold_act (\<lambda>x cls. andThen (c_andb c rest x) (\<lambda>e. c_flat c e True cls)) (disjuncts d) cls)
         | None \<Rightarrow> ret (cls @ [sort_key (s_ident S) ls])))"

definition flat :: "calls \<Rightarrow> expr \<Rightarrow> bool \<Rightarrow> expr list list \<Rightarrow> expr list list act" where
  "flat c e canon cls =
     (case binary OpOr e of
        Some (x, y) \<Rightarrow> andThen (c_flat c x canon cls) (c_flat c y canon)
      | None \<Rightarrow>
          if isFalse e then ret cls
          else
            let ls = conjuncts e in
            if canon then
              andThen (and_lits c ls (mkBool True)) (\<lambda>cc. if cc \<noteq> e then c_flat c cc False cls else add_clause c e ls cls)
            else add_clause c e ls cls)"

text \<open>\<open>std::set_difference\<close> and \<open>std::set_intersection\<close> of two ranges sorted by number: the loop over
  both.\<close>

fun set_difference :: "('a \<Rightarrow> nat) \<Rightarrow> 'a list \<Rightarrow> 'a list \<Rightarrow> 'a list" where
  "set_difference k [] ys = []"
| "set_difference k (x # xs) [] = x # xs"
| "set_difference k (x # xs) (y # ys) =
     (if k x < k y then x # set_difference k xs (y # ys)
      else if k y < k x then set_difference k (x # xs) ys
      else set_difference k xs ys)"

fun set_intersection :: "('a \<Rightarrow> nat) \<Rightarrow> 'a list \<Rightarrow> 'a list \<Rightarrow> 'a list" where
  "set_intersection k [] ys = []"
| "set_intersection k (x # xs) [] = []"
| "set_intersection k (x # xs) (y # ys) =
     (if k x < k y then set_intersection k xs (y # ys)
      else if k y < k x then set_intersection k (x # xs) ys
      else x # set_intersection k xs ys)"

definition complementary :: "calls \<Rightarrow> expr \<Rightarrow> expr \<Rightarrow> bool act" where
  "complementary c x y =
     andThen (c_notb c x) (\<lambda>nx. ret (nx = y \<or>
       (case (sides x, sides y) of
          (Some (p, xa, xb), Some (q, ya, yb)) \<Rightarrow> xa = ya \<and> xb = yb \<and> p = inverse_pred q
        | _ \<Rightarrow> False)))"

text \<open>One of the two literals holds always.\<close>

definition covering :: "calls \<Rightarrow> expr \<Rightarrow> expr \<Rightarrow> bool act" where
  "covering c x y =
     andThen (complementary c x y) (\<lambda>r. if r then ret True else
     andThen (excludes_not c x y) (\<lambda>r. if r then ret True else excludes_not c y x))"

definition subsumed :: "bool \<Rightarrow> expr list \<Rightarrow> expr list \<Rightarrow> bool" where
  "subsumed sem by cl \<longleftrightarrow> list_all (\<lambda>m. list_ex (\<lambda>l. litImplies sem l m) cl) by"

text \<open>The rest of the clause implies its literal \<open>k\<close>.\<close>

definition redundant :: "calls \<Rightarrow> expr list \<Rightarrow> nat \<Rightarrow> bool act" where
  "redundant c cl k = andThen (and_lits c (without k cl) (mkBool True)) (\<lambda>rest. c_implies c rest (cl ! k))"

text \<open>The first literal of \<open>cl\<close> to drop against a clause whose only literal of its own is \<open>l\<close>; \<open>d\<close> are
  those of \<open>cl\<close>.\<close>

definition drop_at :: "calls \<Rightarrow> expr \<Rightarrow> expr list \<Rightarrow> expr list \<Rightarrow> nat option act" where
  "drop_at c l d cl =
     first_act (\<lambda>k. andThen (covering c l (cl ! k)) (\<lambda>r.
       if \<not> r then ret None
       else if cl ! k \<in> set d then ret (Some k)
       else andThen (redundant c cl k) (\<lambda>r. ret (if r then Some k else None)))) [0..<length cl]"

text \<open>The body of the two loops, for \<open>i < j\<close>: the clauses changed, or nothing.\<close>

definition resolve_pair :: "calls \<Rightarrow> expr list list \<Rightarrow> nat \<times> nat \<Rightarrow> expr list list option act" where
  "resolve_pair c cls ij =
     with_state (\<lambda>S.
       let (i, j) = ij; ci = cls ! i; cj = cls ! j; k = s_ident S;
           di = set_difference k ci cj; dj = set_difference k cj ci
       in if di = [] then ret (Some (without j cls))
          else if dj = [] then ret (Some (without i cls))
          else if s_semantic S \<and> subsumed True ci cj then ret (Some (without j cls))
          else if s_semantic S \<and> subsumed True cj ci then ret (Some (without i cls))
          else
            andThen (if length di = 1 \<and> length dj = 1 then covering c (hd di) (hd dj) else ret False) (\<lambda>cov.
              if cov then ret (Some (without j (cls[i := set_intersection k ci cj])))
              else
                andThen (if length di = 1 then drop_at c (hd di) dj cj else ret None) (\<lambda>r.
                  case r of
                    Some n \<Rightarrow> ret (Some (cls[j := without n cj]))
                  | None \<Rightarrow>
                      andThen (if length dj = 1 then drop_at c (hd dj) di ci else ret None) (\<lambda>r.
                        ret (map_option (\<lambda>n. cls[i := without n ci]) r)))))"

definition resolve :: "calls \<Rightarrow> expr list list \<Rightarrow> expr list list act" where
  "resolve c cls =
     andThen (first_act (resolve_pair c cls) [(i, j). i \<leftarrow> [0..<length cls], j \<leftarrow> [Suc i..<length cls]])
       (\<lambda>r. case r of None \<Rightarrow> ret cls | Some cls \<Rightarrow> c_resolve c cls)"

text \<open>The clauses put together: \<open>Inl\<close> a clause that is true, \<open>Inr\<close> the disjunction so far and whether
  \<open>andb\<close> simplified a clause.\<close>

fun rebuild_clauses :: "calls \<Rightarrow> sty \<Rightarrow> expr list list \<Rightarrow> expr option \<Rightarrow> bool \<Rightarrow> (expr + expr option \<times> bool) act" where
  "rebuild_clauses c t [] r again = ret (Inr (r, again))"
| "rebuild_clauses c t (cl # cls) r again =
     andThen (and_lits c cl (mkBool True)) (\<lambda>e.
       if isTrue e then ret (Inl e)
       else if isFalse e then rebuild_clauses c t cls r True
       else rebuild_clauses c t cls (Some (case r of None \<Rightarrow> e | Some r \<Rightarrow> EOp t OpOr [r, e]))
              (again \<or> length (conjuncts e) \<noteq> length cl))"

text \<open>A round of \<open>orb\<close> on its own result.\<close>

definition again_orb :: "calls \<Rightarrow> expr \<Rightarrow> expr \<Rightarrow> expr act" where
  "again_orb c x y S =
     andThen (c_orb c x y) (\<lambda>r S'. Some (r, S'\<lparr>s_orbDepth := s_orbDepth S' - 1\<rparr>)) (S\<lparr>s_orbDepth := s_orbDepth S + 1\<rparr>)"

definition finish :: "calls \<Rightarrow> expr + expr option \<times> bool \<Rightarrow> expr act" where
  "finish c r =
     (case r of
        Inl e \<Rightarrow> ret e
      | Inr (None, again) \<Rightarrow> ret (mkBool False)
      | Inr (Some r, again) \<Rightarrow>
          with_state (\<lambda>S. case binary OpOr r of
            Some (x, y) \<Rightarrow> if again \<and> s_orbDepth S < 4 then again_orb c x y else ret r
          | None \<Rightarrow> ret r))"

definition orbRaw :: "calls \<Rightarrow> expr \<Rightarrow> expr \<Rightarrow> expr act" where
  "orbRaw c a b =
     andThen (c_implies c a b) (\<lambda>i. if i then ret b else
     andThen (c_implies c b a) (\<lambda>i. if i then ret a else
     andThen (andThen (c_flat c a True []) (c_flat c b True)) (\<lambda>cls. if [] \<in> set cls then ret (mkBool True) else
     andThen (c_resolve c cls) (\<lambda>cls.
     andThen (rebuild_clauses c (type_of a) cls None False) (finish c)))))"

definition orb :: "calls \<Rightarrow> expr \<Rightarrow> expr \<Rightarrow> expr act" where
  "orb c a b =
     (if isFalse a then ret b
      else if isFalse b then ret a
      else if isTrue a \<or> isTrue b then ret (mkBool True)
      else if a = b then ret a
      else memoed s_orMemo (\<lambda>k r S. S\<lparr>s_orMemo := (s_orMemo S)(k \<mapsto> r)\<rparr>) (a, b) (orbRaw c a b))"

subsection \<open>A condition under a context\<close>

fun given_lits :: "calls \<Rightarrow> expr \<Rightarrow> expr list \<Rightarrow> expr \<Rightarrow> expr act" where
  "given_lits c ctx [] r = ret r"
| "given_lits c ctx (l # ls) r =
     andThen (c_implies c ctx l) (\<lambda>i. if i then given_lits c ctx ls r else
     andThen (c_disjoint c ctx l) (\<lambda>d. if d then ret (mkBool False) else
     andThen (with_state (\<lambda>S. if isGuardSym S l then andThen (c_given c (guardDef S l) ctx) (c_andb c r) else c_andb c r l))
       (given_lits c ctx ls)))"

definition givenRaw :: "calls \<Rightarrow> expr \<Rightarrow> expr \<Rightarrow> expr act" where
  "givenRaw c e ctx =
     andThen (c_implies c ctx e) (\<lambda>i. if i then ret (mkBool True) else
       (case binary OpOr e of
          Some (x, y) \<Rightarrow> andThen (c_given c x ctx) (\<lambda>l. andThen (c_given c y ctx) (c_orb c l))
        | None \<Rightarrow> given_lits c ctx (conjuncts e) (mkBool True)))"

definition given :: "calls \<Rightarrow> expr \<Rightarrow> expr \<Rightarrow> expr act" where
  "given c e ctx =
     (if isTrue e \<or> isFalse e then ret e
      else memoed s_givenMemo (\<lambda>k r S. S\<lparr>s_givenMemo := (s_givenMemo S)(k \<mapsto> r)\<rparr>) (e, ctx) (givenRaw c e ctx))"

subsection \<open>The knot\<close>

fun calls_at :: "nat \<Rightarrow> calls" where
  "calls_at 0 = \<lparr>c_notb = \<lambda>a S. None, c_andb = \<lambda>a b S. None, c_orb = \<lambda>a b S. None, c_implies = \<lambda>a b S. None,
     c_disjoint = \<lambda>a b S. None, c_flat = \<lambda>e k cls S. None, c_resolve = \<lambda>cls S. None, c_given = \<lambda>e ctx S. None\<rparr>"
| "calls_at (Suc n) = (let c = calls_at n in
     \<lparr>c_notb = notb c, c_andb = andb c, c_orb = orb c, c_implies = implies c,
      c_disjoint = disjoint c, c_flat = flat c, c_resolve = resolve c, c_given = given c\<rparr>)"

subsection \<open>A disjunction replaced by a guard\<close>

text \<open>\<open>mkSymRaw\<close> for a guard: its number is new, so that the symbol is.\<close>

definition new_guard :: "sty \<Rightarrow> expr \<Rightarrow> expr act" where
  "new_guard t d S =
     (let g = ESym t (length (s_symbols S)) in
      Some (g, S\<lparr>s_symbols := s_symbols S @ [Guard (length (s_guardDefs S))], s_guardDefs := s_guardDefs S @ [d],
                 s_guardOf := (s_guardOf S)(d \<mapsto> g)\<rparr>))"

text \<open>What is left of the clauses without the common literals, as one disjunction.\<close>

fun rest_of :: "calls \<Rightarrow> sty \<Rightarrow> expr list list \<Rightarrow> expr option \<Rightarrow> expr option act" where
  "rest_of c t [] r = ret r"
| "rest_of c t (d # ds) r =
     andThen (and_lits c d (mkBool True)) (\<lambda>x.
       if isTrue x then ret (Some x)
       else rest_of c t ds (Some (case r of None \<Rightarrow> x | Some r \<Rightarrow> EOp t OpOr [r, x])))"

definition guard_for :: "sty \<Rightarrow> expr \<Rightarrow> expr act" where
  "guard_for t rest =
     (if isTrue rest then ret rest
      else with_state (\<lambda>S. case s_guardOf S rest of Some g \<Rightarrow> ret g | None \<Rightarrow> new_guard t rest))"

definition factor_cond :: "calls \<Rightarrow> expr \<Rightarrow> expr act" where
  "factor_cond c e =
     (if binary OpOr e = None then ret e
      else
        with_state (\<lambda>S.
          let k = s_ident S;
              cls = map (\<lambda>x. sort_key k (conjuncts x)) (disjuncts e);
              common = fold (\<lambda>cl m. set_intersection k m cl) (tl cls) (hd cls)
          in andThen (rest_of c (type_of e) (map (\<lambda>cl. set_difference k cl common) cls) None) (\<lambda>rest.
               andThen (guard_for (type_of e) (the rest)) (and_lits c common))))"

end
