(* ===== verification/Sym_Literals.thy ===== *)
theory Sym_Literals
  imports Sym_Conditions
begin

text \<open>
  Facts on the literals of conditions: comparisons in the form \<open>cmp\<close> leaves them in. Negating such a literal
  returns another one, implication between them has no cycles, so that dropping implied literals loses
  nothing, and the test for contradictions applies to any list of conditions.
\<close>

subsection \<open>Literals in normal form\<close>

text \<open>Coprime coefficients, the leading one positive.\<close>

definition normal_terms :: "terms \<Rightarrow> bool" where
  "normal_terms ts \<longleftrightarrow> (let pn = fst (split_const ts) in pn \<noteq> [] \<and> coef_gcd pn = 1 \<and> 0 < snd (hd pn))"

text \<open>An order \<open>P > 0\<close> whose negation is \<open>P - 1 < 0\<close>, or the other way round, neither wrapping.\<close>

fun normal_pred :: "(nat \<Rightarrow> int) \<Rightarrow> nat \<Rightarrow> pred \<Rightarrow> terms \<Rightarrow> terms \<Rightarrow> bool" where
  "normal_pred v w SGT ts us \<longleftrightarrow> us = [] \<and> normal_terms ts \<and> in_range w (pval v ts - 1) \<and> \<bar>coef ts [] - 1\<bar> \<le> 2 ^ 63"
| "normal_pred v w SLT ts us \<longleftrightarrow> us = [] \<and> normal_terms ts \<and> in_range w (pval v ts + 1) \<and> \<bar>coef ts [] + 1\<bar> \<le> 2 ^ 63"
| "normal_pred v w SGE ts us \<longleftrightarrow> False"
| "normal_pred v w SLE ts us \<longleftrightarrow> False"
| "normal_pred v w (FCmp n) ts us \<longleftrightarrow> False"
| "normal_pred v w EQ ts us \<longleftrightarrow> coef us [] = 0"
| "normal_pred v w NE ts us \<longleftrightarrow> coef us [] = 0"
| "normal_pred v w p ts us \<longleftrightarrow> True"

definition fit_terms :: "(nat \<Rightarrow> int) \<Rightarrow> nat \<Rightarrow> nat \<Rightarrow> terms \<Rightarrow> bool" where
  "fit_terms v n w ts \<longleftrightarrow> canonical ts \<and> scoped_terms n ts \<and> in_range w (pval v ts) \<and> \<bar>coef ts []\<bar> \<le> 2 ^ 63"

fun good_lit :: "(nat \<Rightarrow> int) \<Rightarrow> nat \<Rightarrow> pred \<Rightarrow> expr \<Rightarrow> expr \<Rightarrow> bool" where
  "good_lit v n p (EPoly (IntT w) ts) (EPoly u us) \<longleftrightarrow>
     u = IntT w \<and> 1 < w \<and> w \<le> 64 \<and> fit_terms v n w ts \<and> fit_terms v n w us \<and> normal_pred v w p ts us"
| "good_lit v n p a b \<longleftrightarrow> False"

lemma good_litE:
  assumes "good_lit v n p a b"
  obtains w ts us where "a = EPoly (IntT w) ts" "b = EPoly (IntT w) us" "1 < w" "w \<le> 64"
    "fit_terms v n w ts" "fit_terms v n w us" "normal_pred v w p ts us"
  using assms by (cases "(v, n, p, a, b)" rule: good_lit.cases) auto

lemma fit_tame: "fit_terms v n w ts \<Longrightarrow> tame_side v f w (EPoly t ts)"
  by (simp add: fit_terms_def split_const_coef)

lemma good_lit_tame: "good_lit v n p a b \<Longrightarrow> tame v f (ECmp p a b)"
  by (elim good_litE) (simp add: fit_tame del: tame_side.simps)

lemma good_lit_scoped: "good_lit v n p a b \<Longrightarrow> n \<le> m \<Longrightarrow> scoped_lit m (ECmp p a b)"
  by (elim good_litE) (auto simp: fit_terms_def intro: scoped_mono)

subsection \<open>The negation of a literal\<close>

lemma coef_nonconst: "coef (filter (\<lambda>t. fst t \<noteq> []) ts) m = (if m = [] then 0 else coef ts m)"
  by (induction ts) auto

lemma coef_split: "canonical ts \<Longrightarrow> coef (fst (split_const ts)) m + (if m = [] then snd (split_const ts) else 0) = coef ts m"
  by (simp add: split_const_coef) (simp add: split_const_def coef_nonconst)

lemma canonical_neg_map: "canonical ts \<Longrightarrow> canonical (map (\<lambda>t. (fst t, - snd t)) ts)"
  by (induction ts rule: canonical.induct) auto

lemma neg_terms_map: "canonical ts \<Longrightarrow> neg_terms ts = map (\<lambda>t. (fst t, - snd t)) ts"
  by (simp add: neg_terms_def mk_canonical canonical_neg_map)

lemma split_neg_map:
  assumes "canonical ts"
  shows "split_const (map (\<lambda>t. (fst t, - snd t)) ts) = (map (\<lambda>t. (fst t, - snd t)) (fst (split_const ts)), - snd (split_const ts))"
  using split_const_coef [OF assms] split_const_coef [OF canonical_neg_map [OF assms]]
  by (intro prod_eqI) (simp_all add: split_const_def filter_map o_def coef_def)

lemma coef_gcd_neg: "coef_gcd (map (\<lambda>t. (fst t, - snd t)) ts) = coef_gcd ts"
proof -
  have "fold (\<lambda>t g. if g \<noteq> 0 then gcd g \<bar>snd t\<bar> else \<bar>snd t\<bar>) (map (\<lambda>t. (fst t, - snd t)) ts) g
      = fold (\<lambda>t g. if g \<noteq> 0 then gcd g \<bar>snd t\<bar> else \<bar>snd t\<bar>) ts g" for g :: int
    by (induction ts arbitrary: g) simp_all
  then show ?thesis by (simp add: coef_gcd_def)
qed

lemma coef_append [simp]: "coef (ts @ us) m = coef ts m + coef us m"
  by (simp add: coef_def)

lemma mk_split:
  assumes "canonical ts" and "split_const ts = (pn, c)"
  shows "mk_terms (pn @ (if c = 0 then [] else [([], c)])) = ts"
proof (rule canonical_unique)
  have "coef pn m + (if m = [] then c else 0) = coef ts m" for m using coef_split [OF assms(1), of m] by (simp only: assms(2) fst_conv snd_conv)
  then have pn: "coef pn m = coef ts m - (if m = [] then c else 0)" for m by (simp add: eq_diff_eq)
  show "coef (mk_terms (pn @ (if c = 0 then [] else [([], c)]))) = coef ts"
    by (rule ext) (cases "c = 0", simp_all add: pn coef_simps(2))
qed (simp_all add: assms(1))

lemma round_one [simp]: "fdiv x 1 = x" "cdiv x 1 = x"
  by (simp_all add: fdiv_div cdiv_div)

text \<open>The normal form of a polynomial that has it.\<close>

lemma order_literal_normal:
  assumes "canonical ts" and "normal_terms ts"
  shows "order_literal t ts = ECmp SGT (EPoly t ts) (EPoly t [])"
    and "order_literal t (neg_terms ts) = ECmp SLT (EPoly t ts) (EPoly t [])"
proof -
  obtain pn c where s: "split_const ts = (pn, c)" by fastforce
  note n = assms(2) [unfolded normal_terms_def s, simplified]
  have z: "mkInt t 0 = EPoly t []" 
    by (simp add: mkInt_def polyConst_def mkPoly_def wrap_def mk_terms_def Let_def)
  show "order_literal t ts = ECmp SGT (EPoly t ts) (EPoly t [])"
    using n mk_split [OF assms(1) s] by (simp add: order_literal_def s z mkPoly_def o_def split: if_splits)
  show "order_literal t (neg_terms ts) = ECmp SLT (EPoly t ts) (EPoly t [])"
    using n mk_split [OF assms(1) s]
    by (simp add: order_literal_def neg_terms_map [OF assms(1)] split_neg_map [OF assms(1)] s z mkPoly_def o_def
      coef_gcd_neg hd_map split: if_splits)
qed

lemma mkInt_zero: "mkInt t 0 = EPoly t []"
  by (simp add: mkInt_def polyConst_def mkPoly_def wrap_def mk_terms_def Let_def)

text \<open>A polynomial moved by one.\<close>

lemma canonical_filter: "canonical ts \<Longrightarrow> canonical (filter P ts)"
  by (induction ts) (auto simp: canonical_Cons)

lemma same_nonconst:
  assumes "canonical ts" and "canonical us" and "\<And>m. m \<noteq> [] \<Longrightarrow> coef ts m = coef us m"
  shows "fst (split_const ts) = fst (split_const us)"
  using assms by (auto simp: split_const_def fun_eq_iff coef_nonconst intro!: canonical_unique canonical_filter)

lemma normal_shift:
  assumes "canonical ts" and "normal_terms ts" and "canonical us" and "\<And>m. m \<noteq> [] \<Longrightarrow> coef us m = coef ts m"
  shows "normal_terms us"
  using assms(2) same_nonconst [OF assms(3,1) assms(4)] by (simp add: normal_terms_def)

lemma normal_nonconst: "canonical ts \<Longrightarrow> normal_terms ts \<Longrightarrow> constInt (EPoly t ts) = None"
proof -
  assume "canonical ts" "normal_terms ts"
  then obtain u where "u \<in> set ts" "fst u \<noteq> []"
    by (auto simp: normal_terms_def split_const_def Let_def filter_empty_conv)
  moreover from this have "coef ts (fst u) = snd u \<and> snd u \<noteq> 0" using canonical_mem [OF \<open>canonical ts\<close>, of "fst u" "snd u"] by simp
  ultimately show ?thesis using constInt_None_iff [OF \<open>canonical ts\<close>] by auto
qed

lemma scoped_add: "scoped_terms n as \<Longrightarrow> scoped_terms n bs \<Longrightarrow> scoped_terms n (add_terms as bs)"
  by (simp add: add_terms_def scoped_mk)

text \<open>What \<open>cmp\<close> makes of the negated literal: it returns, and the literal is normal again.\<close>

lemma cmp_same_type: "cmp p (EPoly t ts) (EPoly u us) A = (cmp_poly p (EPoly t ts) (EPoly u us), A)"
  by (simp add: cmp_def cmp_operand_def)

definition good_result :: "(nat \<Rightarrow> int) \<Rightarrow> nat \<Rightarrow> expr \<Rightarrow> bool" where
  "good_result v n e \<longleftrightarrow> e = mkBool True \<or> e = mkBool False \<or> (\<exists>p a b. e = ECmp p a b \<and> good_lit v n p a b)"

lemma good_comparable: "good_lit v n p a b \<Longrightarrow> comparable a b"
  by (elim good_litE) (auto simp: comparable_def canonical_side_def fit_terms_def dest!: constInt_ev [where v = v])

lemma icmp_inverse: "(\<And>n. p \<noteq> FCmp n) \<Longrightarrow> icmp w (inverse_pred p) x y \<longleftrightarrow> \<not> icmp w p x y"
  by (cases p) auto

lemma cmp_inverse_returns:
  assumes "good_lit v n p a b"
  shows "\<exists>e. cmp (inverse_pred p) a b A = (Some e, A) \<and> good_result v n e"
proof -
  from assms obtain w ts us where a: "a = EPoly (IntT w) ts" "b = EPoly (IntT w) us" and w: "1 < w" "w \<le> 64"
    and fit: "fit_terms v n w ts" "fit_terms v n w us" and n: "normal_pred v w p ts us" by (rule good_litE)
  let ?t = "IntT w" and ?one = "terms_of (mkInt (IntT w) 1)"
  have c: "canonical ts" "canonical us" using fit by (simp_all add: fit_terms_def)
  have one: "pval v ?one = 1" "coef ?one m = (if m = [] then 1 else 0)" for m
    using wrap_one [of ?t] w by (simp_all add: mkInt_terms)
  have sone: "scoped_terms n ?one"
    unfolding mkInt_def polyConst_def mkPoly_def terms_of.simps by (rule scoped_mk) (simp add: scoped_terms_def)
  have same: "good_result v n (same_poly q a b)" if "normal_pred v w q ts us" for q
    using that a w fit by (auto simp: same_poly_def good_result_def)
  note step = cmp_poly.simps [of "inverse_pred p" a b]
  have moved: "\<exists>e. cmp (inverse_pred p) a b A = (Some e, A) \<and> good_result v n e"
    if p: "p = SGT \<and> X = sub_terms ts ?one \<or> p = SLT \<and> X = add_terms ts ?one" for X
  proof -
    have us: "us = []" and nt: "normal_terms ts" using n p by auto
    have X: "canonical X" "\<And>m. m \<noteq> [] \<Longrightarrow> coef X m = coef ts m" "scoped_terms n X"
      using p fit sone by (auto simp: one scoped_sub scoped_add fit_terms_def)
    have nX: "normal_terms X" by (rule normal_shift [OF c(1) nt X(1,2)])
    have neg: "sub_terms [] X = neg_terms X" "sub_terms X [] = X" by (rule canonical_eqI; simp add: X(1))+
    have no: "constInt (EPoly ?t Y) = None" if "Y \<in> {ts, X, neg_terms X}" for Y
      using that normal_nonconst [OF c(1) nt] normal_nonconst [OF X(1) nX]
      by (auto simp: constInt_None_iff c X(1)) (metis coef_def lin_ops(2) neg_equal_0_iff_equal)+
    have "normal_pred v w (if p = SGT then SLT else SGT) X []" "fit_terms v n w X"
      using p n nX X fit by (auto simp: fit_terms_def one)
    then have g: "good_lit v n (if p = SGT then SLT else SGT) (EPoly ?t X) (EPoly ?t [])"
      using w fit us by (auto simp: fit_terms_def)
    have "cmp_poly (inverse_pred p) a b = Some (ECmp (if p = SGT then SLT else SGT) (EPoly ?t X) (EPoly ?t []))"
    proof (cases "p = SGT")
      case True
      then have "cmp_poly (inverse_pred p) a b = cmp_poly SLT (EPoly ?t X) (EPoly ?t [])"
        using p a us no by (subst cmp_poly.simps) simp
      then show ?thesis
        using True no order_literal_normal(2) [OF X(1) nX, of ?t] by (subst (asm) cmp_poly.simps) (simp add: neg order_cmp_def)
    next
      case False
      then have "cmp_poly (inverse_pred p) a b = cmp_poly SGT (EPoly ?t X) (EPoly ?t [])"
        using p a us no by (subst cmp_poly.simps) auto
      then show ?thesis
        using False no order_literal_normal(1) [OF X(1) nX, of ?t] by (subst (asm) cmp_poly.simps) (simp add: neg order_cmp_def)
    qed
    then show ?thesis using a g unfolding good_result_def by (auto simp: cmp_same_type)
  qed
  show ?thesis
  proof (cases "p = SGT \<or> p = SLT")
    case True
    then show ?thesis using moved by blast
  next
    case False
    then have q: "inverse_pred p \<notin> {SLE, SGE, SLT, SGT}" and nq: "normal_pred v w (inverse_pred p) ts us"
      using n by (cases p; simp)+
    have "const_term us = None" if "inverse_pred p = EQ \<or> inverse_pred p = NE"
      using that n const_term_None [OF c(2)] by (cases p) auto
    then have "cmp_poly (inverse_pred p) a b =
        Some (if constInt a \<noteq> None \<and> constInt b \<noteq> None
              then mkBool (icmp_compare w (inverse_pred p) (the (constInt a)) (the (constInt b))) else same_poly (inverse_pred p) a b)"
      using q a by (subst cmp_poly.simps) (auto simp: isSigned_def)
    then show ?thesis using same [OF nq] a by (auto simp: cmp_same_type good_result_def mkBool_def)
  qed
qed

lemma cmp_inverse_holds:
  assumes "good_lit v n p a b" and "cmp (inverse_pred p) a b A = (Some e, B)"
  shows "A = B \<and> good_result v n e \<and> (holds v f e \<longleftrightarrow> \<not> holds v f (ECmp p a b))"
proof -
  obtain w ts us where a: "a = EPoly (IntT w) ts" "b = EPoly (IntT w) us" and n: "normal_pred v w p ts us"
    using assms(1) by (rule good_litE)
  have "cmp_poly (inverse_pred p) a b = Some e" using assms(2) a by (simp add: cmp_same_type)
  from cmp_poly_holds [OF this, of v f] good_comparable [OF assms(1)]
  have "holds v f e \<longleftrightarrow> icmp (width (type_of a)) (inverse_pred p) (ev v f a) (ev v f b)" by simp
  moreover have "p \<noteq> FCmp k" for k using n by auto
  ultimately show ?thesis using cmp_inverse_returns [OF assms(1), of A] assms(2) icmp_inverse [of p] by auto
qed

subsection \<open>Implication between literals has no cycles\<close>

text \<open>What a literal implies is weaker in this order: orders of one direction by their bound, then the
  unsigned range test, equations, inequations.\<close>

fun strength :: "expr \<Rightarrow> nat \<times> int" where
  "strength (ECmp p a b) =
     (case p of SGT \<Rightarrow> (0, coef (terms_of a) []) | SLT \<Rightarrow> (0, - coef (terms_of a) [])
      | EQ \<Rightarrow> (2, 0) | NE \<Rightarrow> (3, 0) | _ \<Rightarrow> (1, 0))"
| "strength e = (1, 0)"

lemma const_diff_coef:
  "const_diff xs ys cx cy = Some (dx, dy) \<Longrightarrow> canonical xs \<Longrightarrow> canonical ys \<Longrightarrow>
   dx = (if [] \<in> fst ` set xs then coef xs [] else cx) \<and> dy = (if [] \<in> fst ` set ys then coef ys [] else cy) \<and>
   (\<forall>m. m \<noteq> [] \<longrightarrow> coef xs m = coef ys m)"
proof (induction xs ys cx cy rule: const_diff.induct)
  case (1 xs ys cx cy)
  have c: "canonical (tl zs)" "[] \<notin> fst ` set (tl zs)" "coef (tl zs) (fst (hd zs)) = 0" if "zs \<noteq> []" "canonical zs" for zs :: terms
    using that by (cases zs; auto simp: canonical_Cons intro: canonical_coef_less)+
  consider (x) "xs \<noteq> [] \<and> fst (hd xs) = []" | (y) "\<not> (xs \<noteq> [] \<and> fst (hd xs) = [])" "ys \<noteq> [] \<and> fst (hd ys) = []"
    | (stop) "\<not> (xs \<noteq> [] \<and> fst (hd xs) = [])" "\<not> (ys \<noteq> [] \<and> fst (hd ys) = [])" "xs = [] \<and> ys = []"
    | (same) "\<not> (xs \<noteq> [] \<and> fst (hd xs) = [])" "\<not> (ys \<noteq> [] \<and> fst (hd ys) = [])" "\<not> (xs = [] \<and> ys = [])" by blast
  then show ?case
  proof cases
    case x
    then show ?thesis using 1(1) [OF x] 1(4,5,6) c [of xs]
      by (cases xs) (auto simp: const_diff.simps [of "_ # _" ys cx cy])
  next
    case y
    then show ?thesis using 1(2) [OF y] 1(4,5,6) c [of ys]
      by (cases ys) (auto simp: const_diff.simps [of xs "_ # _" cx cy])
  next
    case stop
    then show ?thesis using 1(4) by (auto simp: const_diff.simps [of "[]" "[]"])
  next
    case same
    then have ne: "xs \<noteq> []" "ys \<noteq> []" "hd xs = hd ys"
      using 1(4) by (auto simp: const_diff.simps [of xs ys cx cy] split: if_splits)
    then have "const_diff (tl xs) (tl ys) cx cy = Some (dx, dy)" using same 1(4) by (simp add: const_diff.simps [of xs ys cx cy])
    with 1(3) [OF same(1,2,3)] ne c 1(5,6)
    have ih: "dx = (if [] \<in> fst ` set (tl xs) then coef (tl xs) [] else cx) \<and> dy = (if [] \<in> fst ` set (tl ys) then coef (tl ys) [] else cy) \<and>
      (\<forall>m. m \<noteq> [] \<longrightarrow> coef (tl xs) m = coef (tl ys) m)" by simp
    obtain u xs' ys' where e: "xs = u # xs'" "ys = u # ys'" using ne by (metis list.exhaust_sel)
    with same have "fst u \<noteq> []" by simp
    with ih show ?thesis unfolding e by simp
  qed
qed

lemma const_diff_zero:
  assumes "const_diff xs ys 0 0 = Some (dx, dy)" and "canonical xs" and "canonical ys"
  shows "dx = coef xs [] \<and> dy = coef ys [] \<and> (coef xs [] = coef ys [] \<longrightarrow> xs = ys)"
proof -
  have "coef zs [] = 0" if "[] \<notin> fst ` set zs" "canonical zs" for zs
    using that canonical_mem [of zs "[]" "coef zs []"] by force
  with const_diff_coef [OF assms] assms(2,3) show ?thesis
    by (simp split: if_splits; metis canonical_unique ext)
qed

lemma litImplies_weaker:
  assumes "litImplies sem x y" and "x = ECmp p xa xb" "y = ECmp q ya yb" and "good_lit v n p xa xb" "good_lit v n q ya yb"
  shows "x = y \<or> strength x < strength y"
proof (cases "x = y")
  case False
  from assms(4) obtain w ts us where a: "xa = EPoly (IntT w) ts" "xb = EPoly (IntT w) us" and fx: "fit_terms v n w ts"
    and nx: "normal_pred v w p ts us" by (rule good_litE)
  from assms(5) obtain w' ts' us' where b: "ya = EPoly (IntT w') ts'" "yb = EPoly (IntT w') us'" and fy: "fit_terms v n w' ts'"
    and ny: "normal_pred v w' q ts' us'" by (rule good_litE)
  have c: "canonical ts" "canonical ts'" using fx fy by (simp_all add: fit_terms_def)
  have eq: "xb = yb" using assms(1) False unfolding assms(2,3) by (auto simp: litImplies_def)
  show ?thesis
  proof (cases "lower_pred p \<and> lower_pred q \<or> upper_pred p \<and> upper_pred q")
    case True
    then have pq: "p = SGT \<and> q = SGT \<or> p = SLT \<and> q = SLT" using nx ny by (auto simp: lower_pred_def upper_pred_def)
    obtain cx cy where d: "const_diff ts ts' 0 0 = Some (cx, cy)" and le: "if p = SGT then cx \<le> cy else cy \<le> cx"
      using assms(1) False True pq unfolding assms(2,3) a b
      by (auto simp: litImplies_def lower_pred_def upper_pred_def split: option.splits if_splits)
    from const_diff_zero [OF d c] have cf: "cx = coef ts []" "cy = coef ts' []" "coef ts [] = coef ts' [] \<Longrightarrow> ts = ts'" by blast+
    have "coef ts [] \<noteq> coef ts' []" using cf(3) False pq eq unfolding assms(2,3) a b by auto
    then show ?thesis using pq le cf unfolding assms(2,3) a b by (auto simp: less_prod_def)
  next
    case False': False
    then have q: "q = NE \<or> q = EQ" and d: "decideLit y [x] = Some True"
      using assms(1) False eq unfolding assms(2,3) by (auto simp: litImplies_def)
    have "p \<noteq> NE" using d q unfolding assms(2,3) a b
      by (auto simp: decideLit_def fact_bound_def fact_order_def isUnsigned_def Let_def split: prod.splits option.splits if_splits)
    moreover have "p = EQ \<Longrightarrow> q = EQ \<Longrightarrow> x = y"
    proof -
      assume pq: "p = EQ" "q = EQ"
      obtain pl cl where s: "split_const ts' = (pl, cl)" by fastforce
      obtain pf cf where f: "split_const ts = (pf, cf)" by fastforce
      have "pf = pl \<and> cf = cl \<and> w = w'"
        using d eq c fx unfolding assms(2,3) a b pq
        by (auto simp: decideLit_def fact_bound_def fact_order_def decide_signed_def isUnsigned_def Let_def s f split: option.splits if_splits)
      then show "x = y" using mk_split [OF c(1) f] mk_split [OF c(2) s] eq unfolding assms(2,3) a b pq by auto
    qed
    ultimately show ?thesis using q False unfolding assms(2,3) by (cases p) (auto simp: less_prod_def)
  qed
qed simp

subsection \<open>Dropping implied literals\<close>

lemma litImplies_refl [simp]: "litImplies sem x x"
  by (simp add: litImplies_def)

text \<open>A literal without the property that is the strongest of these is not dropped.\<close>

lemma keep_witness:
  assumes order: "\<And>x y. x \<in> set ls \<Longrightarrow> y \<in> set ls \<Longrightarrow> litImplies sem x y \<Longrightarrow> x = y \<or> strength x < strength y"
    and closed: "\<And>x y. x \<in> set ls \<Longrightarrow> y \<in> set ls \<Longrightarrow> litImplies sem x y \<Longrightarrow> P y \<Longrightarrow> P x"
    and ex: "\<exists>l \<in> set ls. P l"
  shows "\<exists>l \<in> set (keep_lits sem ls). P l"
proof -
  let ?I = "{i. i < length ls \<and> P (ls ! i)}" and ?key = "\<lambda>i. (strength (ls ! i), i)"
  have "finite ?I" "?I \<noteq> {}" using ex by (auto simp: in_set_conv_nth)
  then have "Min (?key ` ?I) \<in> ?key ` ?I" by (intro Min_in) auto
  then obtain i where i: "i < length ls" "P (ls ! i)" and m: "Min (?key ` ?I) = ?key i" by auto
  have least: "?key i \<le> ?key j" if "j < length ls" "P (ls ! j)" for j
    using that Min_le [of "?key ` ?I" "?key j"] \<open>finite ?I\<close> m by auto
  have "\<not> (litImplies sem (ls ! j) (ls ! i) \<and> \<not> (litImplies sem (ls ! i) (ls ! j) \<and> i < j))"
    if j: "j \<in> {0..<length ls}" "i \<noteq> j" for j
  proof
    assume d: "litImplies sem (ls ! j) (ls ! i) \<and> \<not> (litImplies sem (ls ! i) (ls ! j) \<and> i < j)"
    have in_ls: "ls ! i \<in> set ls" "ls ! j \<in> set ls" using i j by auto
    have "P (ls ! j)" using closed [OF in_ls(2,1)] d i by blast
    with least j have le: "?key i \<le> ?key j" by simp
    from order [OF in_ls(2,1)] d consider "ls ! j = ls ! i" | "strength (ls ! j) < strength (ls ! i)" by blast
    then show False using d j le by cases (auto simp: less_le_not_le)
  qed
  then have "ls ! i \<in> set (keep_lits sem ls)" using i by (auto simp: keep_lits_def)
  with i show ?thesis by blast
qed

lemma keep_subset: "set (keep_lits sem ls) \<subseteq> set ls"
  by (auto simp: keep_lits_def)


end
