(* ===== verification/Sym_Conditions_Calls.thy ===== *)
theory Sym_Conditions_Calls
  imports Sym_Conditions_Right
begin

text \<open>
  The contract of the functions of \<open>Sym_Conditions\<close> as the locale \<open>condition_calls\<close>, the proof that each
  function keeps it when the functions it calls do, and that the knot \<open>calls_at\<close> satisfies it at every
  depth.
\<close>

subsection \<open>The contract\<close>

definition good_cls :: "reading \<Rightarrow> expr list list \<Rightarrow> bool" where
  "good_cls R cls \<longleftrightarrow> (\<forall>cl \<in> set cls. \<forall>l \<in> set cl. good R l)"

text \<open>The truth of a disjunction of clauses.\<close>

definition dnf :: "reading \<Rightarrow> expr list list \<Rightarrow> bool" where
  "dnf R cls \<longleftrightarrow> (\<exists>cl \<in> set cls. \<forall>l \<in> set cl. truth R l)"

definition flat_right :: "reading \<Rightarrow> expr \<Rightarrow> expr list list \<Rightarrow> expr list list \<Rightarrow> bool" where
  "flat_right R e cls r \<longleftrightarrow> good_cls R r \<and> dnf R r = (truth R e \<or> dnf R cls)"

definition resolve_right :: "reading \<Rightarrow> expr list list \<Rightarrow> expr list list \<Rightarrow> bool" where
  "resolve_right R cls r \<longleftrightarrow> good_cls R r \<and> dnf R r = dnf R cls"

lemmas right_defs = not_right_def and_right.simps or_right.simps given_right.simps implies_right.simps
  disjoint_right.simps flat_right_def resolve_right_def

declare and_right.simps [simp del] or_right.simps [simp del] given_right.simps [simp del] implies_right.simps [simp del]
  disjoint_right.simps [simp del]

lemma extends_option [intro!]:
  "(r = None \<Longrightarrow> extends m) \<Longrightarrow> (\<And>x. r = Some x \<Longrightarrow> extends (n x)) \<Longrightarrow> extends (case r of None \<Rightarrow> m | Some x \<Rightarrow> n x)"
  by (cases r) simp_all

lemma extends_prod [intro!]: "(\<And>x y. p = (x, y) \<Longrightarrow> extends (m x y)) \<Longrightarrow> extends (case p of (x, y) \<Rightarrow> m x y)"
  by (cases p) simp

lemma extendsI: "(\<And>S r S'. m S = Some (r, S') \<Longrightarrow> grows S S') \<Longrightarrow> extends m"
  by (simp add: extends_def)

lemma extendsD: "extends m \<Longrightarrow> m S = Some (r, S') \<Longrightarrow> grows S S'"
  by (simp add: extends_def)

lemma grows_untouched [simp]:
  "grows S (S\<lparr>s_notbMemo := M1\<rparr>)" "grows S (S\<lparr>s_andMemo := M2\<rparr>)" "grows S (S\<lparr>s_orMemo := M2\<rparr>)" "grows S (S\<lparr>s_givenMemo := M2\<rparr>)"
  "grows S (S\<lparr>s_impliesMemo := M3\<rparr>)" "grows S (S\<lparr>s_disjointMemo := M3\<rparr>)"
  "grows (S\<lparr>s_orbDepth := d\<rparr>) T = grows S T" "grows S (T\<lparr>s_orbDepth := d\<rparr>) = grows S T"
  "grows (S\<lparr>s_guardDepth := d\<rparr>) T = grows S T" "grows S (T\<lparr>s_guardDepth := d\<rparr>) = grows S T"
  by (simp_all add: grows_def)

lemma extends_scoped [intro!]:
  assumes "extends m"
  shows "extends (scoped_call m)"
proof (rule extendsI)
  fix S r S'
  assume "scoped_call m S = Some (r, S')"
  then show "grows S S'"
    using extendsD [OF assms, of "S\<lparr>s_guardDepth := s_guardDepth S + 1\<rparr>"]
    by (auto simp: scoped_call_def andThen_def split: option.splits if_splits)
qed

lemma extends_again:
  assumes "\<And>x y. extends (c_orb c x y)"
  shows "extends (again_orb c x y)"
proof (rule extendsI)
  fix S r S'
  assume "again_orb c x y S = Some (r, S')"
  then show "grows S S'"
    using extendsD [OF assms, of x y "S\<lparr>s_orbDepth := s_orbDepth S + 1\<rparr>"]
    by (auto simp: again_orb_def andThen_def split: option.splits)
qed

lemma sound_option:
  "(r = None \<Longrightarrow> sound R m Q) \<Longrightarrow> (\<And>x. r = Some x \<Longrightarrow> sound R (n x) Q) \<Longrightarrow>
   sound R (case r of None \<Rightarrow> m | Some x \<Rightarrow> n x) Q"
  by (cases r) simp_all

lemma sound_prod: "(\<And>x y. p = (x, y) \<Longrightarrow> sound R (m x y) Q) \<Longrightarrow> sound R (case p of (x, y) \<Rightarrow> m x y) Q"
  by (cases p) simp

lemma sound_depth:
  "sound R m Q \<Longrightarrow> sound R (scoped_call m) (\<lambda>r. r \<longrightarrow> Q r)"
proof -
  assume m: "sound R m Q"
  show ?thesis
    unfolding sound_def
  proof (intro allI impI)
    fix S r S'
    assume "scoped_call m S = Some (r, S')" "reads R S'" "wf_state R S"
    then show "wf_state R S' \<and> (r \<longrightarrow> Q r)"
      using m [unfolded sound_def, rule_format, of "S\<lparr>s_guardDepth := s_guardDepth S + 1\<rparr>"]
      by (auto simp: scoped_call_def andThen_def split: option.splits if_splits)
  qed
qed

text \<open>Choices that return a verdict.\<close>

lemma sound_verdict: "(r \<longrightarrow> q) \<Longrightarrow> sound R (ret r) (\<lambda>x. x \<longrightarrow> q)"
  by (rule sound_ret) simp

lemma sound_or:
  assumes "sound R m (\<lambda>x. x \<longrightarrow> q)" and "sound R n (\<lambda>x. x \<longrightarrow> q)" and "extends n"
  shows "sound R (andThen m (\<lambda>x. if x then ret True else n)) (\<lambda>x. x \<longrightarrow> q)"
proof (rule sound_andThen [OF assms(1)])
  show "sound R (if x then ret True else n) (\<lambda>x. x \<longrightarrow> q)" if "x \<longrightarrow> q" for x
    using that assms(2) by (cases x) (simp_all add: sound_verdict sound_ret)
qed (use assms(3) in auto)

lemma sound_and:
  assumes "sound R m (\<lambda>x. x \<longrightarrow> p)" and "p \<Longrightarrow> sound R n (\<lambda>x. x \<longrightarrow> q)" and "extends n"
  shows "sound R (andThen m (\<lambda>x. if x then n else ret False)) (\<lambda>x. x \<longrightarrow> q)"
proof (rule sound_andThen [OF assms(1)])
  show "sound R (if x then n else ret False) (\<lambda>x. x \<longrightarrow> q)" if "x \<longrightarrow> p" for x
    using that assms(2) by (cases x) (simp_all add: sound_verdict sound_ret)
qed (use assms(3) in auto)

lemma de_morgan:
  "not_right R x nx \<Longrightarrow> not_right R y ny \<Longrightarrow> or_right R (nx, ny) r \<Longrightarrow> not_right R (EOp (IntT (Suc 0)) OpAnd [x, y]) r"
  "not_right R x nx \<Longrightarrow> not_right R y ny \<Longrightarrow> and_right R (nx, ny) r \<Longrightarrow> not_right R (EOp (IntT (Suc 0)) OpOr [x, y]) r"
  by (simp_all add: right_defs)

lemma right_good:
  "not_right R a r \<Longrightarrow> good R r" "and_right R p r \<Longrightarrow> good R r" "or_right R p r \<Longrightarrow> good R r" "given_right R p r \<Longrightarrow> good R r"
  by (cases p; simp add: right_defs)+

lemma good_binary:
  assumes "binary OpOr e = Some (x, y)" and "good R e"
  shows "good R x" "good R y" "truth R e = (truth R x \<or> truth R y)"
  using assms by (simp_all add: binary_Some)

text \<open>The guard replaced by its definition leaves the truth of the conjunction.\<close>

lemma rest_good:
  assumes "\<forall>l \<in> set ls. good R l" and "good R r"
  defines "e \<equiv> fold (\<lambda>l r. if isTrue r then l else EOp (type_of l) OpAnd [r, l]) ls r"
  shows "good R e \<and> truth R e = (truth R r \<and> (\<forall>l \<in> set ls. truth R l))"
  using assms(1,2) unfolding e_def
proof (induction ls arbitrary: r)
  case (Cons l ls)
  then show ?case by (auto simp: good_type isTrue_mkBool)
qed simp

lemma chain_good:
  assumes "\<forall>x \<in> set es. good R x" and "good R e"
  shows "good R (foldl (\<lambda>r x. EOp (type_of x) OpOr [r, x]) e es) \<and>
    truth R (foldl (\<lambda>r x. EOp (type_of x) OpOr [r, x]) e es) = (truth R e \<or> (\<exists>x \<in> set es. truth R x))"
  using assms by (induction es arbitrary: e) (auto simp: good_type)

lemma take_drop_nth: "i < length xs \<Longrightarrow> set xs = insert (xs ! i) (set (take i xs @ drop (Suc i) xs))"
  by (metis id_take_nth_drop set_append list.simps(15) Un_insert_right)

lemma expandGuard_right:
  assumes "expandGuard S ls = Some e" and "\<forall>l \<in> set ls. good R l" and "wf_state R S" and "reads R S"
  shows "good R e \<and> truth R e = (\<forall>l \<in> set ls. truth R l)"
proof -
  obtain i is' where i: "filter (\<lambda>i. isGuardSym S (ls ! i)) [0..<length ls] = i # is'"
    using assms(1) by (auto simp: expandGuard_def split: list.splits)
  then have "i \<in> set (filter (\<lambda>i. isGuardSym S (ls ! i)) [0..<length ls])" by simp
  then have il: "i < length ls" "isGuardSym S (ls ! i)" by auto
  define others where "others = take i ls @ drop (Suc i) ls"
  define d where "d = guardDef S (ls ! i)"
  define rest where "rest = fold (\<lambda>l r. if isTrue r then l else EOp (type_of l) OpAnd [r, l]) others (mkBool True)"
  define h where "h = (\<lambda>c. if isTrue rest then c else EOp (type_of c) OpAnd [c, rest])"
  note defs = others_def [symmetric] d_def [symmetric] rest_def [symmetric] h_def [symmetric]
  have set: "set ls = insert (ls ! i) (set others)" unfolding others_def using il(1) by (rule take_drop_nth)
  have rest: "good R rest" "truth R rest = (\<forall>l \<in> set others. truth R l)"
    using rest_good [of others R "mkBool True"] assms(2) set unfolding rest_def by auto
  have g: "good R d" "truth R d = truth R (ls ! i)"
    using guard_reads [OF assms(3,4) il(2)] assms(2) il(1) unfolding d_def by auto
  have h: "good R (h c) \<and> truth R (h c) = (truth R c \<and> truth R rest)" if "good R c" for c
    using that rest(1) unfolding h_def by (auto simp: good_type isTrue_mkBool)
  obtain cl cls where cls: "map h (disjuncts d) = cl # cls" by (cases "disjuncts d") auto
  have e: "e = foldl (\<lambda>r x. EOp (type_of x) OpOr [r, x]) cl cls"
    using assms(1) unfolding expandGuard_def i list.case Let_def defs cls option.inject by (rule sym)
  have members: "set (cl # cls) = h ` set (disjuncts d)" by (metis cls set_map)
  note D = disjuncts_good [OF g(1)]
  have "\<forall>x \<in> set (cl # cls). good R x" using members D h by auto
  then have "good R e \<and> truth R e = (\<exists>x \<in> set (cl # cls). truth R x)" using chain_good [of cls R cl] e by auto
  moreover have "(\<exists>x \<in> set (cl # cls). truth R x) = (\<exists>c \<in> set (disjuncts d). truth R c \<and> truth R rest)"
    unfolding members using D h by (simp add: bex_simps(7) cong: bex_cong)
  ultimately show ?thesis using rest(2) g(2) D set by auto
qed

lemma conj_chain:
  assumes "chain (IntT 1) OpAnd es = Some r" and "\<forall>e \<in> set es. good R e"
  shows "good R r \<and> truth R r = (\<forall>e \<in> set es. truth R e)"
proof -
  have "good R (foldl (\<lambda>r x. EOp (IntT 1) OpAnd [r, x]) e es) \<and>
      truth R (foldl (\<lambda>r x. EOp (IntT 1) OpAnd [r, x]) e es) = (truth R e \<and> (\<forall>x \<in> set es. truth R x))"
    if "good R e" "\<forall>x \<in> set es. good R x" for e es
    using that by (induction es arbitrary: e) auto
  then show ?thesis using assms by (cases es) (auto simp: chain_def)
qed

lemma conj_lits_sound:
  assumes "\<forall>l \<in> set ls. good R l"
  shows "sound R (conj_lits (IntT 1) ls) (\<lambda>r. good R r \<and> truth R r = (\<forall>l \<in> set ls. truth R l))"
  unfolding sound_def
proof (intro allI impI)
  fix S S' :: bools and r
  let ?es = "remdups_adj (sort_key (s_ident S) (keep_lits (s_semantic S) ls))"
  assume "conj_lits (IntT 1) ls S = Some (r, S')" and w: "wf_state R S"
  then have c: "chain (IntT 1) OpAnd ?es = Some r" "S' = S" by (auto simp: conj_lits_def split: option.splits)
  have e: "set ?es = set (keep_lits (s_semantic S) ls)" by simp
  then have "\<forall>e \<in> set ?es. good R e" using assms keep_subset [of "s_semantic S" ls] by blast
  from conj_chain [OF c(1) this] show "wf_state R S' \<and> good R r \<and> truth R r = (\<forall>l \<in> set ls. truth R l)"
    unfolding e keep_truth [OF assms] using w c(2) by blast
qed

text \<open>Clauses.\<close>

lemma dnf_simps [simp]:
  "dnf R [] = False" "dnf R (cl # cls) = ((\<forall>l \<in> set cl. truth R l) \<or> dnf R cls)" "dnf R (cls @ cls') = (dnf R cls \<or> dnf R cls')"
  "good_cls R []" "good_cls R (cl # cls) = ((\<forall>l \<in> set cl. good R l) \<and> good_cls R cls)"
  "good_cls R (cls @ cls') = (good_cls R cls \<and> good_cls R cls')"
  by (auto simp: dnf_def good_cls_def)

lemma without_set: "i < length xs \<Longrightarrow> set xs = insert (xs ! i) (set (without i xs))"
  unfolding without_def by (rule take_drop_nth)

lemma shallowGuard_Some: "shallowGuard S l = Some d \<Longrightarrow> isGuardSym S l \<and> d = guardDef S l"
  by (auto simp: shallowGuard_def Let_def split: if_splits)

lemma shallow_at_Some:
  assumes "shallow_at S ls = Some (i, d)"
  shows "i < length ls \<and> isGuardSym S (ls ! i) \<and> d = guardDef S (ls ! i)"
proof -
  obtain is' where i: "filter (\<lambda>i. shallowGuard S (ls ! i) \<noteq> None) [0..<length ls] = i # is'" and d: "d = the (shallowGuard S (ls ! i))"
    using assms by (auto simp: shallow_at_def split: list.splits)
  then have "i \<in> set (filter (\<lambda>i. shallowGuard S (ls ! i) \<noteq> None) [0..<length ls])" by simp
  then have "i < length ls" "shallowGuard S (ls ! i) = Some d" using d by auto
  then show ?thesis using shallowGuard_Some by blast
qed

text \<open>The members of two ranges are told apart by their numbers.\<close>

lemma set_operations:
  "set xs = set (set_intersection k xs ys) \<union> set (set_difference k xs ys)"
  "inj k \<Longrightarrow> set (set_intersection k xs ys) \<subseteq> set ys"
  "set (set_difference k xs ys) \<subseteq> set xs"
  by (induction k xs ys rule: set_intersection.induct) (auto dest: injD)

lemma mset_operations: "mset xs = mset (set_intersection k xs ys) + mset (set_difference k xs ys)"
  by (induction k xs ys rule: set_intersection.induct) auto

lemma set_intersection_commute:
  "inj k \<Longrightarrow> set_intersection k xs ys = set_intersection k ys xs"
proof (induction k xs ys rule: set_intersection.induct)
  case (1 k ys)
  then show ?case by (cases ys) simp_all
qed (auto dest: injD)

lemma dnf_without:
  assumes "i < length cls"
  shows "dnf R cls = ((\<forall>l \<in> set (cls ! i). truth R l) \<or> dnf R (without i cls))" and "good_cls R cls \<Longrightarrow> good_cls R (without i cls)"
  using without_set [OF assms] by (auto simp: dnf_def good_cls_def)

lemma set_update: "i < length xs \<Longrightarrow> set (xs[i := x]) = insert x (set (without i xs))"
  by (simp add: upd_conv_take_nth_drop without_def)

lemma dnf_update:
  assumes "i < length cls"
  shows "dnf R (cls[i := cl]) = ((\<forall>l \<in> set cl. truth R l) \<or> dnf R (without i cls))"
    and "good_cls R cls \<Longrightarrow> \<forall>l \<in> set cl. good R l \<Longrightarrow> good_cls R (cls[i := cl])"
  using set_update [OF assms, of cl] without_set [OF assms] by (auto simp: dnf_def good_cls_def)

lemma subsumed_truth:
  assumes "subsumed sem by cl" and "\<forall>l \<in> set by. good R l" and "\<forall>l \<in> set cl. good R l" and "\<forall>l \<in> set cl. truth R l"
  shows "\<forall>l \<in> set by. truth R l"
  using assms litImplies_truth [of sem _ _ R] by (force simp: subsumed_def list_all_iff list_ex_iff)

text \<open>The clause \<open>cl\<close> without a literal that the other one covers.\<close>

lemma drop_literal:
  assumes "set ci = X \<union> {l}" and "X \<subseteq> set cj" and "n < length cj"
    and "cj ! n \<notin> X \<and> (truth R l \<or> truth R (cj ! n)) \<or> ((\<forall>m \<in> set (without n cj). truth R m) \<longrightarrow> truth R (cj ! n))"
  shows "((\<forall>m \<in> set ci. truth R m) \<or> (\<forall>m \<in> set cj. truth R m)) = ((\<forall>m \<in> set ci. truth R m) \<or> (\<forall>m \<in> set (without n cj). truth R m))"
  using assms without_set [OF assms(3)] by auto

text \<open>Two clauses of a list and the rest.\<close>

lemma two_clauses:
  assumes "i < j" and "j < length cls"
  obtains rest where "set cls = {cls ! i, cls ! j} \<union> rest" "set (without j cls) = insert (cls ! i) rest"
    "set (without i cls) = insert (cls ! j) rest" "\<And>x. set (cls[i := x]) = {x, cls ! j} \<union> rest"
    "\<And>x. set (cls[j := x]) = {cls ! i, x} \<union> rest" "\<And>x. set (without j (cls[i := x])) = insert x rest"
proof
  let ?rest = "set (take i cls) \<union> set (drop (Suc i) (take j cls)) \<union> set (drop (Suc j) cls)"
  have i: "i < length cls" using assms by simp
  have mid: "set (drop (Suc i) cls) = insert (cls ! j) (set (drop (Suc i) (take j cls)) \<union> set (drop (Suc j) cls))"
  proof -
    have "drop (Suc i) cls = drop (Suc i) (take j cls) @ drop (Suc i - j) (drop j cls)"
      by (metis append_take_drop_id assms(1) drop_append length_take min.absorb2 assms(2) less_imp_le)
    moreover have "drop (Suc i - j) (drop j cls) = cls ! j # drop (Suc j) cls"
      using assms by (simp add: Cons_nth_drop_Suc)
    ultimately show ?thesis by auto
  qed
  have tk: "set (take j cls) = insert (cls ! i) (set (take i cls) \<union> set (drop (Suc i) (take j cls)))"
  proof -
    have "set (take j cls) = insert (take j cls ! i) (set (take i (take j cls) @ drop (Suc i) (take j cls)))"
      by (rule take_drop_nth) (use assms in simp)
    then show ?thesis using assms by (simp add: min_absorb1)
  qed
  show "set cls = {cls ! i, cls ! j} \<union> ?rest" using without_set [OF i] mid by (auto simp: without_def)
  show "set (without j cls) = insert (cls ! i) ?rest" using tk by (auto simp: without_def)
  show "set (without i cls) = insert (cls ! j) ?rest" using mid by (auto simp: without_def)
  show "set (cls[i := x]) = {x, cls ! j} \<union> ?rest" for x using set_update [OF i, of x] mid by (auto simp: without_def)
  show "set (cls[j := x]) = {cls ! i, x} \<union> ?rest" for x using set_update [OF assms(2), of x] tk by (auto simp: without_def)
  show "set (without j (cls[i := x])) = insert x ?rest" for x
  proof -
    have "set (take j (cls[i := x])) = insert x (set (take i cls) \<union> set (drop (Suc i) (take j cls)))"
      using set_update [of i "take j cls" x] assms by (simp add: take_update_swap without_def min_absorb1)
    then show ?thesis using assms by (auto simp: without_def)
  qed
qed

text \<open>The literals common to all clauses.\<close>

lemma common_literals:
  assumes "inj k" and "cls \<noteq> []"
  defines "common \<equiv> fold (\<lambda>cl m. set_intersection k m cl) (tl cls) (hd cls)"
  shows "cl \<in> set cls \<Longrightarrow> set common \<subseteq> set cl"
    and "dnf R cls = ((\<forall>l \<in> set common. truth R l) \<and> dnf R (map (\<lambda>cl. set_difference k cl common) cls))"
proof -
  have f: "set (fold (\<lambda>cl m. set_intersection k m cl) xs m) \<subseteq> set m \<and>
      (\<forall>x \<in> set xs. set (fold (\<lambda>cl m. set_intersection k m cl) xs m) \<subseteq> set x)" for xs m
  proof (induction xs arbitrary: m)
    case (Cons x xs)
    have "set (set_intersection k m x) \<subseteq> set m \<inter> set x"
      using set_operations(1) [of m k x] set_operations(2) [OF assms(1), of m x] by auto
    then show ?case using Cons [of "set_intersection k m x"] by auto
  qed simp
  show sub: "set common \<subseteq> set cl" if "cl \<in> set cls" for cl
    using f [of "tl cls" "hd cls"] that assms(2) unfolding common_def by (cases cls) auto
  have "(\<forall>l \<in> set cl. truth R l) = ((\<forall>l \<in> set common. truth R l) \<and> (\<forall>l \<in> set (set_difference k cl common). truth R l))"
    if "cl \<in> set cls" for cl
    using sub [OF that] set_operations(1) [of cl k common] set_operations(2) [OF assms(1), of cl common] by auto
  then show "dnf R cls = ((\<forall>l \<in> set common. truth R l) \<and> dnf R (map (\<lambda>cl. set_difference k cl common) cls))"
    unfolding dnf_def by auto
qed

lemma extends_new_guard: "extends (new_guard t d)"
  by (auto simp: extends_def new_guard_def Let_def grows_def)

lemma new_guard_sound:
  assumes "good R d"
  shows "sound R (new_guard (IntT 1) d) (\<lambda>g. good R g \<and> truth R g = truth R d)"
  unfolding sound_def
proof (intro allI impI)
  fix S S' :: bools and g
  assume run: "new_guard (IntT 1) d S = Some (g, S')" and rd: "reads R S'" and w: "wf_state R S"
  then have g: "g = ESym (IntT 1) (length (s_symbols S))"
    and S': "S' = S\<lparr>s_symbols := s_symbols S @ [Guard (length (s_guardDefs S))], s_guardDefs := s_guardDefs S @ [d],
      s_guardOf := (s_guardOf S)(d \<mapsto> g)\<rparr>" by (auto simp: new_guard_def Let_def)
  have "truth R g = truth R d"
    using rd [unfolded reads_def, THEN conjunct2, THEN conjunct2, rule_format, of "length (s_symbols S)" "length (s_guardDefs S)"]
    by (simp add: S' g)
  moreover have "wf_guards R S'"
    using w [unfolded wf_state_def] assms unfolding S' wf_guards_def
    by (auto simp: nth_append g less_Suc_eq split: if_splits) (metis nth_append_length less_irrefl nth_append less_SucI)+
  moreover have "right_memos R S'" using w unfolding S' by (simp add: wf_state_def right_memos_def)
  moreover have "good R g" by (simp add: g good.simps)
  ultimately show "wf_state R S' \<and> good R g \<and> truth R g = truth R d"
    using w by (simp add: wf_state_def S')
qed

lemma guard_for_sound:
  assumes "good R d"
  shows "sound R (guard_for (IntT 1) d) (\<lambda>g. good R g \<and> truth R g = truth R d)" and "extends (guard_for (IntT 1) d)"
proof -
  show "extends (guard_for (IntT 1) d)"
    unfolding guard_for_def by (auto intro!: extends_new_guard)
  show "sound R (guard_for (IntT 1) d) (\<lambda>g. good R g \<and> truth R g = truth R d)"
    unfolding guard_for_def
  proof (intro sound_if sound_ret sound_with sound_option, goal_cases)
    case (2 S)
    show ?case by (rule new_guard_sound [OF assms])
  next
    case (3 S g)
    then obtain s k where "g = ESym (IntT 1) s" "s < length (s_symbols S)" "s_symbols S ! s = Guard k" "s_guardDefs S ! k = d"
      unfolding wf_state_def wf_guards_def by blast
    moreover have "k < length (s_guardDefs S)" using 3(2) calculation(2,3) unfolding wf_state_def wf_guards_def by blast
    ultimately have "truth R g = truth R d" "good R g" using 3(3) unfolding reads_def by (blast, simp add: good.simps)
    then show ?case by simp
  qed (use assms in \<open>auto intro!: extends_new_guard\<close>)
qed

locale condition_calls =
  fixes R :: reading and c :: calls
  assumes notb_extends [intro!]: "extends (c_notb c a)"
    and andb_extends [intro!]: "extends (c_andb c a b)"
    and orb_extends [intro!]: "extends (c_orb c a b)"
    and implies_extends [intro!]: "extends (c_implies c a b)"
    and disjoint_extends [intro!]: "extends (c_disjoint c a b)"
    and flat_extends [intro!]: "extends (c_flat c e canon cls)"
    and resolve_extends [intro!]: "extends (c_resolve c cls)"
    and given_extends [intro!]: "extends (c_given c a b)"
    and notb_ok: "good R a \<Longrightarrow> sound R (c_notb c a) (not_right R a)"
    and andb_ok: "good R a \<Longrightarrow> good R b \<Longrightarrow> sound R (c_andb c a b) (and_right R (a, b))"
    and orb_ok: "good R a \<Longrightarrow> good R b \<Longrightarrow> sound R (c_orb c a b) (or_right R (a, b))"
    and implies_ok: "good R a \<Longrightarrow> good R b \<Longrightarrow> sound R (c_implies c a b) (implies_right R (a, b))"
    and disjoint_ok: "good R a \<Longrightarrow> good R b \<Longrightarrow> sound R (c_disjoint c a b) (disjoint_right R (a, b))"
    and flat_ok: "good R e \<Longrightarrow> good_cls R cls \<Longrightarrow> sound R (c_flat c e canon cls) (flat_right R e cls)"
    and resolve_ok: "good_cls R cls \<Longrightarrow> sound R (c_resolve c cls) (resolve_right R cls)"
    and given_ok: "good R a \<Longrightarrow> good R b \<Longrightarrow> sound R (c_given c a b) (given_right R (a, b))"
begin

subsubsection \<open>Growth\<close>

lemma and_lits_extends [intro!]: "extends (and_lits c ls r)"
  unfolding and_lits_def by (rule extends_fold) blast

lemma notb_grow: "extends (notb c a)"
  unfolding notb_def notb_body_def by (intro extends_if extends_ret extends_option extends_memoed) auto

lemma conj_lits_extends [intro!]: "extends (conj_lits t ls)"
  by (auto simp: conj_lits_def intro!: extendsI split: option.splits)

lemma distribute_extends [intro!]: "extends (distribute c a b)"
  unfolding distribute_def by auto

lemma andb_grow: "extends (andb c a b)"
  unfolding andb_def andbRaw_def distribute_def Let_def by (intro extends_if extends_ret extends_memoed) auto

lemma implies_lit_extends [intro!]: "extends (implies_lit c a la l)"
  unfolding implies_lit_def by auto

lemma implies_lits_extends [intro!]: "extends (implies_lits c a b la lb)"
  by (induction lb) auto

lemma implies_grow: "extends (implies c a b)"
  unfolding implies_def impliesRaw_def by (intro extends_if extends_ret extends_memoed) auto

lemma excludes_extends [intro!]: "extends (excludes c x y)" "extends (excludes_not c x y)"
  unfolding excludes_def excludes_not_def by auto

lemma disjoint_grow: "extends (disjoint c a b)"
  unfolding disjoint_def disjointRaw_def Let_def
  by (intro extends_if extends_ret extends_memoed) (auto intro!: extends_any)

lemma add_clause_extends [intro!]: "extends (add_clause c e ls cls)"
  unfolding add_clause_def by (auto intro!: extends_fold)

lemma flat_grow: "extends (flat c e canon cls)"
  unfolding flat_def Let_def by auto

lemma covering_extends [intro!]: "extends (covering c x y)"
  unfolding covering_def complementary_def by auto

lemma drop_at_extends [intro!]: "extends (drop_at c l d cl)"
  unfolding drop_at_def redundant_def by (auto intro!: extends_first)

lemma resolve_pair_extends [intro!]: "extends (resolve_pair c cls ij)"
  unfolding resolve_pair_def Let_def by auto

lemma resolve_grow: "extends (resolve c cls)"
  unfolding resolve_def by (auto intro!: extends_first)

lemma rebuild_extends [intro!]: "extends (rebuild_clauses c t cls r again)"
  by (induction cls arbitrary: r again) auto

lemma finish_extends [intro!]: "extends (finish c r)"
  unfolding finish_def by (auto split: sum.splits option.splits intro!: extends_again)

lemma orb_grow: "extends (orb c a b)"
  unfolding orb_def orbRaw_def by (intro extends_if extends_ret extends_memoed) auto

lemma given_lits_extends [intro!]: "extends (given_lits c ctx ls r)"
  by (induction ls arbitrary: r) auto

lemma given_grow: "extends (given c e ctx)"
  unfolding given_def givenRaw_def by (intro extends_if extends_ret extends_memoed) auto

subsubsection \<open>Negation and conjunction\<close>

lemma notb_body_sound:
  assumes "good R a" and "negated a = None"
  shows "sound R (notb_body c a) (not_right R a)"
proof (cases "sides a")
  case (Some pab)
  then obtain p x y where a: "a = ECmp p x y" by (cases pab) (simp add: sides_Some)
  then show ?thesis using sound_cmp [of R p x y] assms(1) by (simp add: notb_body_def del: connective_nodes)
next
  case None
  have nb: "sound R (andThen (c_notb c x) (\<lambda>nx. andThen (c_notb c y) (h nx))) (not_right R a)"
    if "good R x" "good R y" and h: "\<And>nx ny. not_right R x nx \<Longrightarrow> not_right R y ny \<Longrightarrow> sound R (h nx ny) (not_right R a)"
      "\<And>nx ny. extends (h nx ny)" for x y h
    by (rule sound_andThen [OF notb_ok [OF that(1)]], rule sound_andThen [OF notb_ok [OF that(2)]]) (use h in auto)
  consider (conj) x y where "binary OpAnd a = Some (x, y)" | (disj) x y where "binary OpAnd a = None" "binary OpOr a = Some (x, y)"
    | (other) "binary OpAnd a = None" "binary OpOr a = None" by fastforce
  then show ?thesis
  proof cases
    case conj
    then have a: "a = EOp (IntT 1) OpAnd [x, y]" by (simp add: binary_Some)
    have "sound R (andThen (c_notb c x) (\<lambda>nx. andThen (c_notb c y) (c_orb c nx))) (not_right R a)"
      by (rule nb) (use assms(1) a in \<open>auto intro!: sound_weaken [OF orb_ok] dest: right_good intro: de_morgan\<close>)
    with None conj show ?thesis by (simp add: notb_body_def)
  next
    case disj
    then have a: "a = EOp (IntT 1) OpOr [x, y]" by (simp add: binary_Some)
    have "sound R (andThen (c_notb c x) (\<lambda>nx. andThen (c_notb c y) (c_andb c nx))) (not_right R a)"
      by (rule nb) (use assms(1) a in \<open>auto intro!: sound_weaken [OF andb_ok] dest: right_good intro: de_morgan\<close>)
    with None disj show ?thesis by (simp add: notb_body_def)
  next
    case other
    then show ?thesis using None assms(1) by (simp add: notb_body_def sound_ret right_defs good_type)
  qed
qed

lemma notb_sound: "good R a \<Longrightarrow> sound R (notb c a) (not_right R a)"
proof -
  assume g: "good R a"
  show ?thesis
    unfolding notb_def
  proof (intro sound_if sound_option sound_memoed)
    fix x
    assume "negated a = Some x"
    then show "sound R (ret x) (not_right R a)" using g by (intro sound_ret) (auto simp: negated_Some right_defs)
  qed (use g notb_body_sound memo_right(1) wf_store(1) in \<open>auto simp: isTrue_mkBool right_defs intro!: sound_ret\<close>)
qed

lemma distribute_sound:
  assumes "good R a" and "good R b"
  shows "sound R (distribute c a b) (and_right R (a, b))"
proof -
  have two: "sound R (andThen (c_andb c p q) (\<lambda>l. andThen (c_andb c s t) (c_orb c l))) (and_right R (a, b))"
    if g: "good R p" "good R q" "good R s" "good R t"
      and eq: "(truth R p \<and> truth R q \<or> truth R s \<and> truth R t) = (truth R a \<and> truth R b)" for p q s t
    by (rule sound_andThen [OF andb_ok [OF g(1,2)]], rule sound_andThen [OF andb_ok [OF g(3,4)]], rule sound_weaken [OF orb_ok])
      (use eq in \<open>auto dest: right_good\<close>, auto simp: right_defs)
  consider (b) x y where "binary OpOr b = Some (x, y)" | (a) x y where "binary OpOr b = None" "binary OpOr a = Some (x, y)"
    | (none) "binary OpOr b = None" "binary OpOr a = None" by fastforce
  then show ?thesis
  proof cases
    case b
    then show ?thesis using two [of a x a y] good_binary [OF b] assms by (auto simp: distribute_def)
  next
    case a
    then show ?thesis using two [of x b y b] good_binary [OF a(2)] assms by (auto simp: distribute_def)
  next
    case none
    then show ?thesis using assms by (simp add: distribute_def sound_ret right_defs good_type)
  qed
qed

lemma andbRaw_sound:
  assumes g: "good R a" "good R b"
  shows "sound R (andbRaw c a b) (and_right R (a, b))"
proof -
  let ?ls = "conjuncts a @ conjuncts b"
  have last: "sound R (if list_all (\<lambda>l. binary OpOr l = None) ?ls then conj_lits (type_of a) ?ls else distribute c a b) (and_right R (a, b))"
  proof (rule sound_if)
    have t: "type_of a = IntT 1" by (rule good_type [OF g(1)])
    have gl: "\<forall>l \<in> set ?ls. good R l" using conjuncts_good [OF g(1)] conjuncts_good [OF g(2)] by auto
    have tr: "(\<forall>l \<in> set ?ls. truth R l) = (truth R a \<and> truth R b)"
      using conjuncts_good [OF g(1)] conjuncts_good [OF g(2)] by (simp add: ball_Un)
    show "sound R (conj_lits (type_of a) ?ls) (and_right R (a, b))"
      unfolding t by (rule sound_weaken [OF conj_lits_sound [OF gl]]) (unfold tr and_right.simps)
  qed (rule distribute_sound [OF g])
  show ?thesis
    unfolding andbRaw_def Let_def
  proof (rule sound_andThen [OF implies_ok [OF g]], goal_cases)
    case (1 i)
    show ?case
    proof (cases i)
      case False
      show ?thesis
        unfolding if_not_P [OF False]
      proof (rule sound_andThen [OF implies_ok [OF g(2,1)]], goal_cases)
        case (1 j)
        show ?case
        proof (cases j)
          case False
          show ?thesis
            unfolding if_not_P [OF False]
          proof (rule sound_andThen [OF disjoint_ok [OF g]], goal_cases)
            case (1 d)
            then show ?case using last by (cases d) (auto simp: right_defs intro: sound_ret)
          qed auto
        qed (use 1 g in \<open>auto simp: right_defs intro: sound_ret\<close>)
      qed auto
    qed (use 1 g in \<open>auto simp: right_defs intro: sound_ret\<close>)
  qed auto
qed

lemma andb_sound:
  assumes "good R a" and "good R b"
  shows "sound R (andb c a b) (and_right R (a, b))"
  unfolding andb_def
  by (intro sound_if sound_memoed andbRaw_sound assms sound_ret;
    (use assms in \<open>auto simp: isTrue_mkBool right_defs; fail\<close> | simp add: memo_right wf_store))

lemma and_lits_sound:
  assumes "\<forall>l \<in> set ls. good R l" and "good R r"
  shows "sound R (and_lits c ls r) (\<lambda>x. good R x \<and> truth R x = (truth R r \<and> (\<forall>l \<in> set ls. truth R l)))"
  using assms unfolding and_lits_def
proof (induction ls arbitrary: r)
  case Nil
  then show ?case by (simp add: sound_ret)
next
  case (Cons l ls)
  have "extends (fold_act (\<lambda>l r. c_andb c r l) ls x)" for x by (rule extends_fold) blast
  moreover have "sound R (fold_act (\<lambda>l r. c_andb c r l) ls x)
      (\<lambda>x. good R x \<and> truth R x = (truth R r \<and> (\<forall>l \<in> set (l # ls). truth R l)))" if "and_right R (r, l) x" for x
    using Cons.prems that by (intro sound_weaken [OF Cons.IH]) (auto simp: right_defs)
  ultimately show ?case using andb_ok [of r l] Cons.prems by (auto intro: sound_andThen)
qed

subsubsection \<open>Implication and disjointness\<close>

lemma excludes_sound:
  assumes "good R x" and "good R y"
  shows "sound R (excludes c x y) (\<lambda>r. r \<longrightarrow> \<not> (truth R x \<and> truth R y))"
    and "sound R (excludes_not c x y) (\<lambda>r. r \<longrightarrow> truth R x \<or> truth R y)"
proof -
  have imp: "(nx = y \<or> litImplies sem y nx) \<longrightarrow> \<not> (truth R x \<and> truth R y)" "litImplies sem nx y \<longrightarrow> truth R x \<or> truth R y"
    if "not_right R x nx" for nx sem
    using that litImplies_truth [of sem y nx R] litImplies_truth [of sem nx y R] assms(2) unfolding not_right_def by blast+
  show "sound R (excludes c x y) (\<lambda>r. r \<longrightarrow> \<not> (truth R x \<and> truth R y))"
    unfolding excludes_def
    by (rule sound_andThen [OF notb_ok [OF assms(1)]], rule sound_with, rule sound_verdict, erule imp) auto
  show "sound R (excludes_not c x y) (\<lambda>r. r \<longrightarrow> truth R x \<or> truth R y)"
    unfolding excludes_not_def
    by (rule sound_andThen [OF notb_ok [OF assms(1)]], rule sound_with, rule sound_verdict, erule imp) auto
qed

lemma implies_good:
  "good R a \<Longrightarrow> good R b \<Longrightarrow> (truth R a \<and> truth R b \<longrightarrow> q) \<Longrightarrow> (\<not> truth R a \<longrightarrow> q) \<Longrightarrow> sound R (c_implies c a b) (\<lambda>r. r \<longrightarrow> q)"
  "good R a \<Longrightarrow> good R b \<Longrightarrow> (\<not> (truth R a \<and> truth R b) \<longrightarrow> q) \<Longrightarrow> sound R (c_disjoint c a b) (\<lambda>r. r \<longrightarrow> q)"
  by (rule sound_weaken [OF implies_ok], assumption+, unfold implies_right.simps, blast)
    (rule sound_weaken [OF disjoint_ok], assumption+, unfold disjoint_right.simps, blast)

lemma implies_lit_sound:
  assumes la: "\<forall>m \<in> set la. good R m" "(\<forall>m \<in> set la. truth R m) = truth R a" and a: "good R a" and l: "good R l"
  shows "sound R (implies_lit c a la l) (\<lambda>r. r \<longrightarrow> truth R a \<longrightarrow> truth R l)"
  unfolding implies_lit_def
proof (rule sound_with, rule sound_if, goal_cases)
  case (1 S)
  then show ?case using litImplies_truth [of "s_semantic S" _ l R] la l by (intro sound_verdict) (auto simp: list_ex_iff)
next
  case (2 S)
  note g = guard_reads [OF 2(1,2)]
  have guard: "sound R (if isGuardSym S l then c_implies c a (guardDef S l) else ret False) (\<lambda>r. r \<longrightarrow> truth R a \<longrightarrow> truth R l)"
    using g [of l] l a by (intro sound_if implies_good(1) sound_verdict) auto
  have neg: "sound R (case negated l of Some g \<Rightarrow> if isGuardSym S g then c_disjoint c a (guardDef S g) else ret False | None \<Rightarrow> ret False)
      (\<lambda>r. r \<longrightarrow> truth R a \<longrightarrow> truth R l)"
  proof (rule sound_option)
    fix x
    assume "negated l = Some x"
    then have x: "good R x" "truth R l = (\<not> truth R x)" using l by (auto simp: negated_Some)
    show "sound R (if isGuardSym S x then c_disjoint c a (guardDef S x) else ret False) (\<lambda>r. r \<longrightarrow> truth R a \<longrightarrow> truth R l)"
      using g [of x] x a by (intro sound_if implies_good(2) sound_verdict) auto
  qed (simp add: sound_verdict)
  have con: "sound R (andThen (c_notb c l) (\<lambda>nl. contradictory_act (la @ [nl]))) (\<lambda>r. r \<longrightarrow> truth R a \<longrightarrow> truth R l)"
    by (rule sound_andThen [OF notb_ok [OF l]], rule sound_weaken [OF sound_contradictory])
      (use la in \<open>auto simp: not_right_def\<close>)
  show ?case by (intro sound_or guard neg con) auto
qed auto

lemma implies_lits_sound:
  assumes la: "\<forall>m \<in> set la. good R m" "(\<forall>m \<in> set la. truth R m) = truth R a" and a: "good R a"
    and b: "good R b" and lb: "\<forall>l \<in> set lb. good R l" and all: "(truth R a \<longrightarrow> (\<forall>l \<in> set lb. truth R l)) \<longrightarrow> truth R a \<longrightarrow> truth R b"
  shows "sound R (implies_lits c a b la lb) (\<lambda>r. r \<longrightarrow> truth R a \<longrightarrow> truth R b)"
  using lb all
proof (induction lb)
  case Nil
  then show ?case by (simp add: sound_ret)
next
  case (Cons l lb)
  have ex: "sound R (with_state (\<lambda>S. case expandGuard S la of None \<Rightarrow> ret False | Some ex \<Rightarrow> scoped_call (c_implies c ex b)))
      (\<lambda>r. r \<longrightarrow> truth R a \<longrightarrow> truth R b)"
  proof (rule sound_with, rule sound_option, goal_cases)
    case (2 S ex)
    from expandGuard_right [OF 2(3) la(1) 2(1,2)] have "good R ex" "truth R ex = truth R a" using la(2) by simp_all
    with b show ?case by (intro sound_weaken [OF sound_depth [OF implies_ok]]) (auto simp: right_defs)
  qed (auto intro: sound_verdict)
  show ?case
    unfolding implies_lits.simps
  proof (rule sound_andThen [OF implies_lit_sound [OF la a]], goal_cases)
    case (2 ok)
    then show ?case using Cons ex by (cases ok) auto
  qed (use Cons.prems in auto)
qed

lemma impliesRaw_sound:
  assumes a: "good R a" and b: "good R b"
  shows "sound R (impliesRaw c a b) (implies_right R (a, b))"
  unfolding impliesRaw_def implies_right.simps
proof (intro sound_if sound_option sound_prod)
  fix p x y assume "binary OpOr a = Some p" "p = (x, y)"
  then have x: "good R x" "good R y" "truth R a = (truth R x \<or> truth R y)" using good_binary a by auto
  show "sound R (andThen (c_implies c x b) (\<lambda>i. if i then c_implies c y b else ret False)) (\<lambda>r. r \<longrightarrow> truth R a \<longrightarrow> truth R b)"
    by (rule sound_and [where p = "truth R x \<longrightarrow> truth R b"]) (use x b in \<open>auto intro!: implies_good\<close>)
next
  fix p x y assume "binary OpOr b = Some p" "p = (x, y)"
  then have x: "good R x" "good R y" "truth R b = (truth R x \<or> truth R y)" using good_binary b by auto
  show "sound R (andThen (c_implies c a x) (\<lambda>i. if i then ret True else c_implies c a y)) (\<lambda>r. r \<longrightarrow> truth R a \<longrightarrow> truth R b)"
    by (rule sound_or) (use x a in \<open>auto intro!: implies_good\<close>)
next
  show "sound R (with_state (\<lambda>S. if isGuardSym S b then c_implies c a (guardDef S b) else implies_lits c a b (conjuncts a) (conjuncts b)))
      (\<lambda>r. r \<longrightarrow> truth R a \<longrightarrow> truth R b)"
  proof (rule sound_with, rule sound_if, goal_cases)
    case (1 S)
    with guard_reads [OF 1(1,2,3) b] a show ?case by (intro implies_good) auto
  next
    case (2 S)
    show ?case by (rule implies_lits_sound) (use conjuncts_good [OF a] conjuncts_good [OF b] a b in auto)
  qed auto
qed (auto simp: isTrue_mkBool intro!: sound_ret)

lemma implies_sound:
  assumes "good R a" and "good R b"
  shows "sound R (implies c a b) (implies_right R (a, b))"
  unfolding implies_def
  by (intro sound_if sound_memoed impliesRaw_sound assms sound_ret;
    (auto simp: isTrue_mkBool right_defs; fail | simp add: memo_right wf_store))

lemma any_sound:
  assumes "\<And>x. x \<in> set xs \<Longrightarrow> sound R (h x) (\<lambda>r. r \<longrightarrow> q)" and "\<And>x. extends (h x)"
  shows "sound R (any_act h xs) (\<lambda>r. r \<longrightarrow> q)"
  using assms(1)
proof (induction xs)
  case (Cons x xs)
  then show ?case using assms(2) by (auto intro!: sound_or extends_any)
qed (simp add: sound_verdict)

lemma disjointRaw_sound:
  assumes a: "good R a" and b: "good R b"
  shows "sound R (disjointRaw c a b) (disjoint_right R (a, b))"
  unfolding disjointRaw_def disjoint_right.simps Let_def
proof (intro sound_if sound_option sound_prod)
  fix p x y assume "binary OpOr a = Some p" "p = (x, y)"
  then have x: "good R x" "good R y" "truth R a = (truth R x \<or> truth R y)" using good_binary a by auto
  show "sound R (andThen (c_disjoint c x b) (\<lambda>d. if d then c_disjoint c y b else ret False)) (\<lambda>r. r \<longrightarrow> \<not> (truth R a \<and> truth R b))"
    by (rule sound_and [where p = "\<not> (truth R x \<and> truth R b)"]) (use x b in \<open>auto intro!: implies_good\<close>)
next
  fix p x y assume "binary OpOr b = Some p" "p = (x, y)"
  then have x: "good R x" "good R y" "truth R b = (truth R x \<or> truth R y)" using good_binary b by auto
  show "sound R (andThen (c_disjoint c a x) (\<lambda>d. if d then c_disjoint c a y else ret False)) (\<lambda>r. r \<longrightarrow> \<not> (truth R a \<and> truth R b))"
    by (rule sound_and [where p = "\<not> (truth R a \<and> truth R x)"]) (use x a in \<open>auto intro!: implies_good\<close>)
next
  let ?la = "conjuncts a" and ?lb = "conjuncts b"
  note ca = conjuncts_good [OF a] and cb = conjuncts_good [OF b]
  have pairs: "sound R (any_act (\<lambda>(x, y). excludes c x y) (List.product ?la ?lb)) (\<lambda>r. r \<longrightarrow> \<not> (truth R a \<and> truth R b))"
    by (rule any_sound) (use ca cb in \<open>auto intro!: sound_weaken [OF excludes_sound(1)]\<close>)
  have con: "sound R (contradictory_act (?la @ ?lb)) (\<lambda>r. r \<longrightarrow> \<not> (truth R a \<and> truth R b))"
    by (rule sound_weaken [OF sound_contradictory]) (use ca cb in auto)
  have ex: "sound R (with_state (\<lambda>S. case expandGuard S ?la of
        Some ea \<Rightarrow> scoped_call (c_disjoint c ea b)
      | None \<Rightarrow> (case expandGuard S ?lb of Some eb \<Rightarrow> scoped_call (c_disjoint c a eb) | None \<Rightarrow> ret False)))
      (\<lambda>r. r \<longrightarrow> \<not> (truth R a \<and> truth R b))"
  proof (rule sound_with, intro sound_option, goal_cases)
    case (2 S eb)
    from expandGuard_right [OF 2(4) _ 2(1,2)] cb have "good R eb" "truth R eb = truth R b" by auto
    with a show ?case by (intro sound_weaken [OF sound_depth [OF disjoint_ok]]) (auto simp: right_defs)
  next
    case (3 S ea)
    from expandGuard_right [OF 3(3) _ 3(1,2)] ca have "good R ea" "truth R ea = truth R a" by auto
    with b show ?case by (intro sound_weaken [OF sound_depth [OF disjoint_ok]]) (auto simp: right_defs)
  qed (auto intro: sound_verdict)
  show "sound R (andThen (any_act (\<lambda>(x, y). excludes c x y) (List.product ?la ?lb)) (\<lambda>d. if d then ret True else
      andThen (contradictory_act (?la @ ?lb)) (\<lambda>d. if d then ret True else with_state (\<lambda>S. case expandGuard S ?la of
        Some ea \<Rightarrow> scoped_call (c_disjoint c ea b)
      | None \<Rightarrow> (case expandGuard S ?lb of Some eb \<Rightarrow> scoped_call (c_disjoint c a eb) | None \<Rightarrow> ret False)))))
      (\<lambda>r. r \<longrightarrow> \<not> (truth R a \<and> truth R b))"
    by (intro sound_or pairs con ex) auto
qed (auto simp: isTrue_mkBool intro!: sound_ret)

lemma disjoint_sound:
  assumes "good R a" and "good R b"
  shows "sound R (disjoint c a b) (disjoint_right R (a, b))"
  unfolding disjoint_def
  by (intro sound_if sound_memoed disjointRaw_sound assms sound_ret;
    (auto simp: isTrue_mkBool right_defs; fail | simp add: memo_right wf_store))

subsubsection \<open>Disjunction\<close>

lemma fold_sound:
  assumes "\<And>x y. x \<in> set xs \<Longrightarrow> P y \<Longrightarrow> sound R (h x y) (\<lambda>z. P z \<and> Q z = (Q y \<or> q x))" and "\<And>x y. extends (h x y)" and "P y"
  shows "sound R (fold_act h xs y) (\<lambda>z. P z \<and> Q z = (Q y \<or> (\<exists>x \<in> set xs. q x)))"
  using assms(1,3)
proof (induction xs arbitrary: y)
  case Nil
  then show ?case by (simp add: sound_ret)
next
  case (Cons x xs)
  have "sound R (h x y) (\<lambda>z. P z \<and> Q z = (Q y \<or> q x))" by (rule Cons.prems) (simp_all add: Cons.prems)
  moreover have "sound R (fold_act h xs z) (\<lambda>w. P w \<and> Q w = (Q y \<or> (\<exists>x \<in> set (x # xs). q x)))" if z: "P z \<and> Q z = (Q y \<or> q x)" for z
    by (rule sound_weaken [OF Cons.IH]) (use Cons.prems z in auto)
  ultimately show ?case using assms(2) by (auto intro!: sound_andThen extends_fold)
qed

lemma add_clause_sound:
  assumes e: "good R e" and ls: "\<forall>l \<in> set ls. good R l" "(\<forall>l \<in> set ls. truth R l) = truth R e" and cls: "good_cls R cls"
  shows "sound R (add_clause c e ls cls) (flat_right R e cls)"
  unfolding add_clause_def
proof (rule sound_if)
  assume "isTrue e"
  then show "sound R (ret [[]]) (flat_right R e cls)" by (simp add: sound_ret right_defs isTrue_mkBool)
next
  show "sound R (with_state (\<lambda>S. case if length cls < 64 then shallow_at S ls else None of
      None \<Rightarrow> ret (cls @ [sort_key (s_ident S) ls])
    | Some (i, d) \<Rightarrow> andThen (and_lits c (without i ls) (mkBool True)) (\<lambda>rest.
        fold_act (\<lambda>x cls. andThen (c_andb c rest x) (\<lambda>e. c_flat c e True cls)) (disjuncts d) cls))) (flat_right R e cls)"
  proof (rule sound_with, intro sound_option sound_prod, goal_cases)
    case (1 S)
    show ?case using ls cls by (intro sound_ret) (auto simp: right_defs)
  next
    case (2 S x i d)
    then have "shallow_at S ls = Some (i, d)" by (auto split: if_splits)
    then have i: "i < length ls" "isGuardSym S (ls ! i)" "d = guardDef S (ls ! i)" using shallow_at_Some by blast+
    then have g: "good R d" "truth R d = truth R (ls ! i)" using guard_reads [OF 2(1,2) i(2)] ls(1) by auto
    note D = disjuncts_good [OF g(1)] and set = without_set [OF i(1)]
    have rest: "\<forall>l \<in> set (without i ls). good R l" using set ls(1) by auto
    show ?case
    proof (rule sound_andThen [OF and_lits_sound [OF rest]], goal_cases)
      case (2 r)
      have step: "sound R (andThen (c_andb c r x) (\<lambda>e. c_flat c e True cls'))
          (\<lambda>z. good_cls R z \<and> dnf R z = (dnf R cls' \<or> truth R r \<and> truth R x))"
        if "x \<in> set (disjuncts d)" "good_cls R cls'" for x cls'
        by (rule sound_andThen [OF andb_ok]) (use that 2 D in \<open>auto intro!: sound_weaken [OF flat_ok] simp: right_defs\<close>)
      show ?case
      proof (rule sound_weaken [OF fold_sound [where P = "good_cls R" and Q = "dnf R" and q = "\<lambda>x. truth R r \<and> truth R x"]], goal_cases)
        case (1 x y)
        then show ?case by (rule step)
      next
        case (4 z)
        moreover have "(\<exists>x \<in> set (disjuncts d). truth R r \<and> truth R x) = truth R e"
          using D g(2) 2 ls(2) set by auto
        ultimately show ?case by (auto simp: flat_right_def)
      qed (use cls in auto)
    qed (auto intro!: extends_fold)
  qed (auto intro!: extends_fold)
qed

lemma flat_sound:
  assumes e: "good R e" and cls: "good_cls R cls"
  shows "sound R (flat c e canon cls) (flat_right R e cls)"
  unfolding flat_def Let_def
proof (intro sound_option sound_prod)
  fix p x y assume "binary OpOr e = Some p" "p = (x, y)"
  then have x: "good R x" "good R y" "truth R e = (truth R x \<or> truth R y)" using good_binary e by auto
  show "sound R (andThen (c_flat c x canon cls) (c_flat c y canon)) (flat_right R e cls)"
    by (rule sound_andThen [OF flat_ok [OF x(1) cls]], rule sound_weaken [OF flat_ok]) (use x in \<open>auto simp: right_defs\<close>)
next
  note ce = conjuncts_good [OF e]
  have add: "sound R (add_clause c e (conjuncts e) cls) (flat_right R e cls)" using add_clause_sound e ce cls by blast
  show "sound R (if isFalse e then ret cls
      else if canon then andThen (and_lits c (conjuncts e) (mkBool True)) (\<lambda>cc. if cc \<noteq> e then c_flat c cc False cls
        else add_clause c e (conjuncts e) cls)
      else add_clause c e (conjuncts e) cls) (flat_right R e cls)"
  proof (intro sound_if)
    assume "isFalse e"
    then show "sound R (ret cls) (flat_right R e cls)" using cls by (simp add: sound_ret right_defs isTrue_mkBool)
  next
    show "sound R (andThen (and_lits c (conjuncts e) (mkBool True)) (\<lambda>cc. if cc \<noteq> e then c_flat c cc False cls
        else add_clause c e (conjuncts e) cls)) (flat_right R e cls)"
    proof (rule sound_andThen [OF and_lits_sound [of "conjuncts e"]], goal_cases)
      case (3 cc)
      then have "good R cc" "truth R cc = truth R e" using ce by auto
      then show ?case using add cls by (auto intro!: sound_weaken [OF flat_ok] simp: right_defs)
    qed (use ce in auto)
  qed (rule add)
qed

subsubsection \<open>Resolution\<close>

lemma icmp_complement:
  assumes "good R (ECmp (inverse_pred q) a b)"
  shows "truth R (ECmp (inverse_pred q) a b) = (\<not> truth R (ECmp q a b))"
proof -
  have "q \<noteq> FCmp n" for n using assms by (auto elim: good_litE)
  then show ?thesis using icmp_inverse [of q] by simp
qed

lemma covering_sound:
  assumes "good R x" and "good R y"
  shows "sound R (covering c x y) (\<lambda>r. r \<longrightarrow> truth R x \<or> truth R y)"
proof -
  have "sound R (complementary c x y) (\<lambda>r. r \<longrightarrow> truth R x \<or> truth R y)"
    unfolding complementary_def
  proof (rule sound_andThen [OF notb_ok [OF assms(1)]], rule sound_verdict, goal_cases)
    case (1 nx)
    then show ?case using assms icmp_complement
      by (cases x; cases y) (auto simp: not_right_def simp del: holds.simps connective_nodes)
  qed auto
  moreover have "sound R (excludes_not c y x) (\<lambda>r. r \<longrightarrow> truth R x \<or> truth R y)"
    by (rule sound_weaken [OF excludes_sound(2)]) (use assms in auto)
  ultimately show ?thesis
    unfolding covering_def using excludes_sound(2) [OF assms] by (intro sound_or) (auto simp: complementary_def)
qed

lemma first_sound:
  assumes "\<And>x. x \<in> set xs \<Longrightarrow> sound R (h x) (\<lambda>r. \<forall>y. r = Some y \<longrightarrow> q y)" and "\<And>x. extends (h x)"
  shows "sound R (first_act h xs) (\<lambda>r. \<forall>y. r = Some y \<longrightarrow> q y)"
  using assms(1)
proof (induction xs)
  case Nil
  then show ?case by (simp add: sound_ret)
next
  case (Cons x xs)
  then have "sound R (h x) (\<lambda>r. \<forall>y. r = Some y \<longrightarrow> q y)" by simp
  then show ?case
    unfolding first_act.simps
    by (rule sound_andThen) (use Cons assms(2) in \<open>auto intro!: sound_if sound_ret extends_first\<close>)
qed

lemma drop_at_sound:
  assumes "good R l" and "\<forall>m \<in> set cl. good R m"
  shows "sound R (drop_at c l d cl) (\<lambda>r. \<forall>n. r = Some n \<longrightarrow> n < length cl \<and>
    (cl ! n \<in> set d \<and> (truth R l \<or> truth R (cl ! n)) \<or> ((\<forall>m \<in> set (without n cl). truth R m) \<longrightarrow> truth R (cl ! n))))"
  unfolding drop_at_def
proof (rule first_sound, goal_cases)
  case (1 k)
  then have k: "k < length cl" "good R (cl ! k)" using assms(2) by auto
  have rest: "\<forall>m \<in> set (without k cl). good R m" using without_set [OF k(1)] assms(2) by auto
  have red: "sound R (redundant c cl k) (\<lambda>r. r \<longrightarrow> (\<forall>m \<in> set (without k cl). truth R m) \<longrightarrow> truth R (cl ! k))"
    unfolding redundant_def
    by (rule sound_andThen [OF and_lits_sound [OF rest]]) (use k in \<open>auto intro!: implies_good\<close>)
  show ?case
  proof (rule sound_andThen [OF covering_sound [OF assms(1) k(2)]], intro sound_if sound_andThen [OF red] sound_ret, goal_cases)
    case (2 r)
    then show ?case using k by auto
  next
    case (3 r b)
    then show ?case using k by (auto split: if_splits)
  qed (auto simp: redundant_def)
qed (auto simp: redundant_def)

lemma resolve_pair_sound:
  assumes good: "good_cls R cls" and ij: "i < j" "j < length cls"
  shows "sound R (resolve_pair c cls (i, j)) (\<lambda>r. \<forall>cls'. r = Some cls' \<longrightarrow> resolve_right R cls cls')"
  unfolding resolve_pair_def Let_def prod.case
proof (rule sound_with, goal_cases)
  case (1 S)
  then have "inj (s_ident S)" by (simp add: wf_state_def)
  then obtain k where k: "s_ident S = k" "inj k" by blast
  define ci cj where c: "ci = cls ! i" "cj = cls ! j"
  define di dj X where d: "di = set_difference k ci cj" "dj = set_difference k cj ci" "X = set_intersection k ci cj"
  obtain rest where two: "set cls = {ci, cj} \<union> rest" "set (without j cls) = insert ci rest" "set (without i cls) = insert cj rest"
    "\<And>x. set (cls[i := x]) = {x, cj} \<union> rest" "\<And>x. set (cls[j := x]) = {ci, x} \<union> rest" "\<And>x. set (without j (cls[i := x])) = insert x rest"
    using two_clauses [OF ij] c by metis
  have gi: "\<forall>l \<in> set ci. good R l" "\<forall>l \<in> set cj. good R l" using good ij by (auto simp: good_cls_def c)
  have X: "set ci = set X \<union> set di" "set cj = set X \<union> set dj"
    using set_operations(1) [of ci k cj] set_operations(1) [of cj k ci] set_intersection_commute [OF k(2)] by (simp_all add: d)
  have all: "\<forall>cl \<in> rest. \<forall>l \<in> set cl. good R l" using good two(1) by (auto simp: good_cls_def)
  have dnf: "dnf R cls = ((\<forall>l \<in> set ci. truth R l) \<or> (\<forall>l \<in> set cj. truth R l) \<or> (\<exists>cl \<in> rest. \<forall>l \<in> set cl. truth R l))"
    by (auto simp: dnf_def two(1))
  have res: "resolve_right R cls cls'"
    if "set cls' = T \<union> rest" "\<forall>cl \<in> T. \<forall>l \<in> set cl. good R l"
      "(\<exists>cl \<in> T. \<forall>l \<in> set cl. truth R l) = ((\<forall>l \<in> set ci. truth R l) \<or> (\<forall>l \<in> set cj. truth R l))" for cls' T
    using that all dnf unfolding resolve_right_def good_cls_def dnf_def [of R cls'] by (simp add: ball_Un bex_Un)
  have keep_i: "resolve_right R cls (without j cls)" if "(\<forall>l \<in> set cj. truth R l) \<Longrightarrow> (\<forall>l \<in> set ci. truth R l)"
    by (rule res [of _ "{ci}"]) (use two(2) gi that in auto)
  have keep_j: "resolve_right R cls (without i cls)" if "(\<forall>l \<in> set ci. truth R l) \<Longrightarrow> (\<forall>l \<in> set cj. truth R l)"
    by (rule res [of _ "{cj}"]) (use two(3) gi that in auto)
  have drop: "((\<forall>m \<in> set as. truth R m) \<or> (\<forall>m \<in> set bs. truth R m)) = ((\<forall>m \<in> set as. truth R m) \<or> (\<forall>m \<in> set (without n bs). truth R m)) \<and>
      set (without n bs) \<subseteq> set bs"
    if a: "set as = set X \<union> {l}" "mset bs = mset X + mset e" "n < length bs"
      "bs ! n \<in> set e \<and> (truth R l \<or> truth R (bs ! n)) \<or> ((\<forall>m \<in> set (without n bs). truth R m) \<longrightarrow> truth R (bs ! n))" for as bs e l n
  proof -
    have "mset bs = add_mset (bs ! n) (mset (without n bs))"
      using id_take_nth_drop [OF a(3)] by (simp add: without_def) (metis mset.simps(2) mset_append union_mset_add_mset_right)
    then have "bs ! n \<in> set (without n bs)" if "bs ! n \<in> set X" "bs ! n \<in> set e"
      using that a(2) by (metis add_mset_remove_trivial insert_DiffM set_mset_mset union_iff union_mset_add_mset_left)
    moreover have "set X \<subseteq> set bs" using a(2) by (metis set_mset_mset set_mset_union Un_upper1)
    ultimately show ?thesis using drop_literal [OF a(1) _ a(3), of R] a(4) without_set [OF a(3)] by auto
  qed
  have single: "length e = 1 \<Longrightarrow> set e = {hd e}" for e :: "expr list" by (cases e) auto
  note mX = mset_operations [of ci k cj, folded d] mset_operations [of cj k ci, folded d, unfolded set_intersection_commute [OF k(2), of cj ci], folded d]
  show ?case
    unfolding k(1) c [symmetric] d [symmetric]
  proof (intro sound_if sound_ret)
    assume "di = []"
    then show "\<forall>cls'. Some (without j cls) = Some cls' \<longrightarrow> resolve_right R cls cls'" using keep_i X by auto
  next
    assume "dj = []"
    then show "\<forall>cls'. Some (without i cls) = Some cls' \<longrightarrow> resolve_right R cls cls'" using keep_j X by auto
  next
    assume "s_semantic S \<and> subsumed True ci cj"
    then show "\<forall>cls'. Some (without j cls) = Some cls' \<longrightarrow> resolve_right R cls cls'"
      using keep_i subsumed_truth [of True ci cj R] gi by auto
  next
    assume "s_semantic S \<and> subsumed True cj ci"
    then show "\<forall>cls'. Some (without i cls) = Some cls' \<longrightarrow> resolve_right R cls cls'"
      using keep_j subsumed_truth [of True cj ci R] gi by auto
  next
    have cov: "sound R (if length di = 1 \<and> length dj = 1 then covering c (hd di) (hd dj) else ret False)
        (\<lambda>r. r \<longrightarrow> length di = 1 \<and> length dj = 1 \<and> (truth R (hd di) \<or> truth R (hd dj)))"
    proof (rule sound_if)
      assume l: "length di = 1 \<and> length dj = 1"
      then have "hd di \<in> set di" "hd dj \<in> set dj" using single by auto
      with X gi have "good R (hd di)" "good R (hd dj)" by auto
      then show "sound R (covering c (hd di) (hd dj)) (\<lambda>r. r \<longrightarrow> length di = 1 \<and> length dj = 1 \<and> (truth R (hd di) \<or> truth R (hd dj)))"
        using l by (intro sound_weaken [OF covering_sound]) auto
    qed (simp add: sound_ret)
    have dropped: "sound R (if length e = 1 then drop_at c (hd e) e' bs else ret None)
        (\<lambda>r. \<forall>n. r = Some n \<longrightarrow> length e = 1 \<and> n < length bs \<and>
          (bs ! n \<in> set e' \<and> (truth R (hd e) \<or> truth R (bs ! n)) \<or> ((\<forall>m \<in> set (without n bs). truth R m) \<longrightarrow> truth R (bs ! n))))"
      if "\<forall>l \<in> set e. good R l" "\<forall>m \<in> set bs. good R m" for e e' bs
    proof (rule sound_if)
      assume l: "length e = 1"
      with single have "good R (hd e)" using that(1) by auto
      then show "sound R (drop_at c (hd e) e' bs) (\<lambda>r. \<forall>n. r = Some n \<longrightarrow> length e = 1 \<and> n < length bs \<and>
          (bs ! n \<in> set e' \<and> (truth R (hd e) \<or> truth R (bs ! n)) \<or> ((\<forall>m \<in> set (without n bs). truth R m) \<longrightarrow> truth R (bs ! n))))"
        using l that(2) by (intro sound_weaken [OF drop_at_sound]) auto
    qed (simp add: sound_ret)
    have gd: "\<forall>l \<in> set di. good R l" "\<forall>l \<in> set dj. good R l" using X gi by auto
    show "sound R (andThen (if length di = 1 \<and> length dj = 1 then covering c (hd di) (hd dj) else ret False) (\<lambda>cov.
        if cov then ret (Some (without j (cls[i := X])))
        else andThen (if length di = 1 then drop_at c (hd di) dj cj else ret None) (\<lambda>r.
          case r of Some n \<Rightarrow> ret (Some (cls[j := without n cj]))
          | None \<Rightarrow> andThen (if length dj = 1 then drop_at c (hd dj) di ci else ret None) (\<lambda>r.
              ret (map_option (\<lambda>n. cls[i := without n ci]) r)))))
      (\<lambda>r. \<forall>cls'. r = Some cls' \<longrightarrow> resolve_right R cls cls')"
    proof (rule sound_andThen [OF cov], intro sound_if sound_ret, goal_cases)
      case (1 r)
      then have s: "set ci = insert (hd di) (set X)" "set cj = insert (hd dj) (set X)" "truth R (hd di) \<or> truth R (hd dj)"
        using X single by auto
      have "resolve_right R cls (without j (cls[i := X]))"
        by (rule res [of _ "{X}"]) (use two(6) gi s in auto)
      then show ?case by simp
    next
      case (2 r)
      show ?case
      proof (rule sound_andThen [OF dropped [OF gd(1) gi(2)]], intro sound_option sound_andThen [OF dropped [OF gd(2) gi(1)]] sound_ret, goal_cases)
        case (1 r r')
        have "resolve_right R cls (cls[i := without n ci])" if "r' = Some n" for n
        proof -
          from 1 that have n: "length dj = 1" "n < length ci" by auto
          then have sj: "set cj = set X \<union> {hd dj}" using X(2) single by auto
          from drop [OF sj mX(1) n(2)] 1 that
          have "((\<forall>m \<in> set cj. truth R m) \<or> (\<forall>m \<in> set ci. truth R m)) = ((\<forall>m \<in> set cj. truth R m) \<or> (\<forall>m \<in> set (without n ci). truth R m)) \<and>
            set (without n ci) \<subseteq> set ci" by blast
          with two(4) gi show ?thesis by (intro res [of _ "{without n ci, cj}"]) auto
        qed
        then show ?case by auto
      next
        case (3 r n)
        then have n: "length di = 1" "n < length cj" by auto
        then have si: "set ci = set X \<union> {hd di}" using X(1) single by auto
        from drop [OF si mX(2) n(2)] 3
        have "((\<forall>m \<in> set ci. truth R m) \<or> (\<forall>m \<in> set cj. truth R m)) = ((\<forall>m \<in> set ci. truth R m) \<or> (\<forall>m \<in> set (without n cj). truth R m)) \<and>
          set (without n cj) \<subseteq> set cj" by blast
        with two(5) gi have "resolve_right R cls (cls[j := without n cj])" by (intro res [of _ "{ci, without n cj}"]) auto
        then show ?case by simp
      qed auto
    qed auto
  qed
qed auto

lemma resolve_sound:
  assumes "good_cls R cls"
  shows "sound R (resolve c cls) (resolve_right R cls)"
proof -
  let ?pairs = "[(i, j). i \<leftarrow> [0..<length cls], j \<leftarrow> [Suc i..<length cls]]"
  have "sound R (first_act (resolve_pair c cls) ?pairs) (\<lambda>r. \<forall>cls'. r = Some cls' \<longrightarrow> resolve_right R cls cls')"
  proof (rule first_sound)
    fix x
    assume "x \<in> set ?pairs"
    then obtain i j where "x = (i, j)" "i < j" "j < length cls" by auto
    then show "sound R (resolve_pair c cls x) (\<lambda>r. \<forall>cls'. r = Some cls' \<longrightarrow> resolve_right R cls cls')"
      using resolve_pair_sound assms by blast
  qed auto
  then show ?thesis
    unfolding resolve_def
    by (rule sound_andThen) (use assms in \<open>auto intro!: sound_option sound_ret sound_weaken [OF resolve_ok] simp: right_defs\<close>)
qed

lemma rebuild_sound:
  assumes "good_cls R cls" and "\<And>e. r = Some e \<Longrightarrow> good R e"
  shows "sound R (rebuild_clauses c (IntT 1) cls r again) (\<lambda>x.
    (\<forall>e. x = Inl e \<longrightarrow> good R e \<and> truth R e = ((\<exists>e. r = Some e \<and> truth R e) \<or> dnf R cls)) \<and>
    (\<forall>q. fst q = None \<longrightarrow> x = Inr q \<longrightarrow> \<not> ((\<exists>e. r = Some e \<and> truth R e) \<or> dnf R cls)) \<and>
    (\<forall>q e. fst q = Some e \<longrightarrow> x = Inr q \<longrightarrow> good R e \<and> truth R e = ((\<exists>e. r = Some e \<and> truth R e) \<or> dnf R cls)))"
  using assms
proof (induction cls arbitrary: r again)
  case Nil
  then show ?case by (auto intro!: sound_ret)
next
  case (Cons cl cls)
  have cl: "\<forall>l \<in> set cl. good R l" and cls: "good_cls R cls" using Cons.prems(1) by auto
  show ?case
    unfolding rebuild_clauses.simps
  proof (rule sound_andThen [OF and_lits_sound [OF cl bool_nodes(1)]], intro sound_if, goal_cases)
    case (1 e)
    then show ?case by (intro sound_ret) (auto simp: isTrue_mkBool)
  next
    case (2 e)
    then show ?case by (intro sound_weaken [OF Cons.IH]) (use Cons.prems cls in \<open>auto simp: isTrue_mkBool\<close>)
  next
    case (3 e)
    let ?r = "Some (case r of None \<Rightarrow> e | Some r \<Rightarrow> EOp (IntT 1) OpOr [r, e])"
    have "good R (the ?r)" "truth R (the ?r) = ((\<exists>e. r = Some e \<and> truth R e) \<or> (\<forall>l \<in> set cl. truth R l))"
      using 3 Cons.prems(2) by (auto split: option.splits)
    then show ?case by (intro sound_weaken [OF Cons.IH]) (use cls in auto)
  qed auto
qed

lemma again_sound:
  assumes "good R x" and "good R y"
  shows "sound R (again_orb c x y) (or_right R (x, y))"
  unfolding sound_def
proof (intro allI impI)
  fix S S' :: bools and r
  assume "again_orb c x y S = Some (r, S')" "reads R S'" "wf_state R S"
  then show "wf_state R S' \<and> or_right R (x, y) r"
    using orb_ok [OF assms, unfolded sound_def, rule_format, of "S\<lparr>s_orbDepth := s_orbDepth S + 1\<rparr>"]
    by (auto simp: again_orb_def andThen_def split: option.splits)
qed

lemma finish_sound:
  assumes "\<And>e. x = Inl e \<Longrightarrow> good R e \<and> truth R e = t"
    and "\<And>q. fst q = None \<Longrightarrow> x = Inr q \<Longrightarrow> \<not> t" and "\<And>q e. fst q = Some e \<Longrightarrow> x = Inr q \<Longrightarrow> good R e \<and> truth R e = t"
  shows "sound R (finish c x) (\<lambda>r. good R r \<and> truth R r = t)"
proof -
  consider e where "x = Inl e" | again where "x = Inr (None, again)" | e again where "x = Inr (Some e, again)"
    by (metis obj_sumE option.exhaust surj_pair)
  then show ?thesis
  proof cases
    case 2
    then show ?thesis using assms(2) [OF _ 2] by (simp add: finish_def sound_ret)
  next
    case 3
    note e = assms(3) [OF _ 3, simplified]
    have "sound R (again_orb c y z) (\<lambda>r. good R r \<and> truth R r = t)" if "binary OpOr e = Some (y, z)" for y z
      using good_binary [OF that] e by (intro sound_weaken [OF again_sound]) (auto simp: right_defs)
    then show ?thesis unfolding finish_def 3 using e
      by (auto intro!: sound_with sound_option sound_if sound_ret extends_again)
  qed (use assms in \<open>auto simp: finish_def intro!: sound_ret\<close>)
qed

lemma orbRaw_sound:
  assumes g: "good R a" "good R b"
  shows "sound R (orbRaw c a b) (or_right R (a, b))"
proof -
  have flat2: "sound R (andThen (c_flat c a True []) (c_flat c b True)) (\<lambda>cls. good_cls R cls \<and> dnf R cls = (truth R a \<or> truth R b))"
    by (rule sound_andThen [OF flat_ok [OF g(1)]]) (auto intro!: sound_weaken [OF flat_ok [OF g(2)]] simp: flat_right_def)
  have last: "sound R (andThen (c_resolve c cls) (\<lambda>cls. andThen (rebuild_clauses c (type_of a) cls None False) (finish c))) (or_right R (a, b))"
    if cls: "good_cls R cls" "dnf R cls = (truth R a \<or> truth R b)" for cls
  proof (rule sound_andThen [OF resolve_ok [OF cls(1)]], goal_cases)
    case (1 cls')
    then have r: "good_cls R cls'" "dnf R cls' = (truth R a \<or> truth R b)" using cls by (auto simp: resolve_right_def)
    show ?case
      unfolding good_type [OF g(1)]
      by (rule sound_andThen [OF rebuild_sound [OF r(1)]], simp, rule sound_weaken [OF finish_sound [where t = "truth R a \<or> truth R b"]])
        (auto simp: or_right.simps r(2))
  qed auto
  show ?thesis
    unfolding orbRaw_def
  proof (rule sound_andThen [OF implies_ok [OF g]], intro sound_if, goal_cases)
    case (2 i)
    show ?case
    proof (rule sound_andThen [OF implies_ok [OF g(2,1)]], intro sound_if, goal_cases)
      case (2 j)
      show ?case
      proof (rule sound_andThen [OF flat2], intro sound_if, goal_cases)
        case (1 cls)
        then have "dnf R cls" unfolding dnf_def by (metis empty_iff empty_set)
        with 1 show ?case by (intro sound_ret) (simp add: or_right.simps)
      next
        case (2 cls)
        then show ?case using last by blast
      qed auto
    qed (use g in \<open>auto simp: right_defs intro!: sound_ret\<close>)
  qed (use g in \<open>auto simp: right_defs intro!: sound_ret\<close>)
qed

lemma orb_sound:
  assumes "good R a" and "good R b"
  shows "sound R (orb c a b) (or_right R (a, b))"
  unfolding orb_def
  by (intro sound_if sound_memoed orbRaw_sound assms sound_ret;
    (use assms in \<open>auto simp: isTrue_mkBool right_defs; fail\<close> | simp add: memo_right wf_store))

subsubsection \<open>A condition under a context\<close>

lemma given_lits_sound:
  assumes "\<forall>l \<in> set ls. good R l" and "good R r" and ctx: "good R ctx"
  shows "sound R (given_lits c ctx ls r) (\<lambda>x. good R x \<and> (truth R ctx \<longrightarrow> truth R x = (truth R r \<and> (\<forall>l \<in> set ls. truth R l))))"
  using assms(1,2)
proof (induction ls arbitrary: r)
  case Nil
  then show ?case by (simp add: sound_ret)
next
  case (Cons l ls)
  have l: "good R l" "\<forall>l \<in> set ls. good R l" using Cons.prems by auto
  let ?Q = "\<lambda>x. good R x \<and> (truth R ctx \<longrightarrow> truth R x = (truth R r \<and> (\<forall>l \<in> set (l # ls). truth R l)))"
  have add: "sound R (with_state (\<lambda>S. if isGuardSym S l then andThen (c_given c (guardDef S l) ctx) (c_andb c r) else c_andb c r l))
      (\<lambda>x. good R x \<and> (truth R ctx \<longrightarrow> truth R x = (truth R r \<and> truth R l)))"
  proof (rule sound_with, rule sound_if, goal_cases)
    case (1 S)
    from guard_reads [OF 1(1,2,3) l(1)] have g: "good R (guardDef S l)" "truth R (guardDef S l) = truth R l" by simp_all
    show ?case
      by (rule sound_andThen [OF given_ok [OF g(1) ctx]], rule sound_weaken [OF andb_ok]) (use g(2) Cons.prems in \<open>auto simp: right_defs\<close>)
  next
    case (2 S)
    show ?case by (rule sound_weaken [OF andb_ok]) (use l Cons.prems in \<open>auto simp: right_defs\<close>)
  qed auto
  show ?case
    unfolding given_lits.simps
  proof (rule sound_andThen [OF implies_ok [OF ctx l(1)]], intro sound_if, goal_cases)
    case (1 i)
    then show ?case by (intro sound_weaken [OF Cons.IH]) (use l Cons.prems in \<open>auto simp: right_defs\<close>)
  next
    case (2 i)
    show ?case
    proof (rule sound_andThen [OF disjoint_ok [OF ctx l(1)]], intro sound_if, goal_cases)
      case (1 d)
      then show ?case by (intro sound_ret) (auto simp: right_defs)
    next
      case (2 d)
      show ?case
        by (rule sound_andThen [OF add], rule sound_weaken [OF Cons.IH]) (use l in auto)
    qed auto
  qed auto
qed

lemma given_sound:
  assumes e: "good R e" and ctx: "good R ctx"
  shows "sound R (given c e ctx) (given_right R (e, ctx))"
proof -
  have "sound R (givenRaw c e ctx) (given_right R (e, ctx))"
    unfolding givenRaw_def
  proof (rule sound_andThen [OF implies_ok [OF ctx e]], intro sound_if sound_option sound_prod, goal_cases)
    case (2 i)
    show ?case
      by (rule sound_weaken [OF given_lits_sound]) (use conjuncts_good [OF e] ctx in \<open>auto simp: given_right.simps\<close>)
  next
    case (3 i p x y)
    then have x: "good R x" "good R y" "truth R e = (truth R x \<or> truth R y)" using good_binary e by auto
    show ?case
      by (rule sound_andThen [OF given_ok [OF x(1) ctx]], rule sound_andThen [OF given_ok [OF x(2) ctx]], rule sound_weaken [OF orb_ok])
        (use x(3) in \<open>auto simp: right_defs\<close>)
  qed (auto simp: right_defs intro!: sound_ret)
  then show ?thesis
    unfolding given_def
    by (intro sound_if sound_memoed sound_ret; (use e in \<open>auto simp: right_defs; fail\<close> | simp add: memo_right wf_store))
qed

subsubsection \<open>Factoring\<close>

lemma rest_of_extends [intro!]: "extends (rest_of c t ds r)"
  by (induction ds arbitrary: r) auto

lemma rest_of_sound:
  assumes "good_cls R ds" and "\<And>e. r = Some e \<Longrightarrow> good R e" and "ds \<noteq> [] \<or> r \<noteq> None"
  shows "sound R (rest_of c (IntT 1) ds r) (\<lambda>x. x \<noteq> None \<and> good R (the x) \<and> truth R (the x) = ((\<exists>e. r = Some e \<and> truth R e) \<or> dnf R ds))"
  using assms
proof (induction ds arbitrary: r)
  case Nil
  then show ?case by (auto intro!: sound_ret)
next
  case (Cons d ds)
  have d: "\<forall>l \<in> set d. good R l" and ds: "good_cls R ds" using Cons.prems(1) by auto
  show ?case
    unfolding rest_of.simps
  proof (rule sound_andThen [OF and_lits_sound [OF d bool_nodes(1)]], intro sound_if, goal_cases)
    case (1 x)
    then show ?case by (intro sound_ret) (auto simp: isTrue_mkBool)
  next
    case (2 x)
    let ?r = "Some (case r of None \<Rightarrow> x | Some r \<Rightarrow> EOp (IntT 1) OpOr [r, x])"
    have "good R (the ?r)" "truth R (the ?r) = ((\<exists>e. r = Some e \<and> truth R e) \<or> (\<forall>l \<in> set d. truth R l))"
      using 2 Cons.prems(2) by (auto split: option.splits)
    then show ?case by (intro sound_weaken [OF Cons.IH]) (use ds in auto)
  qed auto
qed

lemma guard_for_extends [intro!]: "extends (guard_for t d)"
  unfolding guard_for_def by (auto intro!: extends_new_guard)

lemma factor_extends: "extends (factor_cond c e)"
  unfolding factor_cond_def Let_def by auto

lemma factor_sound:
  assumes e: "good R e"
  shows "sound R (factor_cond c e) (\<lambda>r. good R r \<and> truth R r = truth R e)"
  unfolding factor_cond_def Let_def
proof (intro sound_if)
  show "sound R (ret e) (\<lambda>r. good R r \<and> truth R r = truth R e)" using e by (simp add: sound_ret)
next
  show "sound R (with_state (\<lambda>S. andThen
      (rest_of c (type_of e) (map (\<lambda>cl. set_difference (s_ident S) cl
          (fold (\<lambda>cl m. set_intersection (s_ident S) m cl) (tl (map (\<lambda>x. sort_key (s_ident S) (conjuncts x)) (disjuncts e)))
            (hd (map (\<lambda>x. sort_key (s_ident S) (conjuncts x)) (disjuncts e)))))
        (map (\<lambda>x. sort_key (s_ident S) (conjuncts x)) (disjuncts e))) None)
      (\<lambda>rest. andThen (guard_for (type_of e) (the rest)) (and_lits c
          (fold (\<lambda>cl m. set_intersection (s_ident S) m cl) (tl (map (\<lambda>x. sort_key (s_ident S) (conjuncts x)) (disjuncts e)))
            (hd (map (\<lambda>x. sort_key (s_ident S) (conjuncts x)) (disjuncts e))))))))
      (\<lambda>r. good R r \<and> truth R r = truth R e)"
  proof (rule sound_with, goal_cases)
    case (1 S)
    define k where "k = s_ident S"
    define cls where "cls = map (\<lambda>x. sort_key k (conjuncts x)) (disjuncts e)"
    define common where "common = fold (\<lambda>cl m. set_intersection k m cl) (tl cls) (hd cls)"
    define ds where "ds = map (\<lambda>cl. set_difference k cl common) cls"
    note D = disjuncts_good [OF e]
    have k: "inj k" using 1(1) by (simp add: k_def wf_state_def)
    have ne: "cls \<noteq> []" by (simp add: cls_def)
    have g: "good_cls R cls" using D conjuncts_good by (auto simp: good_cls_def cls_def)
    have "dnf R cls = truth R e" using D conjuncts_good by (auto simp: dnf_def cls_def)
    then have t: "truth R e = ((\<forall>l \<in> set common. truth R l) \<and> dnf R ds)"
      using common_literals(2) [OF k ne, of R] by (simp add: common_def ds_def)
    have gc: "\<forall>l \<in> set common. good R l"
      using common_literals(1) [OF k ne, of "hd cls"] g ne hd_in_set [OF ne] unfolding common_def good_cls_def by blast
    have gd: "good_cls R ds" using g set_operations(3) by (force simp: good_cls_def ds_def)
    have "sound R (andThen (rest_of c (IntT 1) ds None) (\<lambda>rest. andThen (guard_for (IntT 1) (the rest)) (and_lits c common)))
        (\<lambda>r. good R r \<and> truth R r = truth R e)"
      by (rule sound_andThen [OF rest_of_sound [OF gd]], (use ne in \<open>auto simp: ds_def\<close>)[2],
          rule sound_andThen [OF guard_for_sound(1)], blast, rule sound_weaken [OF and_lits_sound [OF gc]]) (use t in auto)
    then show ?case unfolding k_def cls_def common_def ds_def good_type [OF e] .
  qed auto
qed

end

subsection \<open>The knot\<close>

lemma no_run: "extends (\<lambda>S. None)" "sound R (\<lambda>S. None) Q"
  by (simp_all add: extends_def sound_def)

lemma knot_contract: "condition_calls R (calls_at n)"
proof (induction n)
  case 0
  show ?case by unfold_locales (simp_all add: no_run)
next
  case (Suc n)
  note grow = condition_calls.notb_grow [OF Suc] condition_calls.andb_grow [OF Suc] condition_calls.orb_grow [OF Suc]
    condition_calls.implies_grow [OF Suc] condition_calls.disjoint_grow [OF Suc] condition_calls.flat_grow [OF Suc]
    condition_calls.resolve_grow [OF Suc] condition_calls.given_grow [OF Suc]
  note right = condition_calls.notb_sound [OF Suc] condition_calls.andb_sound [OF Suc] condition_calls.orb_sound [OF Suc]
    condition_calls.implies_sound [OF Suc] condition_calls.disjoint_sound [OF Suc] condition_calls.flat_sound [OF Suc]
    condition_calls.resolve_sound [OF Suc] condition_calls.given_sound [OF Suc]
  show ?case by unfold_locales (simp_all add: Let_def grow right)
qed

interpretation knot: condition_calls R "calls_at n" for R n
  by (rule knot_contract)

end
