(* ===== verification/Sym_Conditions_Runs.thy ===== *)
theory Sym_Conditions_Runs
  imports Sym_Conditions_Calls "HOL-Library.Countable"
begin

text \<open>
  Runs of the functions on conditions: a deeper knot returns what a shallower one does, so that the depth is
  no part of the result; conjunctions of comparisons return at a fixed depth; and the properties of the
  functions, with concrete runs.
\<close>

subsection \<open>The depth is no part of the result\<close>

definition below :: "'a act \<Rightarrow> 'a act \<Rightarrow> bool" where
  "below m m' \<longleftrightarrow> (\<forall>S. m S = None \<or> m S = m' S)"

lemma below_refl [intro!]: "below m m"
  by (simp add: below_def)

lemma below_none [intro!]: "below (\<lambda>S. None) m"
  by (simp add: below_def)

lemma below_andThen: "below m m' \<Longrightarrow> (\<And>x. below (k x) (k' x)) \<Longrightarrow> below (andThen m k) (andThen m' k')"
  unfolding below_def andThen_def by (auto split: option.splits) (metis option.distinct(1) option.inject prod.inject)+

lemma below_if: "below m m' \<Longrightarrow> below n n' \<Longrightarrow> below (if b then m else n) (if b then m' else n')"
  by simp

lemma below_option: "below m m' \<Longrightarrow> (\<And>x. below (n x) (n' x)) \<Longrightarrow>
  below (case r of None \<Rightarrow> m | Some x \<Rightarrow> n x) (case r of None \<Rightarrow> m' | Some x \<Rightarrow> n' x)"
  by (cases r) simp_all

lemma below_prod: "(\<And>x y. below (m x y) (m' x y)) \<Longrightarrow> below (case p of (x, y) \<Rightarrow> m x y) (case p of (x, y) \<Rightarrow> m' x y)"
  by (cases p) simp

lemma below_with: "(\<And>S. below (m S) (m' S)) \<Longrightarrow> below (with_state m) (with_state m')"
  by (simp add: below_def with_state_def)

lemma below_memoed: "below m m' \<Longrightarrow> below (memoed look store key m) (memoed look store key m')"
  using below_andThen [of m m'] by (auto simp: below_def memoed_def split: option.splits)

lemma below_scoped: "below m m' \<Longrightarrow> below (scoped_call m) (scoped_call m')"
  using below_andThen [of m m'] by (auto simp: below_def scoped_call_def)

lemma below_fold: "(\<And>x y. below (h x y) (h' x y)) \<Longrightarrow> below (fold_act h xs y) (fold_act h' xs y)"
  by (induction xs arbitrary: y) (auto intro: below_andThen)

lemma below_any: "(\<And>x. below (h x) (h' x)) \<Longrightarrow> below (any_act h xs) (any_act h' xs)"
  by (induction xs) (auto intro!: below_andThen below_if)

lemma below_first: "(\<And>x. below (h x) (h' x)) \<Longrightarrow> below (first_act h xs) (first_act h' xs)"
  by (induction xs) (auto intro!: below_andThen below_if)

lemmas below_rules = below_andThen below_if below_option below_prod below_with below_memoed below_scoped below_fold
  below_any below_first below_refl

locale deeper =
  fixes c d :: calls
  assumes notb_below: "below (c_notb c a) (c_notb d a)"
    and andb_below: "below (c_andb c a b) (c_andb d a b)"
    and orb_below: "below (c_orb c a b) (c_orb d a b)"
    and implies_below: "below (c_implies c a b) (c_implies d a b)"
    and disjoint_below: "below (c_disjoint c a b) (c_disjoint d a b)"
    and flat_below: "below (c_flat c e canon cls) (c_flat d e canon cls)"
    and resolve_below: "below (c_resolve c cls) (c_resolve d cls)"
    and given_below: "below (c_given c a b) (c_given d a b)"
begin

lemmas calls_below = notb_below andb_below orb_below implies_below disjoint_below flat_below resolve_below given_below

lemma and_lits_below: "below (and_lits c ls r) (and_lits d ls r)"
  unfolding and_lits_def by (intro below_rules calls_below)

lemma notb_deeper: "below (notb c a) (notb d a)"
  unfolding notb_def notb_body_def by (intro below_rules calls_below)

lemma andb_deeper: "below (andb c a b) (andb d a b)"
  unfolding andb_def andbRaw_def distribute_def Let_def by (intro below_rules calls_below)

lemma implies_lit_below: "below (implies_lit c a la l) (implies_lit d a la l)"
  unfolding implies_lit_def by (intro below_rules calls_below)

lemma implies_lits_below: "below (implies_lits c a b la lb) (implies_lits d a b la lb)"
proof (induction lb)
  case (Cons l lb)
  show ?case unfolding implies_lits.simps by (intro below_rules calls_below implies_lit_below Cons)
qed auto

lemma implies_deeper: "below (implies c a b) (implies d a b)"
  unfolding implies_def impliesRaw_def by (intro below_rules calls_below implies_lits_below)

lemma excludes_below: "below (excludes c x y) (excludes d x y)" "below (excludes_not c x y) (excludes_not d x y)"
  unfolding excludes_def excludes_not_def by (intro below_rules calls_below)+

lemma disjoint_deeper: "below (disjoint c a b) (disjoint d a b)"
  unfolding disjoint_def disjointRaw_def Let_def by (intro below_rules calls_below excludes_below)

lemma flat_deeper: "below (flat c e canon cls) (flat d e canon cls)"
  unfolding flat_def add_clause_def Let_def by (intro below_rules calls_below and_lits_below)

lemma covering_below: "below (covering c x y) (covering d x y)"
  unfolding covering_def complementary_def by (intro below_rules calls_below excludes_below)

lemma drop_at_below: "below (drop_at c l e cl) (drop_at d l e cl)"
  unfolding drop_at_def redundant_def by (intro below_rules calls_below covering_below and_lits_below)

lemma resolve_deeper: "below (resolve c cls) (resolve d cls)"
  unfolding resolve_def resolve_pair_def Let_def by (intro below_rules calls_below covering_below drop_at_below)

lemma rebuild_below: "below (rebuild_clauses c t cls r again) (rebuild_clauses d t cls r again)"
  by (induction cls arbitrary: r again) (auto intro!: below_rules calls_below and_lits_below)

lemma again_below: "below (again_orb c x y) (again_orb d x y)"
proof -
  have "below (andThen (c_orb c x y) k) (andThen (c_orb d x y) k)" for k :: "expr \<Rightarrow> expr act"
    by (intro below_rules calls_below)
  then show ?thesis by (simp add: below_def again_orb_def)
qed

lemma finish_below: "below (finish c r) (finish d r)"
  unfolding finish_def by (auto intro!: below_rules again_below split: sum.splits option.splits)

lemma orb_deeper: "below (orb c a b) (orb d a b)"
  unfolding orb_def orbRaw_def by (intro below_rules calls_below rebuild_below finish_below)

lemma given_lits_below: "below (given_lits c ctx ls r) (given_lits d ctx ls r)"
  by (induction ls arbitrary: r) (auto intro!: below_rules calls_below)

lemma given_deeper: "below (given c e ctx) (given d e ctx)"
  unfolding given_def givenRaw_def by (intro below_rules calls_below given_lits_below)

end

declare calls_at.simps(2) [simp del]

lemma calls_at_Suc:
  "c_notb (calls_at (Suc n)) = notb (calls_at n)" "c_andb (calls_at (Suc n)) = andb (calls_at n)"
  "c_orb (calls_at (Suc n)) = orb (calls_at n)" "c_implies (calls_at (Suc n)) = implies (calls_at n)"
  "c_disjoint (calls_at (Suc n)) = disjoint (calls_at n)" "c_flat (calls_at (Suc n)) = flat (calls_at n)"
  "c_resolve (calls_at (Suc n)) = resolve (calls_at n)" "c_given (calls_at (Suc n)) = given (calls_at n)"
  by (simp_all add: calls_at.simps(2) Let_def)

lemma deeper_step: "deeper (calls_at n) (calls_at (Suc n))"
proof (induction n)
  case 0
  show ?case by unfold_locales (simp_all add: below_none)
next
  case (Suc n)
  note down = deeper.notb_deeper [OF Suc] deeper.andb_deeper [OF Suc] deeper.orb_deeper [OF Suc] deeper.implies_deeper [OF Suc]
    deeper.disjoint_deeper [OF Suc] deeper.flat_deeper [OF Suc] deeper.resolve_deeper [OF Suc] deeper.given_deeper [OF Suc]
  show ?case by unfold_locales (simp_all only: calls_at_Suc down)
qed

interpretation step: deeper "calls_at n" "calls_at (Suc n)" for n
  by (rule deeper_step)

lemma below_trans: "below l m \<Longrightarrow> below m n \<Longrightarrow> below l n"
  by (simp add: below_def) metis

lemma deeper_runs:
  "below (c_notb (calls_at n) a) (c_notb (calls_at (n + k)) a)"
  "below (c_andb (calls_at n) a b) (c_andb (calls_at (n + k)) a b)"
  "below (c_orb (calls_at n) a b) (c_orb (calls_at (n + k)) a b)"
  "below (c_implies (calls_at n) a b) (c_implies (calls_at (n + k)) a b)"
  "below (c_disjoint (calls_at n) a b) (c_disjoint (calls_at (n + k)) a b)"
  "below (c_given (calls_at n) a b) (c_given (calls_at (n + k)) a b)"
  by (induction k) (auto intro: below_trans step.calls_below)

subsection \<open>Conjunctions of comparisons return\<close>

definition returns :: "'a act \<Rightarrow> bool" where
  "returns m \<longleftrightarrow> (\<forall>S. m S \<noteq> None)"

lemma returns_rules [intro!]:
  "returns (ret x)" "returns m \<Longrightarrow> (\<And>x. returns (k x)) \<Longrightarrow> returns (andThen m k)"
  "(\<And>S. returns (h S)) \<Longrightarrow> returns (with_state h)" "returns m \<Longrightarrow> returns (memoed look store key m)"
  "returns (contradictory_act ls)"
  by (auto simp: returns_def ret_def andThen_def with_state_def memoed_def contradictory_act_def split: option.splits prod.splits)
    (metis option.distinct(1))

lemma returns_if [intro!]: "(b \<Longrightarrow> returns m) \<Longrightarrow> (\<not> b \<Longrightarrow> returns n) \<Longrightarrow> returns (if b then m else n)"
  by simp

lemma returns_any: "(\<And>x. x \<in> set xs \<Longrightarrow> returns (h x)) \<Longrightarrow> returns (any_act h xs)"
  by (induction xs) auto

text \<open>A conjunction of comparisons.\<close>

definition comparisons :: "reading \<Rightarrow> expr \<Rightarrow> bool" where
  "comparisons R e \<longleftrightarrow> conjuncts e \<noteq> [] \<and> (\<forall>l \<in> set (conjuncts e). good R l \<and> sides l \<noteq> None)"

lemma comparisons_shape:
  assumes "comparisons R e"
  shows "binary OpOr e = None" and "\<not> isGuardSym S e"
proof -
  show "binary OpOr e = None"
  proof (rule ccontr)
    assume "binary OpOr e \<noteq> None"
    then obtain a b where "e = EOp (IntT 1) OpOr [a, b]" by (auto simp: binary_Some)
    then show False using assms by (simp add: comparisons_def)
  qed
  show "\<not> isGuardSym S e"
  proof
    assume "isGuardSym S e"
    then obtain t s where "e = ESym t s" by (cases e) (simp_all add: isGuardSym_def)
    then show False using assms by (simp add: comparisons_def isTrue_def)
  qed
qed

lemma comparisons_single: "good R (ECmp p a b) \<Longrightarrow> comparisons R (ECmp p a b)"
  by (simp add: comparisons_def isTrue_def)

lemma no_guards: "\<forall>l \<in> set ls. sides l \<noteq> None \<Longrightarrow> expandGuard S ls = None"
proof -
  assume ls: "\<forall>l \<in> set ls. sides l \<noteq> None"
  have "\<not> isGuardSym S l" if "sides l \<noteq> None" for l using that by (cases l) (simp_all add: isGuardSym_def)
  then have "filter (\<lambda>i. isGuardSym S (ls ! i)) [0..<length ls] = []" using ls by (auto simp: filter_empty_conv)
  then show ?thesis by (simp add: expandGuard_def)
qed

lemma notb_returns:
  assumes "good R l" and "sides l \<noteq> None"
  shows "returns (c_notb (calls_at (Suc n)) l)"
proof -
  obtain p a b where l: "l = ECmp p a b" using assms(2) by (auto simp: sides_Some)
  have "returns (cmp_act (inverse_pred p) a b)"
    using cmp_inverse_returns [of "r_v R" "r_n R" p a b] assms(1) unfolding l returns_def cmp_act_def
    by (auto split: prod.splits option.splits) (metis option.distinct(1) prod.inject)
  then show ?thesis unfolding calls_at_Suc notb_def notb_body_def l by auto
qed

lemma implies_lits_returns:
  assumes "\<forall>l \<in> set (la @ lb). good R l \<and> sides l \<noteq> None"
  shows "returns (implies_lits (calls_at (Suc n)) a b la lb)"
  using assms
proof (induction lb)
  case (Cons l lb)
  then have l: "good R l" "sides l \<noteq> None" by auto
  then have n: "\<not> isGuardSym S l" "negated l = None" for S by (cases l; simp add: isGuardSym_def)+
  have "returns (implies_lit (calls_at (Suc n)) a la l)"
    unfolding implies_lit_def using n notb_returns [OF l] by auto
  moreover have "expandGuard S la = None" for S using no_guards Cons.prems by auto
  ultimately show ?case using Cons by auto
qed auto

lemma implies_returns:
  assumes "comparisons R a" and "comparisons R b"
  shows "returns (c_implies (calls_at (Suc (Suc n))) a b)"
  unfolding calls_at_Suc implies_def impliesRaw_def
  using comparisons_shape [OF assms(1)] comparisons_shape [OF assms(2)] assms
  by (auto simp: comparisons_def intro!: implies_lits_returns)

lemma disjoint_returns:
  assumes "comparisons R a" and "comparisons R b"
  shows "returns (c_disjoint (calls_at (Suc (Suc n))) a b)"
proof -
  have "returns (excludes (calls_at (Suc n)) x y)" if "x \<in> set (conjuncts a)" for x y
    unfolding excludes_def using notb_returns that assms(1) by (auto simp: comparisons_def)
  moreover have "expandGuard S (conjuncts a) = None" "expandGuard S (conjuncts b) = None" for S
    using no_guards assms by (auto simp: comparisons_def)
  ultimately show ?thesis
    unfolding calls_at_Suc disjoint_def disjointRaw_def Let_def
    using comparisons_shape(1) [OF assms(1)] comparisons_shape(1) [OF assms(2)] by (auto intro!: returns_any)
qed

lemma conj_lits_returns:
  assumes "ls \<noteq> []" and "\<forall>l \<in> set ls. good R l"
  shows "returns (conj_lits t ls)"
proof -
  have "\<exists>l \<in> set (keep_lits sem ls). True" for sem
  proof (rule keep_witness)
    show "x = y \<or> strength x < strength y" if "x \<in> set ls" "y \<in> set ls" "litImplies sem x y" for x y
      using litImplies_strength [OF that(3)] assms(2) that by blast
  qed (use assms(1) in \<open>auto simp: ex_in_conv\<close>)
  then have "remdups_adj (sort_key k (keep_lits sem ls)) \<noteq> []" for k :: "expr \<Rightarrow> nat" and sem
    by (metis empty_iff empty_set remdups_adj_set set_sort)
  then show ?thesis by (auto simp: returns_def conj_lits_def chain_def split: option.splits list.splits)
qed

lemma andb_returns:
  assumes "comparisons R a" and "comparisons R b"
  shows "returns (c_andb (calls_at (Suc (Suc (Suc n)))) a b)"
proof -
  let ?ls = "conjuncts a @ conjuncts b"
  have "list_all (\<lambda>l. binary OpOr l = None) ?ls"
    using assms by (auto simp: comparisons_def list_all_iff sides_Some)
  moreover have "returns (conj_lits (type_of a) ?ls)"
    by (rule conj_lits_returns [of _ R]) (use assms in \<open>auto simp: comparisons_def\<close>)
  ultimately show ?thesis
    unfolding calls_at_Suc(2) [of "Suc (Suc n)"] andb_def andbRaw_def Let_def
    using implies_returns [OF assms] implies_returns [OF assms(2,1)] disjoint_returns [OF assms]
    by auto
qed


subsection \<open>A concrete state\<close>

instance sty :: countable by countable_datatype
instance opcode :: countable by countable_datatype
instance pred :: countable by countable_datatype
instance callee :: countable by countable_datatype
instance expr :: countable by countable_datatype

text \<open>The literals \<open>x > 0\<close>, \<open>x \<noteq> 1\<close> and \<open>x < 1\<close>.\<close>

definition lit_pos :: expr where "lit_pos = ECmp SGT (EPoly i32 [([0], 1)]) (EPoly i32 [])"
definition lit_ne :: expr where "lit_ne = ECmp NE (EPoly i32 [([], - 1), ([0], 1)]) (EPoly i32 [])"
definition lit_le :: expr where "lit_le = ECmp SLT (EPoly i32 [([], - 1), ([0], 1)]) (EPoly i32 [])"

definition demo_ident :: "expr \<Rightarrow> nat" where
  "demo_ident e = (if e = lit_pos then 0 else if e = lit_ne then 1 else if e = lit_le then 2 else 3 + to_nat e)"

definition demo_state :: bools where
  "demo_state = \<lparr>s_atoms = demo_arena, s_symbols = [], s_guardDefs = [], s_guardOf = \<lambda>_. None, s_notbMemo = \<lambda>_. None,
     s_andMemo = \<lambda>_. None, s_orMemo = \<lambda>_. None, s_givenMemo = \<lambda>_. None, s_impliesMemo = \<lambda>_. None,
     s_disjointMemo = \<lambda>_. None, s_orbDepth = 0, s_guardDepth = 0, s_semantic = False, s_ident = demo_ident\<rparr>"

definition demo_reading :: reading where
  "demo_reading = \<lparr>r_v = \<lambda>_. 4, r_f = \<lambda>_. 4, r_n = 1, r_ident = demo_ident\<rparr>"

lemma demo_ident_inj: "inj demo_ident"
  by (rule injI) (auto simp: demo_ident_def split: if_splits)

lemma demo_wf: "wf_state demo_reading demo_state"
  by (simp add: wf_state_def demo_reading_def demo_state_def demo_ident_inj wf_guards_def right_memos_def holds_right_def demo_arena_def)

lemma demo_good: "good demo_reading lit_pos" "good demo_reading lit_ne" "good demo_reading lit_le"
  by (simp_all add: lit_pos_def lit_ne_def lit_le_def demo_reading_def fit_terms_def scoped_terms_def in_range_def mval_def
    normal_terms_def split_const_def coef_gcd_def)

lemma demo_reads: "s_atoms S = demo_arena \<Longrightarrow> s_symbols S = [] \<Longrightarrow> reads demo_reading S"
  using demo_consistent by (simp add: reads_def demo_reading_def tame_arena_def demo_arena_def tame_atom_def)

declare cmp_poly.simps [code]

text \<open>What a run returned, with the parts of the state a reading is about.\<close>

definition seen :: "('a \<times> bools) option \<Rightarrow> ('a \<times> arena \<times> symbol list \<times> expr list) option" where
  "seen r = map_option (\<lambda>(x, S). (x, s_atoms S, s_symbols S, s_guardDefs S)) r"

lemma seen_Some: "seen r = Some (x, A, ss, ds) \<longleftrightarrow> (\<exists>S. r = Some (x, S) \<and> s_atoms S = A \<and> s_symbols S = ss \<and> s_guardDefs S = ds)"
  by (auto simp: seen_def)

definition demo_or :: expr where
  "demo_or = EOp (IntT 1) OpOr [lit_pos, lit_le]"

lemma demo_runs:
  "seen (c_notb (calls_at 1) lit_pos demo_state) = Some (lit_le, demo_arena, [], [])"
  "seen (c_andb (calls_at 4) lit_pos lit_ne demo_state) = Some (EOp (IntT 1) OpAnd [lit_pos, lit_ne], demo_arena, [], [])"
  "seen (c_disjoint (calls_at 3) lit_pos lit_le demo_state) = Some (True, demo_arena, [], [])"
  "seen (c_given (calls_at 4) lit_ne lit_pos demo_state) = Some (lit_ne, demo_arena, [], [])"
  "seen (factor_cond (calls_at 2) demo_or demo_state) = Some (ESym (IntT 1) 0, demo_arena, [Guard 0], [demo_or])"
  by code_simp+

lemma demo_orb: "seen (c_orb (calls_at 5) lit_pos lit_le demo_state) = Some (mkBool True, demo_arena, [], [])"
  by code_simp

lemma demo_factor_reads:
  "s_atoms S = demo_arena \<Longrightarrow> s_symbols S = [Guard 0] \<Longrightarrow> s_guardDefs S = [demo_or] \<Longrightarrow> reads demo_reading S"
  using demo_consistent
  by (simp add: reads_def demo_reading_def tame_arena_def demo_arena_def tame_atom_def demo_or_def truth.simps lit_pos_def
    mval_def)

subsection \<open>The properties\<close>

text \<open>C5: what \<open>notb\<close>, \<open>andb\<close> and \<open>orb\<close> return has the value of the connective, for every valuation in which
  no literal wraps and every guard has the value of its definition, and the tables stay right.\<close>

theorem connectives_right:
  assumes "wf_state R S" and "good R a" and "good R b" and "reads R S'"
  shows "(c_notb (calls_at n) a S = Some (r, S') \<longrightarrow> wf_state R S' \<and> good R r \<and> truth R r = (\<not> truth R a)) \<and>
    (c_andb (calls_at n) a b S = Some (r, S') \<longrightarrow> wf_state R S' \<and> good R r \<and> truth R r = (truth R a \<and> truth R b)) \<and>
    (c_orb (calls_at n) a b S = Some (r, S') \<longrightarrow> wf_state R S' \<and> good R r \<and> truth R r = (truth R a \<or> truth R b))"
  using knot.notb_ok [OF assms(2)] knot.andb_ok [OF assms(2,3)] knot.orb_ok [OF assms(2,3)] assms(1,4)
  unfolding sound_def right_defs by blast

theorem connectives_right_witness:
  "\<exists>S. c_andb (calls_at 4) lit_pos lit_ne demo_state = Some (EOp (IntT 1) OpAnd [lit_pos, lit_ne], S) \<and>
     truth demo_reading (EOp (IntT 1) OpAnd [lit_pos, lit_ne]) = (truth demo_reading lit_pos \<and> truth demo_reading lit_ne)"
proof -
  obtain S where run: "c_andb (calls_at 4) lit_pos lit_ne demo_state = Some (EOp (IntT 1) OpAnd [lit_pos, lit_ne], S)"
    and S: "s_atoms S = demo_arena" "s_symbols S = []" using demo_runs(2) unfolding seen_Some by blast
  show ?thesis using connectives_right [OF demo_wf demo_good(1,2) demo_reads [OF S]] run by blast
qed

text \<open>C6: where \<open>implies\<close> or \<open>disjoint\<close> says yes, the implication holds, or the conditions exclude each other;
  and a condition simplified under a context has its value wherever the context holds.\<close>

theorem verdicts_right:
  assumes "wf_state R S" and "good R a" and "good R b" and "reads R S'"
  shows "(c_implies (calls_at n) a b S = Some (True, S') \<longrightarrow> truth R a \<longrightarrow> truth R b) \<and>
    (c_disjoint (calls_at n) a b S = Some (True, S') \<longrightarrow> \<not> (truth R a \<and> truth R b)) \<and>
    (c_given (calls_at n) a b S = Some (r, S') \<longrightarrow> truth R b \<longrightarrow> truth R r = truth R a)"
  using knot.implies_ok [OF assms(2,3)] knot.disjoint_ok [OF assms(2,3)] knot.given_ok [OF assms(2,3)] assms(1,4)
  unfolding sound_def right_defs by blast

theorem verdicts_right_witness:
  "(\<exists>S. c_disjoint (calls_at 3) lit_pos lit_le demo_state = Some (True, S)) \<and>
   \<not> (truth demo_reading lit_pos \<and> truth demo_reading lit_le)"
proof -
  obtain S where run: "c_disjoint (calls_at 3) lit_pos lit_le demo_state = Some (True, S)"
    and S: "s_atoms S = demo_arena" "s_symbols S = []" using demo_runs(3) unfolding seen_Some by blast
  show ?thesis using verdicts_right [OF demo_wf demo_good(1,3) demo_reads [OF S]] run by blast
qed

text \<open>C21: \<open>factor\<close> keeps the value of the condition, for every valuation in which the guard it may add has the
  value of its definition.\<close>

theorem factor_right:
  assumes "wf_state R S" and "good R e" and "factor_cond (calls_at n) e S = Some (r, S')" and "reads R S'"
  shows "wf_state R S' \<and> good R r \<and> truth R r = truth R e"
  using knot.factor_sound [OF assms(2)] assms(1,3,4) unfolding sound_def by blast

theorem factor_right_witness:
  "\<exists>S. factor_cond (calls_at 2) demo_or demo_state = Some (ESym (IntT 1) 0, S) \<and> wf_state demo_reading S \<and>
     truth demo_reading (ESym (IntT 1) 0) = truth demo_reading demo_or"
proof -
  obtain S where run: "factor_cond (calls_at 2) demo_or demo_state = Some (ESym (IntT 1) 0, S)"
    and S: "s_atoms S = demo_arena" "s_symbols S = [Guard 0]" "s_guardDefs S = [demo_or]"
    using demo_runs(5) unfolding seen_Some by blast
  have "good demo_reading demo_or" using demo_good by (simp add: demo_or_def)
  from factor_right [OF demo_wf this run demo_factor_reads [OF S]] run show ?thesis by blast
qed

text \<open>C22: the conjunction of two conjunctions of comparisons returns, at any depth from three on and in any
  state; no guard is expanded.\<close>

theorem andb_comparisons:
  assumes "comparisons R a" and "comparisons R b" and "3 \<le> n"
  shows "\<exists>r S'. c_andb (calls_at n) a b S = Some (r, S')"
proof -
  obtain m where "n = Suc (Suc (Suc m))" using assms(3) by (metis One_nat_def add_2_eq_Suc le_Suc_ex numeral_3_eq_3 plus_nat.simps(2) add_0)
  then show ?thesis using andb_returns [OF assms(1,2), of m] by (auto simp: returns_def)
qed

theorem andb_comparisons_witness: "\<exists>r S'. c_andb (calls_at 7) lit_pos lit_le demo_state = Some (r, S')"
proof (rule andb_comparisons [of demo_reading])
  show "comparisons demo_reading lit_pos" "comparisons demo_reading lit_le"
    using demo_good comparisons_single unfolding lit_pos_def lit_le_def by blast+
qed simp

text \<open>The depth of the knot is no part of the result: two depths at which a call returns give the same
  condition and the same state.\<close>

lemma depth_irrelevant:
  assumes "f \<in> {\<lambda>c. c_andb c a b, \<lambda>c. c_orb c a b, \<lambda>c. c_notb c a, \<lambda>c. c_given c a b}"
    and "f (calls_at n) S = Some x" and "f (calls_at m) S = Some y"
  shows "x = y"
proof -
  have up: "f (calls_at (i + k)) S = Some z" if "f (calls_at i) S = Some z" for i k z
    using deeper_runs(1) [of i a k] deeper_runs(2,3,6) [of i a b k] assms(1) that unfolding below_def
    by auto (metis option.distinct(1))+
  show ?thesis using up [OF assms(2), of m] up [OF assms(3), of n] by (simp add: add.commute)
qed

theorem depth_irrelevant_witness:
  "\<exists>x y. c_orb (calls_at 5) lit_pos lit_le demo_state = Some x \<and> c_orb (calls_at 9) lit_pos lit_le demo_state = Some y \<and>
     x = y \<and> fst y = mkBool True"
proof -
  obtain S where five: "c_orb (calls_at 5) lit_pos lit_le demo_state = Some (mkBool True, S)"
    using demo_orb unfolding seen_Some by blast
  then obtain y where nine: "c_orb (calls_at 9) lit_pos lit_le demo_state = Some y"
    using deeper_runs(3) [of 5 lit_pos lit_le 4] by (auto simp: below_def) (metis option.distinct(1))
  have "(mkBool True, S) = y"
    by (rule depth_irrelevant [of "\<lambda>c. c_orb c lit_pos lit_le" lit_pos lit_le, OF _ five nine]) simp
  with five nine show ?thesis by auto
qed

text \<open>The tables of answers outlive the limit on nested guards: an implication refused at the limit is stored, and
  refused again outside, where it is found without the table.\<close>

definition weak_guard :: expr where
  "weak_guard = EOp (IntT 1) OpOr [ECmp SGT (EPoly i32 [([], - 1), ([0], 1)]) (EPoly i32 []),
     ECmp SGT (EPoly i32 [([], - 2), ([0], 1)]) (EPoly i32 [])]"

definition guarded_state :: bools where
  "guarded_state = demo_state\<lparr>s_symbols := [Guard 0], s_guardDefs := [weak_guard]\<rparr>"

lemma implies_remembers_limit:
  "map_option fst (c_implies (calls_at 4) (ESym (IntT 1) 0) lit_pos guarded_state) = Some True"
  "map_option (\<lambda>(r, S). (r, s_guardDepth S, map_option fst (c_implies (calls_at 4) (ESym (IntT 1) 0) lit_pos (S\<lparr>s_guardDepth := 0\<rparr>))))
     (c_implies (calls_at 4) (ESym (IntT 1) 0) lit_pos (guarded_state\<lparr>s_guardDepth := guard_limit\<rparr>)) = Some (False, guard_limit, Some False)"
  by code_simp+

end
