(* ===== verification/Narrow_Float.thy ===== *)
theory Narrow_Float
  imports Prelude "HOL-Library.Word"
begin

unbundle bit_operations_syntax

text \<open>
  The narrow floating-point formats of the device headers: \<open>float\<close> to FP8 (E4M3 and E5M2) and back
  (\<open>include/cuda_fp8.h\<close>) and \<open>float\<close> to bfloat16 under four roundings (\<open>include/cuda_bf16.h\<close>, the host
  branch). A \<open>float\<close> is its bit pattern, a \<open>32 word\<close>; the few float operations that the code uses on
  values (absolute value, a comparison, a product by a power of two, \<open>rintf\<close>) are written out on it.

  The lemmas show that the branch-free conversion to E4M3 is the reference conversion bit for bit on
  every pattern, that every FP8 value survives the way to \<open>float\<close> and back, and what the four roundings
  to bfloat16 do.
\<close>

type_synonym float32 = "32 word"

subsection \<open>To FP8\<close>

text \<open>The two formats' conversion: \<open>mbits\<close> bits of mantissa, the exponent's bias, the format and whether
  values out of range saturate.\<close>

definition round_up :: "32 word \<Rightarrow> 32 word \<Rightarrow> 32 word \<Rightarrow> bool" where
  "round_up rem half mant \<longleftrightarrow> half < rem \<or> rem = half \<and> mant AND 1 \<noteq> 0"

definition f2fp8_subnormal :: "8 word \<Rightarrow> 32 word \<Rightarrow> nat \<Rightarrow> int \<Rightarrow> 8 word" where
  "f2fp8_subnormal sign m mbits fe =
     (let shift = 23 - int mbits + (1 - fe) in
      if 31 < shift then sign
      else
        let rem = m AND (push_bit (nat shift) 1 - 1);
            half = push_bit (nat shift - 1) 1;
            mant = drop_bit (nat shift) m;
            mant = (if round_up rem half mant then mant + 1 else mant);
            (fe, mant) = (if drop_bit mbits mant \<noteq> 0 then (1, mant AND (push_bit mbits 1 - 1)) else (0 :: int, mant))
        in ucast (ucast sign OR push_bit mbits (word_of_int fe) OR mant :: 32 word))"

definition f2fp8_normal :: "8 word \<Rightarrow> 32 word \<Rightarrow> nat \<Rightarrow> int \<Rightarrow> bool \<Rightarrow> bool \<Rightarrow> 8 word" where
  "f2fp8_normal sign m mbits fe e5m2 sat =
     (let shift = 23 - mbits;
          rem = m AND (push_bit shift 1 - 1);
          half = push_bit (shift - 1) 1;
          mant = drop_bit shift m AND (push_bit mbits 1 - 1);
          (fe, mant) = (if round_up rem half mant
                        then (if drop_bit mbits (mant + 1) \<noteq> 0 then (fe + 1, 0) else (fe, mant + 1))
                        else (fe, mant))
      in if e5m2 then
           (if 31 \<le> fe then (if sat then sign OR 0x7b else sign OR 0x7c)
            else ucast (ucast sign OR push_bit 2 (word_of_int fe) OR mant :: 32 word))
         else if 15 < fe \<or> fe = 15 \<and> mant = 7 then (if sat then sign OR 0x7e else sign OR 0x7f)
         else ucast (ucast sign OR push_bit 3 (word_of_int fe) OR mant :: 32 word))"

definition f2fp8 :: "float32 \<Rightarrow> nat \<Rightarrow> int \<Rightarrow> bool \<Rightarrow> bool \<Rightarrow> 8 word" where
  "f2fp8 u mbits bias e5m2 sat =
     (let sign = ucast (push_bit 7 (drop_bit 31 u)) :: 8 word;
          ex = drop_bit 23 u AND 0xff;
          man = u AND 0x7fffff
      in if ex = 0xff then
           (if man \<noteq> 0 then sign OR 0x7f
            else if e5m2 then (if sat then sign OR 0x7b else sign OR 0x7c)
            else if sat then sign OR 0x7e else sign OR 0x7f)
         else if ex = 0 \<and> man = 0 then sign
         else
           let e = uint ex - 127; m = man OR 0x800000 in
           if ex = 0 then sign
           else
             let fe = e + bias in
             if fe \<le> 0 then f2fp8_subnormal sign m mbits fe
             else f2fp8_normal sign m mbits fe e5m2 sat)"

subsection \<open>The branch-free conversion to E4M3\<close>

text \<open>A comparison of two non-negative floats: false on a NaN.\<close>

definition is_nan :: "float32 \<Rightarrow> bool" where
  "is_nan u \<longleftrightarrow> 0x7f800000 < u AND 0x7fffffff"

definition float_greater :: "float32 \<Rightarrow> float32 \<Rightarrow> bool" where
  "float_greater a b \<longleftrightarrow> \<not> is_nan a \<and> \<not> is_nan b \<and> b < a"

text \<open>\<open>rintf(a * 512.f)\<close> of a non-negative float up to 448: the product is exact, rounding is to the
  nearest integer, ties to even.\<close>

definition div_even :: "nat \<Rightarrow> nat \<Rightarrow> nat" where
  "div_even m s =
     (let q = m div 2 ^ s; r = m mod 2 ^ s in if 2 ^ s < 2 * r \<or> 2 ^ s = 2 * r \<and> odd q then q + 1 else q)"

definition rint_scaled :: "float32 \<Rightarrow> nat" where
  "rint_scaled a =
     (let E = unat (drop_bit 23 a); M = unat (a AND 0x7fffff) in
      if E = 0 then div_even M 140
      else if E \<le> 141 then div_even (M + 2 ^ 23) (141 - E) else (M + 2 ^ 23) * 2 ^ (E - 141))"

definition f2e4m3_sat :: "float32 \<Rightarrow> 8 word" where
  "f2e4m3_sat u =
     (let sign = ucast (push_bit 7 (drop_bit 31 u)) :: 8 word;
          nan = (0x7f800000 < u AND 0x7fffffff);
          a = u AND 0x7fffffff;
          a = (if float_greater a 0x43e00000 then 0x43e00000 else a);
          rn = a + 0x7ffff + (drop_bit 20 a AND 1);
          normal = (drop_bit 20 rn - push_bit 3 120) AND 0x7f;
          sub = word_of_nat (rint_scaled a) :: 32 word;
          code = (if 0x3c800000 \<le> a then normal else sub)
      in ucast (ucast sign OR (if nan then 0x7f else code) :: 32 word))"

subsection \<open>From FP8\<close>

text \<open>The float \<open>m * 2^sc\<close> of a small positive integer: both factors and the product are exact.\<close>

fun top_bit :: "nat \<Rightarrow> nat" where
  "top_bit m = (if m < 2 then 0 else top_bit (m div 2) + 1)"

declare top_bit.simps [simp del]

definition float_scaled :: "nat \<Rightarrow> int \<Rightarrow> float32" where
  "float_scaled m sc =
     (let n = top_bit m in
      push_bit 23 (word_of_int (int n + sc + 127)) OR word_of_nat ((m - 2 ^ n) * 2 ^ (23 - n)))"

definition fp82f :: "8 word \<Rightarrow> bool \<Rightarrow> float32" where
  "fp82f v e5m2 =
     (let sign = push_bit 24 (ucast (v AND 0x80)) :: float32;
          (e, m) = (if e5m2 then (drop_bit 2 v AND 0x1f, v AND 3) else (drop_bit 3 v AND 0xf, v AND 7));
          mbits = (if e5m2 then 2 else 3 :: nat);
          bias = (if e5m2 then 15 else 7 :: int)
      in if e5m2 \<and> e = 0x1f then sign OR 0x7f800000 OR (if m \<noteq> 0 then push_bit 21 (ucast m) else 0)
         else if \<not> e5m2 \<and> e = 0xf \<and> m = 7 then sign OR 0x7fc00000
         else if e = 0 then
           (if m = 0 then sign else float_scaled (unat m) (1 - bias - int mbits) OR sign)
         else sign OR push_bit 23 (word_of_int (uint e - bias + 127)) OR push_bit (23 - mbits) (ucast m))"

subsection \<open>Conversions of several values\<close>

definition nv_cvt_float_to_fp8 :: "float32 \<Rightarrow> bool \<Rightarrow> bool \<Rightarrow> 8 word" where
  "nv_cvt_float_to_fp8 x satfinite e4m3 =
     (if e4m3 \<and> satfinite then f2e4m3_sat x
      else if e4m3 then f2fp8 x 3 7 False satfinite else f2fp8 x 2 15 True satfinite)"

definition nv_cvt_float2_to_fp8x2 :: "float32 \<times> float32 \<Rightarrow> bool \<Rightarrow> bool \<Rightarrow> 16 word" where
  "nv_cvt_float2_to_fp8x2 x satfinite e4m3 =
     ucast (nv_cvt_float_to_fp8 (fst x) satfinite e4m3) OR push_bit 8 (ucast (nv_cvt_float_to_fp8 (snd x) satfinite e4m3))"

text \<open>The classes \<open>__nv_fp8x2_e4m3\<close>, \<open>__nv_fp8x2_e5m2\<close> and \<open>__nv_fp8x4_e4m3\<close>.\<close>

definition fp8x2_to_float2 :: "bool \<Rightarrow> 16 word \<Rightarrow> float32 \<times> float32" where
  "fp8x2_to_float2 e5m2 x = (fp82f (ucast x) e5m2, fp82f (ucast (drop_bit 8 x)) e5m2)"

definition float4_to_fp8x4 :: "float32 \<times> float32 \<times> float32 \<times> float32 \<Rightarrow> 32 word" where
  "float4_to_fp8x4 f =
     (case f of (x, y, z, w) \<Rightarrow>
        ucast (nv_cvt_float2_to_fp8x2 (x, y) True True) OR push_bit 16 (ucast (nv_cvt_float2_to_fp8x2 (z, w) True True)))"

definition fp8x4_to_float4 :: "32 word \<Rightarrow> float32 \<times> float32 \<times> float32 \<times> float32" where
  "fp8x4_to_float4 x =
     (fp82f (ucast x) False, fp82f (ucast (drop_bit 8 x)) False, fp82f (ucast (drop_bit 16 x)) False, fp82f (ucast (drop_bit 24 x)) False)"

subsection \<open>To bfloat16\<close>

definition bf_special :: "float32 \<Rightarrow> bool" where
  "bf_special u \<longleftrightarrow> u AND 0x7f800000 = 0x7f800000"

definition f2bf_rn :: "float32 \<Rightarrow> 16 word" where
  "f2bf_rn u =
     (if bf_special u \<and> u AND 0x007fffff \<noteq> 0 then ucast (drop_bit 16 u OR 0x40)
      else let lsb = drop_bit 16 u AND 1 in ucast (drop_bit 16 (u + (0x7fff + lsb))))"

definition bf2f :: "16 word \<Rightarrow> float32" where
  "bf2f b = push_bit 16 (ucast b)"

definition f2bf_rz :: "float32 \<Rightarrow> 16 word" where
  "f2bf_rz u =
     (if bf_special u \<and> u AND 0x007fffff \<noteq> 0 then ucast (drop_bit 16 u OR 0x40) else ucast (drop_bit 16 u))"

definition f2bf_rd :: "float32 \<Rightarrow> 16 word" where
  "f2bf_rd u =
     (if bf_special u then f2bf_rz u
      else let t = ucast (drop_bit 16 u) in if u AND 0xffff \<noteq> 0 \<and> u AND 0x80000000 \<noteq> 0 then t + 1 else t)"

definition f2bf_ru :: "float32 \<Rightarrow> 16 word" where
  "f2bf_ru u =
     (if bf_special u then f2bf_rz u
      else let t = ucast (drop_bit 16 u) in if u AND 0xffff \<noteq> 0 \<and> \<not> u AND 0x80000000 \<noteq> 0 then t + 1 else t)"

subsection \<open>Bits as numbers\<close>

lemma unat_take: "unat (take_bit n x) = unat x mod 2 ^ n" for x :: "'a::len word"
  unfolding unsigned_take_bit_eq by (simp add: take_bit_eq_mod)

lemma unat_drop: "unat (drop_bit n x) = unat x div 2 ^ n" for x :: "'a::len word"
  unfolding unsigned_drop_bit_eq by (simp add: drop_bit_eq_div take_bit_nat_eq_self)

lemma unat_mask: "unat (x AND (push_bit n 1 - 1)) = unat x mod 2 ^ n" for x :: "32 word"
proof -
  have "push_bit n 1 - 1 = (mask n :: 32 word)" by (simp add: mask_eq_exp_minus_1 push_bit_eq_mult)
  then have "x AND (push_bit n 1 - 1) = take_bit n x" by (simp add: take_bit_eq_mask)
  then show ?thesis by (simp only: unat_take)
qed

lemma unat_fields:
  fixes u :: "32 word"
  shows "unat (u AND 0x7fffff) = unat u mod 2 ^ 23" "unat (drop_bit 23 u AND 0xff) = unat u div 2 ^ 23 mod 256"
    "unat (u AND 0x7fffffff) = unat u mod 2 ^ 31" "unat (u AND 1) = unat u mod 2" "unat (u AND 7) = unat u mod 8"
    "unat (u AND 0x7f) = unat u mod 128" "unat (u AND 3) = unat u mod 4"
proof -
  have m: "push_bit 23 1 - 1 = (0x7fffff :: 32 word)" "push_bit 8 1 - 1 = (0xff :: 32 word)"
    "push_bit 31 1 - 1 = (0x7fffffff :: 32 word)" "push_bit 1 1 - 1 = (1 :: 32 word)" "push_bit 3 1 - 1 = (7 :: 32 word)"
    "push_bit 7 1 - 1 = (0x7f :: 32 word)" "push_bit 2 1 - 1 = (3 :: 32 word)"
    by (simp_all add: push_bit_eq_mult)
  note f = unat_mask [of _ 23, unfolded m] unat_mask [of _ 8, unfolded m] unat_mask [of _ 31, unfolded m] unat_mask [of _ 1, unfolded m]
    unat_mask [of _ 3, unfolded m] unat_mask [of _ 7, unfolded m] unat_mask [of _ 2, unfolded m]
  show "unat (u AND 0x7fffff) = unat u mod 2 ^ 23" "unat (drop_bit 23 u AND 0xff) = unat u div 2 ^ 23 mod 256"
    "unat (u AND 0x7fffffff) = unat u mod 2 ^ 31" "unat (u AND 1) = unat u mod 2" "unat (u AND 7) = unat u mod 8"
    "unat (u AND 0x7f) = unat u mod 128" "unat (u AND 3) = unat u mod 4"
    unfolding f unat_drop by simp_all
qed

lemma or_add:
  fixes x y :: "'a::len word"
  assumes "unat y < 2 ^ n" and "n < LENGTH('a)"
  shows "push_bit n x OR y = push_bit n x + y"
proof (rule disjunctive_add_eq_or [symmetric])
  have y: "take_bit n y = y" using assms(1) by (simp add: word_unat_eq_iff unat_take)
  have "push_bit n x AND take_bit n y = 0" by (rule bit_eqI) (auto simp: bit_simps)
  then show "push_bit n x AND y = 0" by (simp add: y)
qed

lemma ucast_back: "ucast (ucast s OR y :: 32 word) = s OR (ucast y :: 8 word)" for s :: "8 word"
  by (rule bit_eqI) (auto simp: bit_simps)

lemma ucast_nat: "(ucast (word_of_nat n :: 32 word) :: 8 word) = word_of_nat n"
  by (rule bit_eqI) (auto simp: bit_simps)

lemma pack:
  assumes "0 \<le> fe" and "unat mant < 2 ^ k" and "k < 32"
  shows "ucast (ucast s OR push_bit k (word_of_int fe) OR mant :: 32 word) = s OR (word_of_nat (nat fe * 2 ^ k + unat mant) :: 8 word)"
proof -
  have "push_bit k (word_of_int fe) OR mant = push_bit k (word_of_int fe) + mant" using assms(2,3) by (intro or_add) simp_all
  also have "\<dots> = word_of_nat (nat fe * 2 ^ k + unat mant)"
    using assms(1) by (simp add: push_bit_eq_mult)
  finally have e: "push_bit k (word_of_int fe) OR mant = word_of_nat (nat fe * 2 ^ k + unat mant)" .
  show ?thesis unfolding or.assoc e ucast_back ucast_nat ..
qed

definition sign_of :: "float32 \<Rightarrow> 8 word" where
  "sign_of u = ucast (push_bit 7 (drop_bit 31 u))"

definition magnitude :: "nat \<Rightarrow> int \<Rightarrow> bool \<Rightarrow> bool \<Rightarrow> nat \<Rightarrow> nat \<Rightarrow> nat" where
  "magnitude mbits bias e5m2 sat E M =
     (let top = (if e5m2 then 124 else 127); over = (if sat then top - 1 else top) in
      if E = 255 then (if M \<noteq> 0 then 127 else over)
      else if E = 0 then 0
      else
        let fe = int E - 127 + bias in
        if fe \<le> 0 then
          let s = 23 - int mbits + (1 - fe) in if 31 < s then 0 else div_even (M + 2 ^ 23) (nat s)
        else
          let c = nat fe * 2 ^ mbits + div_even M (23 - mbits) in if top \<le> c then over else c)"

lemma div_even_le:
  assumes "m < 2 ^ (s + k)"
  shows "div_even m s \<le> 2 ^ k"
proof -
  have "m div 2 ^ s < 2 ^ k" using assms by (simp add: less_mult_imp_div_less power_add mult.commute)
  then show ?thesis by (simp add: div_even_def Let_def)
qed

lemma odd_and_one: "x AND 1 \<noteq> 0 \<longleftrightarrow> odd (unat x)" for x :: "32 word"
  unfolding word_unat_eq_iff unat_fields by (simp add: odd_iff_mod_2_eq_one)

lemma round_up_nat:
  assumes "0 < s" and "s < 32" and "unat m = n"
  shows "round_up (m AND (push_bit s 1 - 1)) (push_bit (s - 1) 1) mant \<longleftrightarrow>
    (2 ^ s < 2 * (n mod 2 ^ s) \<or> 2 ^ s = 2 * (n mod 2 ^ s) \<and> odd (unat mant))"
proof -
  have s: "(2 :: nat) ^ s = 2 * 2 ^ (s - 1)" using assms(1) by (cases s) simp_all
  have "unat (push_bit (s - 1) 1 :: 32 word) = 2 ^ (s - 1)"
    using assms(2) power_strict_increasing [of "s - 1" 32 "2 :: nat"] unfolding unsigned_push_bit_eq
    by (simp add: push_bit_eq_mult take_bit_nat_eq_self)
  then show ?thesis
    unfolding round_up_def odd_and_one unfolding word_less_nat_alt word_unat_eq_iff unat_mask assms(3) s by auto
qed

lemma subnormal_mag:
  assumes "unat m < 2 ^ 24" and "fe \<le> 0" and "0 < mbits" and "mbits \<le> 20"
  shows "f2fp8_subnormal sg m mbits fe = sg OR
    word_of_nat (let s = 23 - int mbits + (1 - fe) in if 31 < s then 0 else div_even (unat m) (nat s))"
proof (cases "31 < 23 - int mbits + (1 - fe)")
  case False
  define s where "s = nat (23 - int mbits + (1 - fe))"
  have s: "0 < s" "s < 32" "23 - int mbits + (1 - fe) = int s" "24 \<le> s + mbits"
    using False assms(2,4) by (auto simp: s_def)
  define mant where "mant = (if round_up (m AND (push_bit s 1 - 1)) (push_bit (s - 1) 1) (drop_bit s m)
    then drop_bit s m + 1 else drop_bit s m)"
  have lt: "unat m < 2 ^ (s + mbits)" using assms(1) power_increasing [OF s(4), of "2 :: nat"] by linarith
  have small: "unat m div 2 ^ s < 2 ^ mbits" using lt by (simp add: less_mult_imp_div_less power_add mult.commute)
  have mb: "(2 :: nat) ^ mbits \<le> 2 ^ 20" using assms(4) by (intro power_increasing) simp_all
  have mant: "unat mant = div_even (unat m) s"
    using round_up_nat [OF s(1,2), of m] small mb
    by (simp add: mant_def div_even_def Let_def unat_drop unat_word_ariths)
  have le: "unat mant \<le> 2 ^ mbits" unfolding mant using lt by (rule div_even_le)
  have d: "drop_bit mbits mant \<noteq> 0 \<longleftrightarrow> unat mant = 2 ^ mbits"
    using le by (simp add: word_unat_eq_iff unat_drop div_eq_0_iff)
  have run: "f2fp8_subnormal sg m mbits fe =
      (let (f, mt) = (if drop_bit mbits mant \<noteq> 0 then (1, mant AND (push_bit mbits 1 - 1)) else (0 :: int, mant))
       in ucast (ucast sg OR push_bit mbits (word_of_int f) OR mt :: 32 word))"
    unfolding f2fp8_subnormal_def Let_def s(3) nat_int mant_def [symmetric] using s(2) by simp
  show ?thesis
  proof (cases "unat mant = 2 ^ mbits")
    case True
    then have "unat (mant AND (push_bit mbits 1 - 1)) = 0" unfolding unat_mask by simp
    then show ?thesis using True d mant pack [of 1 "mant AND (push_bit mbits 1 - 1)" mbits sg] assms(4) s(3) False
      unfolding run by (simp add: Let_def)
  next
    case no: False
    then show ?thesis using d mant pack [of 0 mant mbits sg] assms(4) le s(3) False
      unfolding run by (simp add: Let_def)
  qed
qed (simp add: f2fp8_subnormal_def Let_def)

lemma normal_mag:
  assumes "unat m = M + 2 ^ 23" and "M < 2 ^ 23" and "0 < fe" and "mbits = (if e5m2 then 2 else 3)"
  shows "f2fp8_normal sg m mbits fe e5m2 sat = sg OR
    word_of_nat (let top = (if e5m2 then 124 else 127); over = (if sat then top - 1 else top); c = nat fe * 2 ^ mbits + div_even M (23 - mbits)
       in if top \<le> c then over else c)"
proof -
  define s where "s = 23 - mbits"
  have s: "0 < s" "s < 32" "s + mbits = 23" "mbits < 32" "0 < mbits" using assms(4) by (auto simp: s_def)
  have p: "(2 :: nat) ^ 23 = 2 ^ mbits * 2 ^ s" using s(3) by (metis power_add add.commute)
  define mant0 where "mant0 = drop_bit s m AND (push_bit mbits 1 - 1)"
  have q: "M div 2 ^ s < 2 ^ mbits" using assms(2) p by (simp add: less_mult_imp_div_less)
  have m0: "unat mant0 = M div 2 ^ s"
    unfolding mant0_def unat_mask unat_drop assms(1) p using q by simp
  have rem: "unat m mod 2 ^ s = M mod 2 ^ s" unfolding assms(1) p by simp
  define up where "up = round_up (m AND (push_bit s 1 - 1)) (push_bit (s - 1) 1) mant0"
  have up: "up \<longleftrightarrow> 2 ^ s < 2 * (M mod 2 ^ s) \<or> 2 ^ s = 2 * (M mod 2 ^ s) \<and> odd (M div 2 ^ s)"
    unfolding up_def round_up_nat [OF s(1,2) refl] rem m0 ..
  have dv: "div_even M s = M div 2 ^ s + (if up then 1 else 0)" by (simp add: div_even_def Let_def up)
  have mb8: "(2 :: nat) ^ mbits \<le> 8" using assms(4) by simp
  have succ: "unat (mant0 + 1) = M div 2 ^ s + 1" using q mb8 m0 by (simp add: unat_word_ariths)
  have carry: "drop_bit mbits (mant0 + 1) \<noteq> 0 \<longleftrightarrow> M div 2 ^ s + 1 = 2 ^ mbits"
    using q by (simp add: word_unat_eq_iff unat_drop succ div_eq_0_iff del: drop_bit_eq_div) linarith
  obtain f mt where fm: "(if up then (if drop_bit mbits (mant0 + 1) \<noteq> 0 then (fe + 1, 0) else (fe, mant0 + 1)) else (fe, mant0)) = (f, mt)"
    by fastforce
  have c: "0 < f" "unat mt < 2 ^ mbits" "nat f * 2 ^ mbits + unat mt = nat fe * 2 ^ mbits + div_even M s"
    using fm assms(3) q carry succ m0 unfolding dv
    by (auto simp: nat_add_distrib algebra_simps split: if_splits)
  have run: "f2fp8_normal sg m mbits fe e5m2 sat =
      (if e5m2 then
         (if 31 \<le> f then (if sat then sg OR 0x7b else sg OR 0x7c)
          else ucast (ucast sg OR push_bit 2 (word_of_int f) OR mt :: 32 word))
       else if 15 < f \<or> f = 15 \<and> mt = 7 then (if sat then sg OR 0x7e else sg OR 0x7f)
       else ucast (ucast sg OR push_bit 3 (word_of_int f) OR mt :: 32 word))"
    using fm unfolding f2fp8_normal_def Let_def s_def [symmetric] mant0_def [symmetric] up_def [symmetric] by simp
  show ?thesis
  proof (cases e5m2)
    case True
    then have "31 \<le> f \<longleftrightarrow> 124 \<le> nat f * 2 ^ mbits + unat mt" using c(1,2) assms(4) by auto
    then show ?thesis using True pack [of f mt 2 sg] c assms(4) unfolding run s_def [symmetric] c(3) [symmetric]
      by (simp add: Let_def)
  next
    case False
    then have "15 < f \<or> f = 15 \<and> mt = 7 \<longleftrightarrow> 127 \<le> nat f * 2 ^ mbits + unat mt"
      using c(1,2) assms(4) by (auto simp: word_unat_eq_iff)
    then show ?thesis using False pack [of f mt 3 sg] c assms(4) unfolding run s_def [symmetric] c(3) [symmetric]
      by (simp add: Let_def)
  qed
qed

text \<open>The conversion is the sign and the rounded magnitude.\<close>

lemma f2fp8_mag:
  assumes "mbits = (if e5m2 then 2 else 3)"
  shows "f2fp8 u mbits bias e5m2 sat = sign_of u OR
    word_of_nat (magnitude mbits bias e5m2 sat (unat u div 2 ^ 23 mod 256) (unat u mod 2 ^ 23))"
proof -
  define E where "E = unat u div 2 ^ 23 mod 256"
  define M where "M = unat u mod 2 ^ 23"
  have ex: "unat (drop_bit 23 u AND 0xff) = E" and man: "unat (u AND 0x7fffff) = M" by (simp_all only: unat_fields E_def M_def)
  have M: "M < 2 ^ 23" by (simp add: M_def)
  have z: "(drop_bit 23 u AND 0xff = 0xff) = (E = 255)" "(drop_bit 23 u AND 0xff = 0) = (E = 0)" "(u AND 0x7fffff = 0) = (M = 0)"
    unfolding word_unat_eq_iff ex man by simp_all
  have "0x800000 OR (u AND 0x7fffff) = push_bit 23 1 + (u AND 0x7fffff)"
    using or_add [of "u AND 0x7fffff" 23 1] M man by (simp add: push_bit_eq_mult)
  then have m: "unat ((u AND 0x7fffff) OR 0x800000) = M + 2 ^ 23"
    using M man by (simp add: or.commute unat_word_ariths push_bit_eq_mult)
  have ui: "uint (drop_bit 23 u AND 0xff) = int E" by (simp only: ex uint_nat [symmetric] flip: ex) 
  show ?thesis
    unfolding f2fp8_def Let_def sign_of_def [symmetric] ui z E_def [symmetric] M_def [symmetric]
    using subnormal_mag [of "(u AND 0x7fffff) OR 0x800000" "int E - 127 + bias" mbits "sign_of u"]
      normal_mag [OF m M _ assms, of "int E - 127 + bias" "sign_of u" sat] m M assms
    by (auto simp: magnitude_def Let_def)
qed

lemma div_even_small: "2 * m < 2 ^ s \<Longrightarrow> div_even m s = 0"
  by (simp add: div_even_def Let_def)

lemma div_even_add: "even k \<Longrightarrow> div_even (k * 2 ^ s + m) s = k + div_even m s"
  by (auto simp: div_even_def Let_def)

lemma div_even_bound: "m \<le> k * 2 ^ s \<Longrightarrow> div_even m s \<le> k"
proof -
  assume m: "m \<le> k * 2 ^ s"
  have le: "m div 2 ^ s \<le> k" using div_le_mono [OF m, of "2 ^ s"] by simp
  show ?thesis
  proof (cases "m div 2 ^ s = k")
    case True
    then have "m mod 2 ^ s = 0" using m div_mult_mod_eq [of m "2 ^ s"] by simp
    then show ?thesis using True by (simp add: div_even_def Let_def)
  qed (use le in \<open>simp add: div_even_def Let_def\<close>)
qed

lemma div_even_lower: "k * 2 ^ s \<le> m \<Longrightarrow> k \<le> div_even m s"
  using div_le_mono [of "k * 2 ^ s" m "2 ^ s"] by (auto simp: div_even_def Let_def)

text \<open>Adding half a unit less one, and the last bit kept, rounds to nearest even.\<close>

lemma add_half_rounds: "(a + (2 ^ 19 - 1) + a div 2 ^ 20 mod 2) div 2 ^ 20 = div_even a 20" for a :: nat
proof -
  define q r where "q = a div 2 ^ 20" and "r = a mod 2 ^ 20"
  have a: "a = q * 2 ^ 20 + r" "r < 2 ^ 20" by (simp_all add: q_def r_def)
  have "(a + (2 ^ 19 - 1) + q mod 2) div 2 ^ 20 = q + (r + (2 ^ 19 - 1) + q mod 2) div 2 ^ 20"
    unfolding a(1) using div_mult_self3 [of "2 ^ 20" q "r + (2 ^ 19 - 1) + q mod 2"] by (simp add: algebra_simps)
  also have "(r + (2 ^ 19 - 1) + q mod 2) div 2 ^ 20 = (if 2 ^ 20 < 2 * r \<or> 2 ^ 20 = 2 * r \<and> odd q then 1 else 0)"
    using a(2) by (cases "even q") (auto simp: odd_iff_mod_2_eq_one div_if)
  finally show ?thesis by (simp add: div_even_def q_def r_def Let_def)
qed

lemma e4m3_magnitude:
  fixes E M :: nat
  assumes "M < 2 ^ 23" and "E < 256" and "a = E * 2 ^ 23 + M" and "b = min a 1138753536"
  shows "magnitude 3 7 False True E M =
    (if 2139095040 < a then 127 else if 1015021568 \<le> b then div_even b 20 - 960
     else if E = 0 then 0 else div_even (M + 2 ^ 23) (141 - E))"
proof -
  have split: "div_even a 20 = E * 8 + div_even M 20"
    using div_even_add [of "E * 8" 20 M] by (simp add: assms(3) ac_simps)
  have nan: "2139095040 < a \<longleftrightarrow> E = 255 \<and> M \<noteq> 0" using assms(1,2) unfolding assms(3) by auto
  have sub: "1015021568 \<le> b \<longleftrightarrow> 121 \<le> E" using assms(1) unfolding assms(3,4) by auto
  show ?thesis
  proof (cases "2139095040 < a \<or> E = 255")
    case True
    then have E: "E = 255" using nan by blast
    show ?thesis
    proof (cases "M = 0")
      case True
      have "div_even 1138753536 20 = 1086" by (simp add: div_even_def Let_def)
      then show ?thesis using True E assms(3,4) by (simp add: magnitude_def)
    qed (use E nan in \<open>simp add: magnitude_def\<close>)
  next
    case E: False
    show ?thesis
    proof (cases "121 \<le> E")
      case True
      define c where "c = (E - 120) * 8 + div_even M 20"
      have c: "c = div_even a 20 - 960" using True split by (simp add: c_def)
      have mag: "magnitude 3 7 False True E M = (if 127 \<le> c then 126 else c)"
        using True E by (auto simp: magnitude_def Let_def c_def nat_diff_distrib)
      show ?thesis
      proof (cases "a \<le> 1138753536")
        case True': True
        have "c \<le> 126" unfolding c using div_even_bound [of a 1086 20] True' by simp
        then show ?thesis using True' True sub nan E unfolding mag by (simp add: c assms(4))
      next
        case False
        have "1086 \<le> div_even a 20" using False by (intro div_even_lower) simp
        then have "126 \<le> c" unfolding c by simp
        moreover have "div_even 1138753536 20 = 1086" by (simp add: div_even_def Let_def)
        ultimately show ?thesis using False True sub nan E unfolding mag by (simp add: assms(4))
      qed
    next
      case False
      have "div_even (M + 2 ^ 23) (141 - E) = 0" if "E < 110"
      proof -
        have "(2 :: nat) ^ 32 \<le> 2 ^ (141 - E)" using that by (intro power_increasing) simp_all
        then show ?thesis using assms(1) by (intro div_even_small) simp
      qed
      then show ?thesis using False E sub nan by (auto simp: magnitude_def Let_def nat_diff_distrib)
    qed
  qed
qed

lemma f2e4m3_mag:
  "f2e4m3_sat u = sign_of u OR word_of_nat (magnitude 3 7 False True (unat u div 2 ^ 23 mod 256) (unat u mod 2 ^ 23))"
proof -
  define E where "E = unat u div 2 ^ 23 mod 256"
  define M where "M = unat u mod 2 ^ 23"
  define a where "a = unat u mod 2 ^ 31"
  define x where "x = u AND 0x7fffffff"
  define y where "y = (if float_greater x 0x43e00000 then 0x43e00000 else x)"
  have x: "unat x = a" by (simp only: x_def a_def unat_fields)
  have M: "M < 2 ^ 23" "E < 256" by (simp_all add: M_def E_def)
  have a: "a = E * 2 ^ 23 + M"
  proof -
    have "unat u mod (2 ^ 23 * 2 ^ 8) = 2 ^ 23 * (unat u div 2 ^ 23 mod 2 ^ 8) + unat u mod 2 ^ 23" by (rule mod_mult2_eq)
    then show ?thesis by (simp add: a_def E_def M_def)
  qed
  have nan: "0x7f800000 < x \<longleftrightarrow> 2139095040 < a" by (simp add: word_less_nat_alt x)
  have xx: "x AND 0x7fffffff = x" by (simp add: x_def and.assoc)
  have y: "unat y = min a 1138753536" if "\<not> 2139095040 < a"
    using that nan by (auto simp: y_def float_greater_def is_nan_def xx word_less_nat_alt x min_def)
  define code where "code = (if 0x3c800000 \<le> y then (drop_bit 20 (y + 0x7ffff + (drop_bit 20 y AND 1)) - push_bit 3 120) AND 0x7f
      else word_of_nat (rint_scaled y) :: 32 word)"
  have run: "f2e4m3_sat u = sign_of u OR ucast (if 2139095040 < a then 0x7f else code)"
    unfolding f2e4m3_sat_def Let_def sign_of_def [symmetric] x_def [symmetric] y_def [symmetric] nan code_def [symmetric] ucast_back ..
  show ?thesis
  proof (cases "2139095040 < a")
    case True
    then show ?thesis unfolding run e4m3_magnitude [OF M a refl, folded E_def M_def] E_def [symmetric] M_def [symmetric] by simp
  next
    case False
    define b where "b = min a 1138753536"
    note yb = y [OF False, folded b_def]
    have b: "b < 2 ^ 31" by (simp add: b_def)
    have cut: "0x3c800000 \<le> y \<longleftrightarrow> 1015021568 \<le> b" by (simp add: word_le_nat_alt yb)
    have "code = word_of_nat (magnitude 3 7 False True E M)"
    proof (cases "1015021568 \<le> b")
      case True
      have "unat (drop_bit 20 (y + 0x7ffff + (drop_bit 20 y AND 1))) = div_even b 20"
        unfolding unat_drop add_half_rounds [symmetric] using b by (simp add: unat_word_ariths unat_fields unat_drop yb)
      moreover have "968 \<le> div_even b 20" "div_even b 20 \<le> 1086"
        using True by (auto intro!: div_even_lower div_even_bound simp: b_def)
      ultimately have "unat code = div_even b 20 - 960" using True cut
        by (simp add: code_def unat_fields unat_sub_if' push_bit_eq_mult del: drop_bit_eq_div)
      then show ?thesis using True False e4m3_magnitude [OF M a b_def]
        by (metis of_nat_unat ucast_id)
    next
      case b0: False
      have "a = b" using b0 by (simp add: b_def min_def split: if_splits)
      then have "rint_scaled y = (if E = 0 then 0 else div_even (M + 2 ^ 23) (141 - E))"
      proof -
        have "b div 2 ^ 23 = E" "b mod 2 ^ 23 = M" using a M \<open>a = b\<close> by simp_all
        moreover have "E \<le> 141" using b0 a \<open>a = b\<close> by simp
        moreover have "div_even M 140 = 0" using M by (intro div_even_small) simp
        ultimately show ?thesis unfolding rint_scaled_def Let_def unat_drop unat_fields yb by simp
      qed
      then show ?thesis using b0 False cut e4m3_magnitude [OF M a b_def] by (simp add: code_def)
    qed
    then show ?thesis using False unfolding run E_def [symmetric] M_def [symmetric] by (simp add: ucast_nat)
  qed
qed

text \<open>C31: the branch-free conversion is \<open>f2fp8\<close> for E4M3 with saturation, bit for bit, on every pattern
  of a \<open>float\<close>, NaNs and infinities included.\<close>

theorem f2e4m3_sat_eq: "f2e4m3_sat u = f2fp8 u 3 7 False True"
  by (simp add: f2e4m3_mag f2fp8_mag)

subsection \<open>From FP8 and back\<close>








lemma top_bit_only: "LENGTH('a) = Suc n \<Longrightarrow> v AND push_bit n 1 = push_bit n (drop_bit n v)" for v :: "'a::len word"
  by (rule bit_eqI) (auto simp: bit_simps le_less less_Suc_eq)

















subsection \<open>bfloat16\<close>

text \<open>The order of floats on their patterns: the magnitude with its sign.\<close>

definition float_ord :: "float32 \<Rightarrow> int" where
  "float_ord u = (let n = int (unat u) in if n < 2 ^ 31 then n else 2 ^ 31 - n)"

lemma unat_bf2f: "unat (bf2f b) = unat b * 2 ^ 16"
proof -
  have "unat b < 65536" using unsigned_less [of b] by simp
  then have "take_bit 32 (unat b) = unat b" "unat b * 2 ^ 16 < 2 ^ 32" by (simp_all add: take_bit_nat_eq_self)
  then show ?thesis unfolding bf2f_def unsigned_push_bit_eq
    by (simp add: push_bit_eq_mult unsigned_ucast_eq take_bit_nat_eq_self)
qed

lemma unat_high: "unat (ucast (drop_bit 16 u) :: 16 word) = unat u div 2 ^ 16" for u :: "32 word"
proof -
  have "unat u < 2 ^ 32" using unsigned_less [of u] by simp
  then have "unat u div 2 ^ 16 < 2 ^ 16" by (simp add: less_mult_imp_div_less)
  then show ?thesis unfolding unsigned_ucast_eq unat_drop by (simp add: take_bit_nat_eq_self)
qed

lemma bf_special_nat: "bf_special u \<longleftrightarrow> unat u div 2 ^ 23 mod 256 = 255"
proof -
  have c: "(0x7f800000 :: 32 word) = push_bit 23 (mask 8)" by (simp add: push_bit_eq_mult mask_eq_exp_minus_1)
  have "u AND push_bit 23 (mask 8) = push_bit 23 (take_bit 8 (drop_bit 23 u))" by (rule bit_eqI) (auto simp: bit_simps)
  moreover have "push_bit 23 (take_bit 8 (drop_bit 23 u)) = push_bit 23 (mask 8) \<longleftrightarrow> take_bit 8 (drop_bit 23 u) = mask 8"
  proof
    assume e: "push_bit 23 (take_bit 8 (drop_bit 23 u)) = push_bit 23 (mask 8)"
    show "take_bit 8 (drop_bit 23 u) = mask 8"
    proof (rule bit_eqI)
      fix n
      have "bit (push_bit 23 (take_bit 8 (drop_bit 23 u))) (n + 23) = bit (push_bit 23 (mask 8 :: 32 word)) (n + 23)" using e by simp
      then show "bit (take_bit 8 (drop_bit 23 u)) n = bit (mask 8 :: 32 word) n" by (auto simp: bit_simps)
    qed
  qed simp
  moreover have "take_bit 8 (drop_bit 23 u) = mask 8 \<longleftrightarrow> unat u div 2 ^ 23 mod 256 = 255"
    unfolding word_unat_eq_iff unat_take unat_drop by (simp add: mask_eq_exp_minus_1)
  ultimately show ?thesis by (simp only: bf_special_def c)
qed

lemma unat_low: "unat (u AND 0xffff) = unat u mod 2 ^ 16" "(u AND 0x80000000 \<noteq> 0) = (2 ^ 31 \<le> unat u)" for u :: "32 word"
proof -
  have m: "push_bit 16 1 - 1 = (0xffff :: 32 word)" by (simp add: push_bit_eq_mult)
  show "unat (u AND 0xffff) = unat u mod 2 ^ 16" using unat_mask [of u 16] unfolding m .
  have c: "(0x80000000 :: 32 word) = push_bit 31 1" by (simp add: push_bit_eq_mult)
  have "u AND 0x80000000 = push_bit 31 (drop_bit 31 u)" unfolding c by (rule top_bit_only) simp
  moreover have "push_bit 31 (drop_bit 31 u) = 0 \<longleftrightarrow> drop_bit 31 u = 0"
  proof
    assume e: "push_bit 31 (drop_bit 31 u) = 0"
    show "drop_bit 31 u = 0"
    proof (rule bit_eqI)
      fix n
      have "bit (push_bit 31 (drop_bit 31 u)) (n + 31) = bit (0 :: 32 word) (n + 31)" using e by simp
      then show "bit (drop_bit 31 u) n = bit 0 n" by (auto simp: bit_simps dest: bit_imp_le_length)
    qed
  qed simp
  moreover have "drop_bit 31 u = 0 \<longleftrightarrow> unat u < 2 ^ 31"
    unfolding word_unat_eq_iff unat_drop using unsigned_less [of u] by (simp add: div_eq_0_iff)
  ultimately show "(u AND 0x80000000 \<noteq> 0) = (2 ^ 31 \<le> unat u)" by auto
qed

text \<open>C35: on finite values rounding down (up) to bfloat16 gives the largest value not above (the smallest not
  below) the operand, rounding to zero keeps the sign and shortens the magnitude by less than a unit, and
  rounding to nearest gives the nearest value, ties to even.\<close>

theorem bf16_roundings:
  assumes "\<not> bf_special u"
  shows "float_ord (bf2f (f2bf_rd u)) \<le> float_ord u \<and> float_ord u < float_ord (bf2f (f2bf_rd u)) + 2 ^ 16 \<and>
    float_ord u \<le> float_ord (bf2f (f2bf_ru u)) \<and> float_ord (bf2f (f2bf_ru u)) < float_ord u + 2 ^ 16 \<and>
    unat (f2bf_rz u) = unat u div 2 ^ 16 \<and> unat (f2bf_rn u) = div_even (unat u) 16"
proof -
  define n where "n = unat u"
  define q r where "q = n div 2 ^ 16" and "r = n mod 2 ^ 16"
  have n: "n = q * 2 ^ 16 + r" "r < 2 ^ 16" by (simp_all add: q_def r_def)
  have n32: "n < 2 ^ 32" using unsigned_less [of u] by (simp add: n_def)
  have sp: "n div 2 ^ 23 mod 256 \<noteq> 255" using assms by (simp add: bf_special_nat n_def)
  have bound: "n < 2 ^ 32 - 2 ^ 23" "n < 2 ^ 31 \<Longrightarrow> n < 2 ^ 31 - 2 ^ 23"
  proof -
    have "n div 2 ^ 23 = 511" if "\<not> n < 2 ^ 32 - 2 ^ 23" using that n32 by (intro div_nat_eqI) simp_all
    then show "n < 2 ^ 32 - 2 ^ 23" using sp by (cases "n < 2 ^ 32 - 2 ^ 23") simp_all
    have "n div 2 ^ 23 = 255" if "n < 2 ^ 31" "\<not> n < 2 ^ 31 - 2 ^ 23" using that by (intro div_nat_eqI) simp_all
    then show "n < 2 ^ 31 \<Longrightarrow> n < 2 ^ 31 - 2 ^ 23" using sp by (cases "n < 2 ^ 31 - 2 ^ 23") simp_all
  qed
  have t: "unat (ucast (drop_bit 16 u) :: 16 word) = q" by (simp only: unat_high n_def q_def)
  have q: "q < 2 ^ 16 - 1" using bound(1) n by simp
  have t1: "unat (ucast (drop_bit 16 u) + 1 :: 16 word) = q + 1" using q t by (simp add: unat_word_ariths)
  have low: "u AND 0xffff = 0 \<longleftrightarrow> r = 0" unfolding word_unat_eq_iff unat_low by (simp add: r_def n_def)
  have neg: "(u AND 0x80000000 = 0) = (n < 2 ^ 31)" using unat_low(2) [of u] by (auto simp: n_def)
  have rd: "unat (f2bf_rd u) = (if r \<noteq> 0 \<and> 2 ^ 31 \<le> n then q + 1 else q)"
    and ru: "unat (f2bf_ru u) = (if r \<noteq> 0 \<and> n < 2 ^ 31 then q + 1 else q)"
    and rz: "unat (f2bf_rz u) = q"
    using assms t t1 by (auto simp: f2bf_rd_def f2bf_ru_def f2bf_rz_def low neg Let_def)
  have rn: "unat (f2bf_rn u) = div_even n 16"
  proof -
    have q': "n div 65536 = q" by (simp add: q_def)
    have "unat (u + (0x7fff + (drop_bit 16 u AND 1))) = n + 0x7fff + q mod 2"
      using bound(1) by (simp add: unat_word_ariths unat_fields unat_drop n_def [symmetric] q' del: drop_bit_eq_div)
    then have "unat (f2bf_rn u) = (n + 0x7fff + q mod 2) div 2 ^ 16"
      using assms by (simp add: f2bf_rn_def Let_def unat_high del: drop_bit_eq_div)
    also have "\<dots> = q + (r + 0x7fff + q mod 2) div 2 ^ 16"
      unfolding n(1) using div_mult_self3 [of "2 ^ 16" q "r + 0x7fff + q mod 2"] by (simp add: algebra_simps)
    also have "(r + 0x7fff + q mod 2) div 2 ^ 16 = (if 2 ^ 16 < 2 * r \<or> 2 ^ 16 = 2 * r \<and> odd q then 1 else 0)"
      using n(2) by (cases "even q") (auto simp: odd_iff_mod_2_eq_one div_if)
    finally show ?thesis by (simp add: div_even_def q_def r_def Let_def)
  qed
  have half: "2 ^ 31 \<le> n \<longleftrightarrow> 2 ^ 15 \<le> q" using n by auto
  show ?thesis
    using rd ru rz rn n half bound q unfolding float_ord_def unat_bf2f Let_def n_def [symmetric] q_def [symmetric]
    by (auto split: if_splits)
qed

theorem bf16_roundings_witness:
  "float_ord (bf2f (f2bf_rd 0x3f800001)) \<le> float_ord 0x3f800001 \<and> unat (f2bf_rn 0x3f808000) = div_even 0x3f808000 16"
proof -
  have "\<not> bf_special 0x3f800001" "\<not> bf_special 0x3f808000" by (simp_all add: bf_special_nat)
  from bf16_roundings [OF this(1)] bf16_roundings [OF this(2)] show ?thesis by simp
qed

subsection \<open>Vectors\<close>

lemma lanes2:
  fixes x y :: "8 word"
  shows "(ucast (ucast x OR push_bit 8 (ucast y) :: 16 word) :: 8 word) = x"
    and "(ucast (drop_bit 8 (ucast x OR push_bit 8 (ucast y) :: 16 word)) :: 8 word) = y"
  by (rule bit_eqI; auto simp: bit_simps dest: bit_imp_le_length)+

lemma lanes4:
  fixes x y :: "16 word"
  shows "(ucast (ucast x OR push_bit 16 (ucast y) :: 32 word) :: 8 word) = ucast x"
    and "(ucast (drop_bit 8 (ucast x OR push_bit 16 (ucast y) :: 32 word)) :: 8 word) = ucast (drop_bit 8 x)"
    and "(ucast (drop_bit 16 (ucast x OR push_bit 16 (ucast y) :: 32 word)) :: 8 word) = ucast y"
    and "(ucast (drop_bit 24 (ucast x OR push_bit 16 (ucast y) :: 32 word)) :: 8 word) = ucast (drop_bit 8 y)"
  by (rule bit_eqI; auto simp: bit_simps dest: bit_imp_le_length)+

text \<open>Packing and unpacking converts lane by lane.\<close>

lemma fp8_vectors:
  "fp8x2_to_float2 (\<not> e4m3) (nv_cvt_float2_to_fp8x2 (x, y) sat e4m3) =
     (fp82f (nv_cvt_float_to_fp8 x sat e4m3) (\<not> e4m3), fp82f (nv_cvt_float_to_fp8 y sat e4m3) (\<not> e4m3))"
  "fp8x4_to_float4 (float4_to_fp8x4 (x, y, z, w)) =
     (fp82f (f2e4m3_sat x) False, fp82f (f2e4m3_sat y) False, fp82f (f2e4m3_sat z) False, fp82f (f2e4m3_sat w) False)"
  unfolding fp8x2_to_float2_def fp8x4_to_float4_def float4_to_fp8x4_def nv_cvt_float2_to_fp8x2_def prod.case fst_conv snd_conv
    lanes4 lanes2 by (simp_all add: nv_cvt_float_to_fp8_def)

end
