(* ===== verification/Hash_Hunt.thy ===== *)
theory Hash_Hunt
  imports Prelude "HOL-Library.Word"
begin

unbundle bit_operations_syntax

text \<open>
  The hash search example on the CPU (\<open>examples/hashhunt/md5.hpp\<close>, \<open>hashhunt_cpu.cpp\<close>): MD5 of a message
  of less than 56 bytes, the candidates as decimal digits, the search of a range and its division among
  threads. Each thread writes a slot of its own, so the threads are modelled one after the other; times
  and printing are left out. Integers of type \<open>int\<close> stay far below their limit (at most \<open>10^8\<close> and the
  number of threads).

  The lemmas show what the digits are and that the
  division among threads covers the space: the search fails only when no candidate matches, what it
  finds matches, and a single match is found whatever the number of threads.
\<close>

subsection \<open>MD5\<close>

definition md5_rol :: "32 word \<Rightarrow> nat \<Rightarrow> 32 word" where
  "md5_rol x n = push_bit n x OR drop_bit (32 - n) x"

definition md5_block :: "8 word list \<Rightarrow> 8 word list" where
  "md5_block msg =
     (let n = length msg; bits = word_of_nat n * 8 :: 32 word;
          blk = msg @ replicate (64 - n) 0;
          blk = blk[n := 0x80];
          blk = blk[56 := ucast bits];
          blk = blk[57 := ucast (drop_bit 8 bits)];
          blk = blk[58 := ucast (drop_bit 16 bits)]
      in blk[59 := ucast (drop_bit 24 bits)])"

definition md5_words :: "8 word list \<Rightarrow> 32 word list" where
  "md5_words blk =
     map (\<lambda>i. ucast (blk ! (4 * i)) OR push_bit 8 (ucast (blk ! (4 * i + 1))) OR
       push_bit 16 (ucast (blk ! (4 * i + 2))) OR push_bit 24 (ucast (blk ! (4 * i + 3)))) [0..<16]"

definition md5_s :: "nat list" where
  "md5_s = [7, 12, 17, 22, 7, 12, 17, 22, 7, 12, 17, 22, 7, 12, 17, 22,
     5, 9, 14, 20, 5, 9, 14, 20, 5, 9, 14, 20, 5, 9, 14, 20,
     4, 11, 16, 23, 4, 11, 16, 23, 4, 11, 16, 23, 4, 11, 16, 23,
     6, 10, 15, 21, 6, 10, 15, 21, 6, 10, 15, 21, 6, 10, 15, 21]"

definition md5_T :: "32 word list" where
  "md5_T = [
     0xd76aa478, 0xe8c7b756, 0x242070db, 0xc1bdceee, 0xf57c0faf, 0x4787c62a, 0xa8304613, 0xfd469501,
     0x698098d8, 0x8b44f7af, 0xffff5bb1, 0x895cd7be, 0x6b901122, 0xfd987193, 0xa679438e, 0x49b40821,
     0xf61e2562, 0xc040b340, 0x265e5a51, 0xe9b6c7aa, 0xd62f105d, 0x02441453, 0xd8a1e681, 0xe7d3fbc8,
     0x21e1cde6, 0xc33707d6, 0xf4d50d87, 0x455a14ed, 0xa9e3e905, 0xfcefa3f8, 0x676f02d9, 0x8d2a4c8a,
     0xfffa3942, 0x8771f681, 0x6d9d6122, 0xfde5380c, 0xa4beea44, 0x4bdecfa9, 0xf6bb4b60, 0xbebfbc70,
     0x289b7ec6, 0xeaa127fa, 0xd4ef3085, 0x04881d05, 0xd9d4d039, 0xe6db99e5, 0x1fa27cf8, 0xc4ac5665,
     0xf4292244, 0x432aff97, 0xab9423a7, 0xfc93a039, 0x655b59c3, 0x8f0ccc92, 0xffeff47d, 0x85845dd1,
     0x6fa87e4f, 0xfe2ce6e0, 0xa3014314, 0x4e0811a1, 0xf7537e82, 0xbd3af235, 0x2ad7d2bb, 0xeb86d391]"

type_synonym digest = "32 word \<times> 32 word \<times> 32 word \<times> 32 word"

definition md5_step :: "32 word list \<Rightarrow> nat \<Rightarrow> digest \<Rightarrow> digest" where
  "md5_step w i S =
     (case S of (A, B, C, D) \<Rightarrow>
        let (f, g) =
          (if i < 16 then ((B AND C) OR (NOT B AND D), i)
           else if i < 32 then ((D AND B) OR (NOT D AND C), (5 * i + 1) mod 16)
           else if i < 48 then (B XOR C XOR D, (3 * i + 5) mod 16)
           else (C XOR (B OR NOT D), 7 * i mod 16));
          t = A + f + md5_T ! i + w ! g
        in (D, B + md5_rol t (md5_s ! i), B, C))"

definition md5_short :: "8 word list \<Rightarrow> digest" where
  "md5_short msg =
     (let w = md5_words (md5_block msg);
          (a, b, c, d) = (0x67452301, 0xefcdab89, 0x98badcfe, 0x10325476);
          (A, B, C, D) = fold (md5_step w) [0..<64] (a, b, c, d)
      in (a + A, b + B, c + C, d + D))"

subsection \<open>Digits\<close>

text \<open>\<open>to_digits\<close>: the last digit first, as the loop writes them.\<close>

fun to_digits_loop :: "nat \<Rightarrow> nat \<Rightarrow> 8 word list \<Rightarrow> 8 word list" where
  "to_digits_loop v 0 msg = msg"
| "to_digits_loop v (Suc i) msg = to_digits_loop (v div 10) i (msg[i := word_of_nat (48 + v mod 10)])"

definition to_digits :: "nat \<Rightarrow> nat \<Rightarrow> 8 word list \<Rightarrow> 8 word list" where
  "to_digits v digits msg = to_digits_loop v digits msg"

definition hex_chars :: string where "hex_chars = ''0123456789abcdef''"

definition hex_byte :: "8 word \<Rightarrow> string" where
  "hex_byte v = [hex_chars ! unat (drop_bit 4 v), hex_chars ! unat (v AND 0xf)]"

definition md5_hex :: "32 word list \<Rightarrow> string" where
  "md5_hex h = concat (map (\<lambda>x. concat (map (\<lambda>b. hex_byte (ucast (drop_bit (8 * b) x))) [0..<4])) h)"

subsection \<open>The search\<close>

text \<open>\<open>hunt_range\<close>; the buffer \<open>msg\<close> has eight bytes, of which the first \<open>digits\<close> are hashed.\<close>

fun hunt_loop :: "(nat \<Rightarrow> bool) \<Rightarrow> nat list \<Rightarrow> int \<Rightarrow> int" where
  "hunt_loop hit [] found = found"
| "hunt_loop hit (cand # cands) found = hunt_loop hit cands (if hit cand then int cand else found)"

definition hits_target :: "digest \<Rightarrow> nat \<Rightarrow> nat \<Rightarrow> bool" where
  "hits_target target digits cand = (md5_short (take digits (to_digits cand digits (replicate 8 0))) = target)"

definition hunt_range :: "digest \<Rightarrow> nat \<Rightarrow> nat \<Rightarrow> nat \<Rightarrow> int" where
  "hunt_range target digits from to = hunt_loop (hits_target target digits) [from..<to] (- 1)"

text \<open>The slots of the threads; the loop stops at the first chunk past the end.\<close>

fun fill_hits :: "(nat \<Rightarrow> nat \<Rightarrow> int) \<Rightarrow> nat \<Rightarrow> nat \<Rightarrow> nat \<Rightarrow> nat \<Rightarrow> int list \<Rightarrow> int list" where
  "fill_hits rng space chunk t 0 hits = hits"
| "fill_hits rng space chunk t (Suc k) hits =
     (let b = t * chunk; e = b + chunk; e = (if space < e then space else e) in
      if space \<le> b then hits
      else fill_hits rng space chunk (t + 1) k (hits[t := rng b e]))"

definition best_hit :: "int list \<Rightarrow> int" where
  "best_hit hits = fold (\<lambda>h found. if 0 \<le> h \<and> (found < 0 \<or> h < found) then h else found) hits (- 1)"

definition hunt :: "digest \<Rightarrow> nat \<Rightarrow> nat \<Rightarrow> nat \<Rightarrow> int" where
  "hunt target digits space threads =
     (if threads = 1 then hunt_range target digits 0 space
      else
        let chunk = (space + threads - 1) div threads
        in best_hit (fill_hits (hunt_range target digits) space chunk 0 threads (replicate threads (- 1))))"

subsection \<open>Digits and digests\<close>

lemma to_digits_length [simp]: "length (to_digits_loop v n msg) = length msg"
  by (induction n arbitrary: v msg) simp_all

lemma to_digits_loop_nth:
  "n \<le> length msg \<Longrightarrow> j < length msg \<Longrightarrow>
   to_digits_loop v n msg ! j = (if j < n then word_of_nat (48 + v div 10 ^ (n - 1 - j) mod 10) else msg ! j)"
proof (induction n arbitrary: v msg)
  case (Suc n)
  have "v div 10 div 10 ^ (n - 1 - j) = v div 10 ^ (n - j)" if "j < n"
  proof -
    have "n - j = Suc (n - 1 - j)" using that by simp
    then show ?thesis by (simp add: div_mult2_eq)
  qed
  with Suc show ?case by (auto simp: nth_list_update)
qed simp

lemma digit_value: "v mod 10 ^ n = (\<Sum>j<n. (v div 10 ^ (n - 1 - j) mod 10) * 10 ^ (n - 1 - j))" for v :: nat
proof (induction n)
  case (Suc n)
  have "(\<Sum>j<Suc n. (v div 10 ^ (Suc n - 1 - j) mod 10) * 10 ^ (Suc n - 1 - j)) =
      (v div 10 ^ n mod 10) * 10 ^ n + (\<Sum>j<n. (v div 10 ^ (n - 1 - j) mod 10) * 10 ^ (n - 1 - j))"
    by (subst sum.lessThan_Suc_shift) simp
  moreover have "v mod 10 ^ Suc n = (v div 10 ^ n mod 10) * 10 ^ n + v mod 10 ^ n"
    using mod_mult2_eq [of v "10 ^ n" 10] by (simp add: mult.commute)
  ultimately show ?case using Suc by simp
qed simp

lemma byte_nat: "n < 256 \<Longrightarrow> unat (word_of_nat n :: 8 word) = n"
  by (simp add: unsigned_of_nat take_bit_nat_eq_self)

text \<open>The first \<open>n\<close> bytes \<open>to_digits\<close> writes are the decimal digits of the candidate, most significant
  first: each is a digit, and their value is the candidate modulo \<open>10^n\<close>.\<close>

lemma to_digits_decimal:
  assumes "n \<le> length msg"
  shows "(\<forall>j < n. 48 \<le> unat (to_digits v n msg ! j) \<and> unat (to_digits v n msg ! j) \<le> 57) \<and>
    (\<Sum>j<n. (unat (to_digits v n msg ! j) - 48) * 10 ^ (n - 1 - j)) = v mod 10 ^ n \<and>
    drop n (to_digits v n msg) = drop n msg"
proof (intro conjI)
  have d: "unat (to_digits v n msg ! j) = 48 + v div 10 ^ (n - 1 - j) mod 10" if "j < n" for j
  proof -
    have "48 + v div 10 ^ (n - 1 - j) mod 10 < 256" by (rule order.strict_trans1 [of _ 57]) simp_all
    from byte_nat [OF this] show ?thesis
      using that assms by (simp only: to_digits_def to_digits_loop_nth [of n msg j v] if_True)
  qed
  have nine: "v div 10 ^ k mod 10 \<le> 9" for k using mod_less_divisor [of 10 "v div 10 ^ k"] by simp
  show "\<forall>j < n. 48 \<le> unat (to_digits v n msg ! j) \<and> unat (to_digits v n msg ! j) \<le> 57"
    using d nine by simp
  show "(\<Sum>j<n. (unat (to_digits v n msg ! j) - 48) * 10 ^ (n - 1 - j)) = v mod 10 ^ n"
    unfolding digit_value by (rule sum.cong) (simp_all add: d)
  show "drop n (to_digits v n msg) = drop n msg"
    using assms by (intro nth_equalityI) (simp_all add: to_digits_def to_digits_loop_nth)
qed

theorem to_digits_decimal_witness:
  "unat (to_digits 1337 4 (replicate 8 0) ! 0) \<le> 57 \<and> drop 4 (to_digits 1337 4 (replicate 8 0)) = [0, 0, 0, 0]"
proof -
  have "drop 4 (replicate 8 0 :: 8 word list) = [0, 0, 0, 0]" by code_simp
  then show ?thesis using to_digits_decimal [of 4 "replicate 8 0" 1337] by simp
qed

subsection \<open>The division among threads\<close>

lemma hunt_loop_found:
  "hunt_loop hit cs found = (case filter hit cs of [] \<Rightarrow> found | _ \<Rightarrow> int (last (filter hit cs)))"
  by (induction cs arbitrary: found) (auto split: list.splits)

definition range_result :: "(nat \<Rightarrow> bool) \<Rightarrow> nat \<Rightarrow> nat \<Rightarrow> int \<Rightarrow> bool" where
  "range_result hit b e r \<longleftrightarrow>
     (r = - 1 \<and> (\<forall>c \<in> {b..<e}. \<not> hit c)) \<or> (0 \<le> r \<and> nat r \<in> {b..<e} \<and> hit (nat r))"

lemma hunt_range_result: "range_result (hits_target target digits) b e (hunt_range target digits b e)"
proof (cases "filter (hits_target target digits) [b..<e] = []")
  case True
  then show ?thesis by (auto simp: hunt_range_def hunt_loop_found range_result_def filter_empty_conv)
next
  case False
  then have "last (filter (hits_target target digits) [b..<e]) \<in> set (filter (hits_target target digits) [b..<e])"
    by (rule last_in_set)
  with False show ?thesis by (auto simp: hunt_range_def hunt_loop_found range_result_def split: list.splits)
qed

lemma fill_hits_length [simp]: "length (fill_hits rng space chunk t k hits) = length hits"
  by (induction k arbitrary: t hits) (simp_all add: Let_def)

lemma fill_hits_nth:
  assumes "0 < chunk"
  shows "t + k = length hits \<Longrightarrow> j < length hits \<Longrightarrow>
    fill_hits rng space chunk t k hits ! j =
      (if t \<le> j \<and> j * chunk < space then rng (j * chunk) (min space (j * chunk + chunk)) else hits ! j)"
proof (induction k arbitrary: t hits)
  case (Suc k)
  define r where "r = rng (t * chunk) (min space (t * chunk + chunk))"
  have e: "(if space < t * chunk + chunk then space else t * chunk + chunk) = min space (t * chunk + chunk)" by simp
  have step: "fill_hits rng space chunk t (Suc k) hits =
      (if space \<le> t * chunk then hits else fill_hits rng space chunk (t + 1) k (hits[t := r]))"
    by (simp add: Let_def e r_def del: min_def)
  show ?case
  proof (cases "space \<le> t * chunk")
    case True
    have "space \<le> j * chunk" if "t \<le> j" using True that by (meson le_trans mult_le_mono1)
    with True show ?thesis unfolding step by auto
  next
    case False
    have IH: "fill_hits rng space chunk (t + 1) k (hits[t := r]) ! j =
        (if t + 1 \<le> j \<and> j * chunk < space then rng (j * chunk) (min space (j * chunk + chunk)) else hits[t := r] ! j)"
      using Suc.prems by (intro Suc.IH) simp_all
    have "fill_hits rng space chunk t (Suc k) hits ! j =
        (if t + 1 \<le> j \<and> j * chunk < space then rng (j * chunk) (min space (j * chunk + chunk)) else hits[t := r] ! j)"
      using False by (simp only: step IH if_False)
    also have "\<dots> = (if t \<le> j \<and> j * chunk < space then rng (j * chunk) (min space (j * chunk + chunk)) else hits ! j)"
    proof (cases "j = t")
      case True
      have "t < length hits" using Suc.prems by simp
      with True False show ?thesis by (simp add: r_def min_def)
    next
      case other: False
      then have "t + 1 \<le> j \<longleftrightarrow> t \<le> j" by arith
      with other show ?thesis by (simp only: nth_list_update_neq [OF not_sym] simp_thms refl)
    qed
    finally show ?thesis .
  qed
qed simp

definition better :: "int \<Rightarrow> int \<Rightarrow> int" where
  "better h found = (if 0 \<le> h \<and> (found < 0 \<or> h < found) then h else found)"

lemma best_hit_better: "best_hit hits = fold better hits (- 1)"
  unfolding best_hit_def better_def by (rule refl)

lemma better_least: "- 1 \<le> better h found \<longleftrightarrow> - 1 \<le> found \<or> 0 \<le> h \<and> found < 0"
  by (auto simp: better_def)

lemma fold_better_from: "fold better hits found = found \<or> fold better hits found \<in> set hits"
proof (induction hits arbitrary: found)
  case (Cons h hits)
  have "better h found = found \<or> better h found = h" by (simp add: better_def)
  with Cons [of "better h found"] show ?case by auto
qed simp

lemma fold_better_nonneg: "0 \<le> found \<Longrightarrow> 0 \<le> fold better hits found"
proof (induction hits arbitrary: found)
  case (Cons h hits)
  have "0 \<le> better h found" using Cons.prems by (simp add: better_def)
  from Cons.IH [OF this] show ?case by simp
qed simp

lemma fold_better_none:
  "fold better hits found < 0 \<Longrightarrow> h \<in> set hits \<Longrightarrow> h < 0"
proof (induction hits arbitrary: found)
  case (Cons k hits)
  show ?case
  proof (cases "h = k")
    case True
    have "\<not> 0 \<le> better k found" using Cons.prems(1) fold_better_nonneg [of "better k found" hits] by auto
    then show ?thesis using True by (auto simp: better_def split: if_splits)
  next
    case False
    then show ?thesis using Cons.IH [of "better k found"] Cons.prems by simp
  qed
qed simp

lemma hunt_result:
  assumes "0 < threads" and "0 < space" and "space + threads \<le> 2 ^ 31"
  shows "(hunt target digits space threads = - 1 \<longleftrightarrow> (\<forall>c < space. \<not> hits_target target digits c)) \<and>
    (hunt target digits space threads \<noteq> - 1 \<longrightarrow>
       0 \<le> hunt target digits space threads \<and> nat (hunt target digits space threads) < space \<and>
       hits_target target digits (nat (hunt target digits space threads))) \<and>
    (\<forall>c < space. (\<forall>d < space. hits_target target digits d \<longleftrightarrow> d = c) \<longrightarrow> hunt target digits space threads = int c)"
proof -
  let ?hit = "hits_target target digits"
  have res: "range_result ?hit 0 space (hunt target digits space threads)"
  proof (cases "threads = 1")
    case True
    then show ?thesis using hunt_range_result by (simp add: hunt_def)
  next
    case False
    define chunk where "chunk = (space + threads - 1) div threads"
    have chunk: "0 < chunk" using assms by (simp add: chunk_def div_greater_zero_iff)
    have cover: "space \<le> threads * chunk"
    proof -
      have "space + threads - 1 < threads * (chunk + 1)"
        using assms(1) dividend_less_times_div [of threads "space + threads - 1"] by (simp add: chunk_def)
      then show ?thesis using assms by (simp add: algebra_simps)
    qed
    define hs where "hs = fill_hits (hunt_range target digits) space chunk 0 threads (replicate threads (- 1))"
    have hs: "hs ! j = (if j * chunk < space then hunt_range target digits (j * chunk) (min space (j * chunk + chunk)) else - 1)"
      if "j < threads" for j
      using fill_hits_nth [OF chunk, of 0 threads "replicate threads (- 1)" j "hunt_range target digits" space] that by (simp add: hs_def)
    have r: "hunt target digits space threads = best_hit hs" using False by (simp add: hunt_def hs_def chunk_def Let_def)
    have len: "length hs = threads" by (simp add: hs_def)
    define b where "b = best_hit hs"
    have source: "b = - 1 \<or> b \<in> set hs" and none: "b < 0 \<Longrightarrow> h \<in> set hs \<Longrightarrow> h < 0" for h
      using fold_better_from [of hs "- 1"] fold_better_none [of hs "- 1" h] by (simp_all add: b_def best_hit_better)
    define lo hi where "lo j = j * chunk" and "hi j = min space (j * chunk + chunk)" for j
    have part: "hs ! j = - 1 \<and> space \<le> lo j \<or> lo j < space \<and> range_result ?hit (lo j) (hi j) (hs ! j)" if "j < threads" for j
      using hs [OF that] hunt_range_result [of target digits "lo j" "hi j"] by (cases "lo j < space") (simp_all add: lo_def hi_def)
    have slot: "b = - 1 \<or> 0 \<le> b \<and> nat b < space \<and> ?hit (nat b)"
    proof (cases "b = - 1")
      case False
      with source len obtain j where "j < threads" "b = hs ! j" by (auto simp: in_set_conv_nth)
      with part [of j] False show ?thesis by (auto simp: range_result_def hi_def)
    qed simp
    have miss: "\<not> ?hit c" if "b = - 1" and c: "c < space" for c
    proof -
      define j where "j = c div chunk"
      have j: "lo j \<le> c" "c < lo j + chunk"
        using chunk dividend_less_times_div [of chunk c] by (simp_all add: j_def lo_def mult.commute)
      have "j < threads"
        using c cover chunk j(1) unfolding lo_def by (meson le_less_trans less_le_trans mult_less_cancel2)
      then have "hs ! j < 0" and "range_result ?hit (lo j) (hi j) (hs ! j)"
        using none [of "hs ! j"] that(1) len part [of j] j(1) c by auto
      then have "\<forall>c \<in> {lo j..<hi j}. \<not> ?hit c" by (auto simp: range_result_def)
      moreover have "c \<in> {lo j..<hi j}" using j c by (simp add: hi_def lo_def)
      ultimately show ?thesis by blast
    qed
    show ?thesis unfolding r b_def [symmetric] range_result_def
    proof (cases "b = - 1")
      case True
      then show "b = - 1 \<and> (\<forall>c\<in>{0..<space}. \<not> ?hit c) \<or> 0 \<le> b \<and> nat b \<in> {0..<space} \<and> ?hit (nat b)"
        using miss by simp
    next
      case False
      then show "b = - 1 \<and> (\<forall>c\<in>{0..<space}. \<not> ?hit c) \<or> 0 \<le> b \<and> nat b \<in> {0..<space} \<and> ?hit (nat b)"
        using slot by simp
    qed
  qed
  then consider (none) "hunt target digits space threads = - 1" "\<forall>c < space. \<not> ?hit c"
    | (hit) c where "hunt target digits space threads = int c" "c < space" "?hit c"
    unfolding range_result_def by (metis atLeast0LessThan lessThan_iff nat_0_le)
  then show ?thesis
  proof cases
    case none
    then show ?thesis by auto
  next
    case hit
    then show ?thesis by auto
  qed
qed

text \<open>C33: for any number of threads the search returns \<open>-1\<close> exactly when no candidate of the space matches;
  otherwise it returns a candidate that does, and the only one if there is only one.\<close>

theorem hunt_right:
  assumes "0 < threads" and "0 < space" and "space + threads \<le> 2 ^ 31"
  shows "(hunt target digits space threads = - 1 \<longleftrightarrow> (\<forall>c < space. \<not> hits_target target digits c)) \<and>
    (hunt target digits space threads \<noteq> - 1 \<longrightarrow>
       0 \<le> hunt target digits space threads \<and> nat (hunt target digits space threads) < space \<and>
       hits_target target digits (nat (hunt target digits space threads))) \<and>
    (\<forall>c < space. (\<forall>d < space. hits_target target digits d \<longleftrightarrow> d = c) \<longrightarrow> hunt target digits space threads = int c)"
  using assms by (rule hunt_result)

theorem hunt_right_witness:
  "hunt (0, 0, 0, 0) 4 10000 7 = - 1 \<longleftrightarrow> hunt (0, 0, 0, 0) 4 10000 1 = - 1"
  using hunt_right [of 7 10000 "(0, 0, 0, 0)" 4] hunt_right [of 1 10000 "(0, 0, 0, 0)" 4] by simp

subsection \<open>The program\<close>

text \<open>The arguments; \<open>atoi\<close> is an argument of the model. \<open>None\<close> is the usage message.\<close>

fun parse_args :: "(string \<Rightarrow> int) \<Rightarrow> string list \<Rightarrow> bool \<Rightarrow> int \<Rightarrow> (bool \<times> int) option" where
  "parse_args atoi [] bench threads = Some (bench, threads)"
| "parse_args atoi (a # as) bench threads =
     (if a = ''--bench'' then parse_args atoi as True threads
      else if a = ''--threads'' \<and> as \<noteq> [] then parse_args atoi (tl as) bench (atoi (hd as))
      else None)"

definition bytes_of :: "string \<Rightarrow> 8 word list" where
  "bytes_of s = map (\<lambda>c. word_of_nat (of_char c)) s"

text \<open>The exit code and the candidate found.\<close>

definition cpu_main :: "(string \<Rightarrow> int) \<Rightarrow> int \<Rightarrow> string list \<Rightarrow> int \<times> int" where
  "cpu_main atoi hardware args =
     (let threads = (if hardware < 1 then 1 else hardware) in
      case parse_args atoi args False threads of
        None \<Rightarrow> (2, - 1)
      | Some (bench, threads) \<Rightarrow>
          let threads = (if threads < 1 then 1 else threads);
              digits = (if bench then 8 else 4);
              space = (if bench then 100000000 else 10000);
              preimage = (if bench then ''13371337'' else ''1337'');
              want = (if bench then 13371337 else 1337);
              target = md5_short (take digits (bytes_of preimage));
              found = hunt target digits space (nat threads)
          in if found < 0 then (1, found) else (if found = want then 0 else 1, found))"

lemma digits_text:
  assumes "n \<le> length msg"
  shows "take n (to_digits v n msg) = map (\<lambda>j. word_of_nat (48 + v div 10 ^ (n - 1 - j) mod 10)) [0..<n]"
  using assms by (intro nth_equalityI) (simp_all add: to_digits_def to_digits_loop_nth)

lemma digits_1337: "take 4 (to_digits 1337 4 (replicate 8 0)) = take 4 (bytes_of ''1337'')"
proof -
  have "[0..<4] = [0, 1, 2, 3::nat]" by code_simp
  then show ?thesis using digits_text [of 4 "replicate 8 0" 1337] by (simp add: bytes_of_def)
qed

lemma digits_13371337: "take 8 (to_digits 13371337 8 (replicate 8 0)) = take 8 (bytes_of ''13371337'')"
proof -
  have "[0..<8] = [0, 1, 2, 3, 4, 5, 6, 7::nat]" by code_simp
  then show ?thesis using digits_text [of 8 "replicate 8 0" 13371337] by (simp add: bytes_of_def)
qed

text \<open>With acceptable arguments the program never reports that no candidate matched; it exits with 0, or it
  found a second candidate with the same digest.\<close>

lemma cpu_main_passes:
  assumes "parse_args atoi args False (if hardware < 1 then 1 else hardware) = Some (bench, threads)" and "threads < 2 ^ 30"
  shows "cpu_main atoi hardware args = (0, if bench then 13371337 else 1337) \<or>
    (\<exists>c. fst (cpu_main atoi hardware args) = 1 \<and> snd (cpu_main atoi hardware args) = int c \<and>
      c \<noteq> (if bench then 13371337 else 1337) \<and>
      hits_target (md5_short (if bench then take 8 (bytes_of ''13371337'') else take 4 (bytes_of ''1337''))) (if bench then 8 else 4) c)"
proof -
  define digits space want text' where "digits = (if bench then 8 else 4 :: nat)" and "space = (if bench then 100000000 else 10000 :: nat)"
    and "want = (if bench then 13371337 else 1337 :: nat)" and "text' = (if bench then take 8 (bytes_of ''13371337'') else take 4 (bytes_of ''1337''))"
  define n where "n = nat (if threads < 1 then 1 else threads)"
  define r where "r = hunt (md5_short text') digits space n"
  have hit: "hits_target (md5_short text') digits want"
    using digits_1337 digits_13371337 by (simp add: hits_target_def digits_def want_def text'_def)
  have main: "cpu_main atoi hardware args = (if r < 0 then (1, r) else (if r = int want then 0 else 1, r))"
    by (simp add: cpu_main_def assms(1) Let_def r_def n_def digits_def space_def want_def text'_def)
  have "want < space" by (simp add: want_def space_def)
  moreover have "0 < n" "0 < space" "space + n \<le> 2 ^ 31" using assms(2) by (auto simp: n_def space_def)
  ultimately have "r \<noteq> - 1" "0 \<le> r \<and> hits_target (md5_short text') digits (nat r)"
    using hunt_result [of n space "md5_short text'" digits] hit unfolding r_def by blast+
  then obtain c where c: "r = int c" "hits_target (md5_short text') digits c" by (metis nat_0_le)
  then show ?thesis unfolding main by (cases "c = want") (auto simp: want_def text'_def digits_def)
qed

lemma cpu_main_passes_witness: "fst (cpu_main (\<lambda>_. 7) 8 [''--threads'', ''7'']) \<in> {0, 1}"
  using cpu_main_passes [of "\<lambda>_. 7" "[''--threads'', ''7'']" 8 False 7] by auto

end
