(* ===== verification/Ptx_Asm.thy ===== *)
theory Ptx_Asm
  imports CppString
begin

text \<open>
  The parser of inline PTX (\<open>ptx_asm.h\<close>, \<open>ptx_asm.cpp\<close>): the lexer, operands, instructions with their
  guard, dotted modifiers and operands, directives and scopes that are dropped, and the list of per-thread
  instructions. The lexer holds the text from its position on; offsets in messages are recovered from the
  length. A register number above the range of \<open>int\<close>, on which \<open>atoi\<close> is undefined, is an error of its own.

  The lemmas show that the parser ends and consumes what it reads, that what it returns is well-formed, and
  that every printable list of instructions is read back from its text.
\<close>

subsection \<open>Characters and numbers\<close>

definition isalpha :: "char \<Rightarrow> bool" where
  "isalpha c \<longleftrightarrow> (let n = of_char c :: nat in 65 \<le> n \<and> n \<le> 90 \<or> 97 \<le> n \<and> n \<le> 122)"

definition isalnum :: "char \<Rightarrow> bool" where
  "isalnum c \<longleftrightarrow> isalpha c \<or> isdigit c"

text \<open>The value of a digit in the bases up to 16, 16 for any other character.\<close>

definition any_digit :: "char \<Rightarrow> nat" where
  "any_digit c =
     (let n = of_char c in
      if 48 \<le> n \<and> n \<le> 57 then n - 48 else if 65 \<le> n \<and> n \<le> 70 then n - 55
      else if 97 \<le> n \<and> n \<le> 102 then n - 87 else 16)"

definition base_val :: "nat \<Rightarrow> string \<Rightarrow> nat" where
  "base_val b s = foldl (\<lambda>v c. b * v + any_digit c) 0 (takeWhile (\<lambda>c. any_digit c < b) s)"

definition unsigned_val :: "string \<Rightarrow> nat" where
  "unsigned_val s =
     (if 3 \<le> length s \<and> hd s = CHR ''0'' \<and> (s ! 1 = CHR ''x'' \<or> s ! 1 = CHR ''X'') \<and> any_digit (s ! 2) < 16
      then base_val 16 (drop 2 s)
      else if s \<noteq> [] \<and> hd s = CHR ''0'' then base_val 8 s else base_val 10 s)"

text \<open>\<open>strtoll(s, nullptr, 0)\<close>: white space, a sign, a prefix that chooses the base, the longest run of
  digits, and saturation at the ends of \<open>long long\<close>.\<close>

definition strtoll :: "string \<Rightarrow> int" where
  "strtoll s =
     (let s = dropWhile isspace s;
          minus = (s \<noteq> [] \<and> hd s = CHR ''-'');
          s = (if s \<noteq> [] \<and> (hd s = CHR ''-'' \<or> hd s = CHR ''+'') then tl s else s);
          v = int (unsigned_val s)
      in if minus then max (- (2 ^ 63)) (- v) else min (2 ^ 63 - 1) v)"

subsection \<open>Operands and instructions\<close>

datatype op_kind = Reg | Imm | Mem | Vec | Named

record ptx_operand =
  o_kind :: op_kind
  o_reg :: int
  o_imm :: int
  o_regs :: "int list"
  o_negated :: bool
  o_name :: string

definition operand0 :: ptx_operand where
  "operand0 = \<lparr>o_kind = Reg, o_reg = - 1, o_imm = 0, o_regs = [], o_negated = False, o_name = []\<rparr>"

record ptx_instr =
  i_mnemonic :: string
  i_mods :: "string list"
  i_ops :: "ptx_operand list"
  i_pred :: int
  i_predNeg :: bool
  i_predName :: string

definition instr0 :: ptx_instr where
  "instr0 = \<lparr>i_mnemonic = [], i_mods = [], i_ops = [], i_pred = - 1, i_predNeg = False, i_predName = []\<rparr>"

definition full :: "ptx_instr \<Rightarrow> string" where
  "full i = i_mnemonic i @ concat (map (\<lambda>m. CHR ''.'' # m) (i_mods i))"

definition hasMod :: "ptx_instr \<Rightarrow> string \<Rightarrow> bool" where
  "hasMod i m \<longleftrightarrow> m \<in> set (i_mods i)"

definition predicated :: "ptx_instr \<Rightarrow> bool" where
  "predicated i \<longleftrightarrow> 0 \<le> i_pred i \<or> i_predName i \<noteq> []"

datatype ptx_error = Rejected string | Atoi_undefined

subsection \<open>The lexer\<close>

definition ws :: "string \<Rightarrow> string" where
  "ws r = dropWhile isspace r"

definition eof :: "string \<Rightarrow> bool" where
  "eof r \<longleftrightarrow> ws r = []"

definition peek :: "string \<Rightarrow> char" where
  "peek r = (case ws r of [] \<Rightarrow> CHR 0x00 | c # _ \<Rightarrow> c)"

definition accept :: "char \<Rightarrow> string \<Rightarrow> bool \<times> string" where
  "accept c r = (if peek r = c then (True, tl (ws r)) else (False, ws r))"

definition ident_char :: "char \<Rightarrow> bool" where
  "ident_char c \<longleftrightarrow> isalnum c \<or> c = CHR ''_'' \<or> c = CHR '':'' \<or> c = CHR ''.''"

definition ident :: "string \<Rightarrow> string \<times> string" where
  "ident r = (let r = ws r in (takeWhile ident_char r, dropWhile ident_char r))"

definition word_char :: "char \<Rightarrow> bool" where
  "word_char c \<longleftrightarrow> isalnum c \<or> c = CHR ''_''"

definition word_start :: "char \<Rightarrow> bool" where
  "word_start c \<longleftrightarrow> isalpha c \<or> c = CHR ''_''"

definition atoi :: "string \<Rightarrow> int option" where
  "atoi ds = (if digits_val ds < 2 ^ 31 then Some (int (digits_val ds)) else None)"

subsection \<open>\<open>parseOperand\<close>\<close>

definition parse_named :: "string \<Rightarrow> ptx_operand \<times> string" where
  "parse_named r =
     (operand0\<lparr>o_kind := Named, o_name := takeWhile word_char r\<rparr>, dropWhile word_char r)"

definition parse_register :: "string \<Rightarrow> ptx_error + ptx_operand \<times> string" where
  "parse_register r =
     (if r \<noteq> [] \<and> word_start (hd r) then Inr (parse_named r)
      else if takeWhile isdigit r = [] then Inl (Rejected ''expected register number after %'')
      else case atoi (takeWhile isdigit r) of
             None \<Rightarrow> Inl Atoi_undefined
           | Some n \<Rightarrow> Inr (operand0\<lparr>o_kind := Reg, o_reg := n\<rparr>, dropWhile isdigit r))"

text \<open>A sign and the characters of a number from the position on.\<close>

definition number_text :: "(char \<Rightarrow> bool) \<Rightarrow> string \<Rightarrow> string \<times> string" where
  "number_text P r =
     (let (sg, r) = (if r \<noteq> [] \<and> hd r = CHR ''-'' then (''-'', tl r) else ([], r))
      in (sg @ takeWhile P r, dropWhile P r))"

definition parse_offset :: "ptx_operand \<Rightarrow> string \<Rightarrow> ptx_error + ptx_operand \<times> string" where
  "parse_offset base r =
     (let op = operand0\<lparr>o_kind := Mem, o_reg := o_reg base, o_imm := 0\<rparr>;
          (plus, r) = accept (CHR ''+'') r;
          (op, r) = (if plus \<or> peek r = CHR ''-'' then
                       (let (n, r) = number_text isalnum r in (op\<lparr>o_imm := strtoll n\<rparr>, r))
                     else (op, r));
          (closed, r) = accept (CHR '']'') r
      in if closed then Inr (op, r) else Inl (Rejected ''expected ]''))"

definition parse_imm :: "string \<Rightarrow> ptx_operand \<times> string" where
  "parse_imm r =
     (let (n, r) = number_text (\<lambda>c. isalnum c \<or> c = CHR ''.'') r
      in (operand0\<lparr>o_kind := Imm, o_imm := strtoll n\<rparr>, r))"

function (sequential) parse_operand :: "string \<Rightarrow> ptx_error + ptx_operand \<times> string"
  and parse_regs :: "int list \<Rightarrow> string \<Rightarrow> ptx_error + int list \<times> string" where
  "parse_operand r0 =
     (let r = ws r0; c = peek r0 in
      if c = CHR ''%'' \<or> c = CHR ''$'' then parse_register (tl r)
      else if c = CHR ''!'' then
        (case parse_operand (tl r) of
           Inl e \<Rightarrow> Inl e
         | Inr (op, r) \<Rightarrow> Inr (op\<lparr>o_negated := True\<rparr>, r))
      else if c = CHR ''['' then
        (case parse_operand (tl r) of
           Inl e \<Rightarrow> Inl e
         | Inr (base, r) \<Rightarrow> parse_offset base r)
      else if c = CHR ''{'' then
        (case parse_regs [] (tl r) of
           Inl e \<Rightarrow> Inl e
         | Inr (ns, r) \<Rightarrow> Inr (operand0\<lparr>o_kind := Vec, o_regs := ns\<rparr>, r))
      else if isdigit c \<or> c = CHR ''-'' then Inr (parse_imm r)
      else if word_start c then Inr (parse_named r)
      else Inl (Rejected (''unexpected character '' @ [CHR 0x27, c, CHR 0x27] @ '' in operand'')))"
| "parse_regs ns r =
     (case parse_operand r of
        Inl e \<Rightarrow> Inl e
      | Inr (e, r) \<Rightarrow>
          if o_kind e \<noteq> Reg then Inl (Rejected ''vector operand must contain registers'')
          else
            let ns = ns @ [o_reg e]; (more, r) = accept (CHR '','') r in
            if more then parse_regs ns r
            else
              let (closed, r) = accept (CHR ''}'') r in
              if closed then Inr (ns, r) else Inl (Rejected ''expected , or } in vector operand''))"
  by pat_completeness auto

lemma peek_cases: "peek r = CHR 0x00 \<or> (\<exists>s. ws r = peek r # s)"
  by (simp add: peek_def split: list.splits)

lemma length_ws: "length (ws r) \<le> length r"
  by (simp add: ws_def length_dropWhile_le)

lemma tl_ws_less: "peek r \<noteq> CHR 0x00 \<Longrightarrow> length (tl (ws r)) < length r"
  using peek_cases [of r] length_ws [of r] by auto

lemma accept_less: "accept c r = (True, s) \<Longrightarrow> c \<noteq> CHR 0x00 \<Longrightarrow> length s < length r"
  using tl_ws_less [of r] by (auto simp: accept_def split: if_splits)

lemma accept_le: "accept c r = (b, s) \<Longrightarrow> length s \<le> length r"
  using length_ws [of r] by (auto simp: accept_def split: if_splits)

lemma parse_register_le: "parse_register r = Inr (op, s) \<Longrightarrow> length s \<le> length r"
  by (auto simp: parse_register_def parse_named_def length_dropWhile_le split: if_splits option.splits)

lemma number_text_le: "number_text P r = (n, s) \<Longrightarrow> length s \<le> length r"
  using length_dropWhile_le [of P "tl r"] by (auto simp: number_text_def length_dropWhile_le split: if_splits)

lemma parse_offset_le: "parse_offset base r = Inr (op, s) \<Longrightarrow> length s \<le> length r"
  by (auto simp: parse_offset_def Let_def split: prod.splits if_splits dest!: accept_le number_text_le)


text \<open>An operand takes at least one character, which is also why the parser ends.\<close>

lemma parse_imm_less:
  assumes "peek r0 = c" and "isdigit c \<or> c = CHR ''-''"
  shows "length (snd (parse_imm (ws r0))) < length (ws r0)"
proof -
  have "c \<noteq> CHR 0x00" using assms(2) by (auto simp: isdigit_def)
  then obtain s where s: "ws r0 = c # s" using assms(1) peek_cases [of r0] by auto
  have "length (dropWhile P s) < Suc (length s)" for P using length_dropWhile_le [of P s] by (simp add: less_Suc_eq_le)
  with assms(2) show ?thesis
    by (auto simp: parse_imm_def number_text_def s isalnum_def isdigit_def)
qed

lemma parse_named_less:
  assumes "peek r0 = c" and "word_start c"
  shows "length (snd (parse_named (ws r0))) < length (ws r0)"
proof -
  have "c \<noteq> CHR 0x00" using assms(2) by (auto simp: word_start_def isalpha_def)
  then obtain s where s: "ws r0 = c # s" using assms(1) peek_cases [of r0] by auto
  have "length (dropWhile word_char s) < Suc (length s)" using length_dropWhile_le [of word_char s] by (simp add: less_Suc_eq_le)
  with assms(2) show ?thesis by (auto simp: parse_named_def s word_char_def word_start_def isalnum_def)
qed

lemma parse_consumes_dom:
  shows "parse_operand_parse_regs_dom (Inl r) \<Longrightarrow> parse_operand r = Inr (op, s) \<Longrightarrow> length s < length r"
    and "parse_operand_parse_regs_dom (Inr (ns, r)) \<Longrightarrow> parse_regs ns r = Inr (ms, s) \<Longrightarrow> length s < length r"
proof (induction r and ns r arbitrary: op s and ms s rule: parse_operand_parse_regs.pinduct)
  case (1 r0)
  define c where "c = peek r0"
  have le: "length (ws r0) \<le> length r0" by (rule length_ws)
  have tl: "length (tl (ws r0)) < length r0" if "c \<noteq> CHR 0x00" using tl_ws_less that by (simp add: c_def)
  consider (reg) "c = CHR ''%'' \<or> c = CHR ''$''" | (neg) "c = CHR ''!''" | (mem) "c = CHR ''[''" | (vec) "c = CHR ''{''"
    | (imm) "isdigit c \<or> c = CHR ''-''" | (named) "\<not> isdigit c" "word_start c"
    | (none) "c \<noteq> CHR ''%''" "c \<noteq> CHR ''$''" "c \<noteq> CHR ''!''" "c \<noteq> CHR ''[''" "c \<noteq> CHR ''{''" "\<not> isdigit c" "c \<noteq> CHR ''-''" "\<not> word_start c"
    by blast
  then show ?case
  proof cases
    case reg
    then have "parse_register (tl (ws r0)) = Inr (op, s)"
      using 1(1,5) by (auto simp: parse_operand.psimps c_def [symmetric])
    from parse_register_le [OF this] show ?thesis using tl reg by auto
  next
    case neg
    then obtain op' where "parse_operand (tl (ws r0)) = Inr (op', s)"
      using 1(1,5) by (auto simp: parse_operand.psimps c_def [symmetric] split: sum.splits)
    with 1(2) [OF refl refl _ _ this] neg tl show ?thesis by (simp add: c_def [symmetric])
  next
    case mem
    then obtain base t where b: "parse_operand (tl (ws r0)) = Inr (base, t)" and o: "parse_offset base t = Inr (op, s)"
      using 1(1,5) by (auto simp: parse_operand.psimps c_def [symmetric] split: sum.splits)
    have "length t < length (tl (ws r0))" using 1(3) [OF refl refl _ _ _ b] mem by (simp add: c_def [symmetric])
    with parse_offset_le [OF o] mem tl show ?thesis by simp
  next
    case vec
    then obtain ns where b: "parse_regs [] (tl (ws r0)) = Inr (ns, s)"
      using 1(1,5) by (auto simp: parse_operand.psimps c_def [symmetric] split: sum.splits)
    have "length s < length (tl (ws r0))" using 1(4) [OF refl refl _ _ _ _ b] vec by (simp add: c_def [symmetric])
    with vec tl show ?thesis by simp
  next
    case imm
    then have "c \<noteq> CHR ''%''" "c \<noteq> CHR ''$''" "c \<noteq> CHR ''!''" "c \<noteq> CHR ''[''" "c \<noteq> CHR ''{''"
      by (auto simp: isdigit_def)
    with imm have "parse_imm (ws r0) = (op, s)"
      using 1(1,5) by (simp add: parse_operand.psimps c_def [symmetric])
    with parse_imm_less [of r0, OF c_def [symmetric] imm] le show ?thesis by simp
  next
    case named
    have "c \<noteq> CHR ''%''" "c \<noteq> CHR ''$''" "c \<noteq> CHR ''!''" "c \<noteq> CHR ''[''" "c \<noteq> CHR ''{''" "c \<noteq> CHR ''-''"
      using named(2) by (auto simp: word_start_def isalpha_def)
    with named have "parse_named (ws r0) = (op, s)"
      using 1(1,5) by (simp add: parse_operand.psimps c_def [symmetric])
    with parse_named_less [of r0, OF c_def [symmetric] named(2)] le show ?thesis by simp
  next
    case none
    then show ?thesis using 1(1,5) by (simp add: parse_operand.psimps c_def [symmetric])
  qed
next
  case (2 ns r)
  from 2(1,4) obtain e t more u where e: "parse_operand r = Inr (e, t)" "o_kind e = Reg" and m: "accept (CHR '','') t = (more, u)"
    by (cases "accept (CHR '','') (snd (projr (parse_operand r)))") (auto simp: parse_regs.psimps split: sum.splits if_splits)
  have t: "length t < length r" using 2(2) [OF e(1)] .
  show ?case
  proof (cases more)
    case True
    then have "parse_regs (ns @ [o_reg e]) u = Inr (ms, s)" using 2(1,4) e m by (simp add: parse_regs.psimps)
    with 2(3) [OF e(1) refl _ refl m [symmetric] refl] e(2) True have "length s < length u" by simp
    with t accept_le [OF m] show ?thesis by simp
  next
    case False
    then have "accept (CHR ''}'') u = (True, s)" using 2(1,4) e m by (auto simp: parse_regs.psimps split: prod.splits if_splits)
    with t accept_le [OF m] accept_le show ?thesis by fastforce
  qed
qed

lemma ws_drop: "CHR ''!'' = peek r \<or> CHR ''['' = peek r \<or> CHR ''{'' = peek r \<Longrightarrow> length (ws r) - Suc 0 < length r"
proof -
  assume "CHR ''!'' = peek r \<or> CHR ''['' = peek r \<or> CHR ''{'' = peek r"
  then have "peek r \<noteq> CHR 0x00" by (elim disjE) (drule sym, simp)+
  from tl_ws_less [OF this] show ?thesis by simp
qed

lemma ws_drop2: "CHR ''{'' = peek r \<Longrightarrow> Suc (2 * (length (ws r) - Suc 0)) < 2 * length r"
  using ws_drop [of r] by linarith

lemma element_less:
  "(True, v) = accept c t \<Longrightarrow> parse_operand r = Inr (e, t) \<Longrightarrow> parse_operand_parse_regs_dom (Inl r) \<Longrightarrow> length v < length r"
  using parse_consumes_dom(1) [of r e t] accept_le [of c t True v] by simp

lemma parse_terminates: "All parse_operand_parse_regs_dom"
  by (relation "measure (\<lambda>x. case x of Inl r \<Rightarrow> 2 * length r | Inr (ns, r) \<Rightarrow> 2 * length r + 1)")
    (auto intro: ws_drop ws_drop2 element_less)


termination parse_operand by (rule parse_terminates)

declare parse_operand.simps [simp del] parse_regs.simps [simp del]

lemma parse_operand_less: "parse_operand r = Inr (op, s) \<Longrightarrow> length s < length r"
  by (rule parse_consumes_dom(1) [OF spec [OF parse_terminates]])

subsection \<open>\<open>parsePtxAsm\<close>\<close>

text \<open>A directive is skipped up to the semicolon that ends it.\<close>

function skip_directive :: "string \<Rightarrow> string" where
  "skip_directive r = (if \<not> eof r \<and> peek r \<noteq> CHR '';'' then skip_directive (tl (ws r)) else ws r)"
  by pat_completeness auto

lemma tl_ws_shorter: "\<not> eof r \<Longrightarrow> length (tl (ws r)) < length r"
  using length_ws [of r] by (cases "ws r") (simp_all add: eof_def)

termination skip_directive by (relation "measure length") (use tl_ws_shorter in auto)

declare skip_directive.simps [simp del]

text \<open>The pieces of a word between its dots; the first that is not empty is the mnemonic.\<close>

fun split_dots :: "string \<Rightarrow> string list" where
  "split_dots [] = [[]]"
| "split_dots (c # cs) =
     (if c = CHR ''.'' then [] # split_dots cs else (c # hd (split_dots cs)) # tl (split_dots cs))"

definition word_pieces :: "string \<Rightarrow> string list" where
  "word_pieces w = filter (\<lambda>p. p \<noteq> []) (split_dots w)"

definition parse_guard :: "string \<Rightarrow> ptx_error + ptx_instr \<times> string" where
  "parse_guard r =
     (let (at, r) = accept (CHR ''@'') r in
      if \<not> at then Inr (instr0, r)
      else
        let (ng, r) = accept (CHR ''!'') r in
        case parse_operand r of
          Inl (Rejected e) \<Rightarrow> Inl (Rejected (''bad predicate: '' @ e))
        | Inl e \<Rightarrow> Inl e
        | Inr (p, r) \<Rightarrow>
            if o_kind p = Reg then Inr (instr0\<lparr>i_pred := o_reg p, i_predNeg := ng\<rparr>, r)
            else if o_kind p = Named then Inr (instr0\<lparr>i_predName := o_name p, i_predNeg := ng\<rparr>, r)
            else Inl (Rejected ''bad predicate: ''))"

function parse_ops :: "ptx_operand list \<Rightarrow> string \<Rightarrow> ptx_error + ptx_operand list \<times> string" where
  "parse_ops ops r =
     (case parse_operand r of
        Inl e \<Rightarrow> Inl e
      | Inr (op, r) \<Rightarrow>
          let ops = ops @ [op]; (more, r) = accept (CHR '','') r
          in if more then parse_ops ops r else Inr (ops, r))"
  by pat_completeness auto

lemma next_operand_less: "(True, v) = accept c t \<Longrightarrow> parse_operand r = Inr (e, t) \<Longrightarrow> length v < length r"
  using parse_operand_less [of r e t] accept_le [of c t True v] by simp

termination parse_ops by (relation "measure (\<lambda>(ops, r). length r)") (auto intro: next_operand_less)

declare parse_ops.simps [simp del]

definition in_text :: "string \<Rightarrow> ptx_error \<Rightarrow> ptx_error" where
  "in_text text e = (case e of Rejected m \<Rightarrow> Rejected (m @ '' in: '' @ text) | Atoi_undefined \<Rightarrow> Atoi_undefined)"

definition parse_instr :: "string \<Rightarrow> string \<Rightarrow> ptx_error + ptx_instr \<times> string" where
  "parse_instr text r =
     (case parse_guard r of
        Inl e \<Rightarrow> Inl e
      | Inr (i, r) \<Rightarrow>
          let (word, r) = ident r in
          if word = [] then
            Inl (Rejected (''expected mnemonic at offset '' @ to_string (length text - length r) @ '' in: '' @ text))
          else
            let i = (case word_pieces word of [] \<Rightarrow> i | m # ms \<Rightarrow> i\<lparr>i_mnemonic := m, i_mods := ms\<rparr>) in
            case (if \<not> eof r \<and> peek r \<noteq> CHR '';'' then parse_ops [] r else Inr ([], r)) of
              Inl e \<Rightarrow> Inl (in_text text e)
            | Inr (ops, r) \<Rightarrow>
                let i = i\<lparr>i_ops := ops\<rparr> in
                if eof r then Inr (i, ws r)
                else
                  let (semi, r) = accept (CHR '';'') r in
                  if \<not> semi \<and> peek r \<noteq> CHR ''}'' then Inl (Rejected (''expected ; after instruction in: '' @ text))
                  else Inr (i, r))"

lemma parse_guard_le: "parse_guard r = Inr (i, s) \<Longrightarrow> length s \<le> length r"
proof (cases "accept (CHR ''@'') r")
  case (Pair at t)
  obtain ng u where u: "accept (CHR ''!'') t = (ng, u)" by (cases "accept (CHR ''!'') t")
  assume "parse_guard r = Inr (i, s)"
  then have "s = t \<or> (\<exists>p. parse_operand u = Inr (p, s))"
    by (auto simp: parse_guard_def Pair u split: if_splits sum.splits ptx_error.splits)
  then show ?thesis using accept_le [OF Pair] accept_le [OF u] parse_operand_less [of u] by fastforce
qed

lemma parse_ops_less: "parse_ops ops r = Inr (ps, s) \<Longrightarrow> length s < length r"
proof (induction ops r arbitrary: ps s rule: parse_ops.induct)
  case (1 ops r)
  from 1(2) obtain op t where o: "parse_operand r = Inr (op, t)"
    by (auto simp: parse_ops.simps [of ops r] split: sum.splits)
  obtain more u where m: "accept (CHR '','') t = (more, u)" by (cases "accept (CHR '','') t")
  have t: "length u < length r" using parse_operand_less [OF o] accept_le [OF m] by simp
  show ?case
  proof (cases more)
    case True
    then have "parse_ops (ops @ [op]) u = Inr (ps, s)" using 1(2) by (simp add: parse_ops.simps [of ops r] o m)
    with 1(1) [OF o refl refl m [symmetric] refl] True t show ?thesis by simp
  next
    case False
    then show ?thesis using 1(2) t by (simp add: parse_ops.simps [of ops r] o m)
  qed
qed

lemma parse_instr_less: "parse_instr text r = Inr (i, s) \<Longrightarrow> length s < length r"
proof -
  assume run: "parse_instr text r = Inr (i, s)"
  then obtain g t where g: "parse_guard r = Inr (g, t)" by (auto simp: parse_instr_def split: sum.splits)
  obtain w u where w: "ident t = (w, u)" by (cases "ident t")
  have w0: "w \<noteq> []" using run by (auto simp: parse_instr_def g w)
  have "length u < length (ws t)"
  proof -
    have "w @ u = ws t" using w by (auto simp: ident_def Let_def)
    then have "length w + length u = length (ws t)" by (metis length_append)
    with w0 show ?thesis by (cases w) simp_all
  qed
  then have u: "length u < length r" using length_ws [of t] parse_guard_le [OF g] by simp
  obtain ops v where ops: "(if \<not> eof u \<and> peek u \<noteq> CHR '';'' then parse_ops [] u else Inr ([], u)) = Inr (ops, v)"
    using run w0 by (cases "if \<not> eof u \<and> peek u \<noteq> CHR '';'' then parse_ops [] u else Inr ([], u)") (auto simp: parse_instr_def g w)
  have v: "length v \<le> length u" using ops parse_ops_less [of "[]" u ops v] by (auto split: if_splits)
  have "s = ws v \<or> (\<exists>b. accept (CHR '';'') v = (b, s))"
    using run w0 ops by (cases "accept (CHR '';'') v") (auto simp: parse_instr_def g w Let_def split: if_splits)
  then have "length s \<le> length v" using length_ws [of v] accept_le [of _ v] by auto
  with u v show ?thesis by simp
qed

function parse_loop :: "string \<Rightarrow> ptx_instr list \<Rightarrow> string \<Rightarrow> ptx_error + ptx_instr list" where
  "parse_loop text out r =
     (if eof r then (if out = [] then Inl (Rejected ''empty asm'') else Inr out)
      else if peek r = CHR '';'' \<or> peek r = CHR ''{'' \<or> peek r = CHR ''}'' then parse_loop text out (tl (ws r))
      else if peek r = CHR ''.'' then parse_loop text out (skip_directive r)
      else case parse_instr text r of
             Inl e \<Rightarrow> Inl e
           | Inr (i, r) \<Rightarrow> parse_loop text (out @ [i]) r)"
  by pat_completeness auto

lemma skip_directive_le: "length (skip_directive r) \<le> length r"
proof (induction r rule: skip_directive.induct)
  case (1 r)
  show ?case
  proof (cases "\<not> eof r \<and> peek r \<noteq> CHR '';''")
    case True
    then show ?thesis using 1 tl_ws_shorter [of r] by (simp add: skip_directive.simps [of r])
  next
    case False
    then have "skip_directive r = ws r" unfolding skip_directive.simps [of r] by (rule if_not_P)
    then show ?thesis using length_ws [of r] by simp
  qed
qed

lemma skip_directive_less: "\<not> eof r \<Longrightarrow> peek r = CHR ''.'' \<Longrightarrow> length (skip_directive r) < length r"
  using tl_ws_shorter [of r] skip_directive_le [of "tl (ws r)"] by (simp add: skip_directive.simps [of r])

termination parse_loop
  by (relation "measure (\<lambda>(text, out, r). length r)")
    (use tl_ws_shorter skip_directive_less parse_instr_less in auto)

declare parse_loop.simps [simp del]

definition parsePtxAsm :: "string \<Rightarrow> ptx_error + ptx_instr list" where
  "parsePtxAsm text = parse_loop text [] text"

definition ptxIsPerThreadAlu :: "string \<Rightarrow> bool" where
  "ptxIsPerThreadAlu m \<longleftrightarrow> m \<in> set [
     ''add'', ''sub'', ''mul'', ''mad'', ''mul24'', ''mad24'', ''sad'', ''div'', ''rem'', ''abs'', ''neg'', ''min'',
     ''max'', ''fma'', ''rcp'', ''sqrt'',
     ''rsqrt'', ''sin'', ''cos'', ''lg2'', ''ex2'', ''tanh'', ''copysign'', ''testp'', ''cvt'', ''mov'', ''and'',
     ''or'', ''xor'', ''not'', ''cnot'',
     ''lop3'', ''shf'', ''shl'', ''shr'', ''bfe'', ''bfi'', ''bfind'', ''brev'', ''clz'', ''popc'', ''prmt'', ''fns'',
     ''set'', ''setp'', ''selp'', ''slct'']"

subsection \<open>Well-formed instructions and their text\<close>

text \<open>\<open>lo\<close> is the least register number of the base of an address: \<open>0\<close> in a printable one.\<close>

definition word_ok :: "string \<Rightarrow> bool" where
  "word_ok w \<longleftrightarrow> w \<noteq> [] \<and> word_start (hd w) \<and> list_all word_char w"

definition reg_ok :: "int \<Rightarrow> int \<Rightarrow> bool" where
  "reg_ok lo n \<longleftrightarrow> lo \<le> n \<and> n < 2 ^ 31"

definition imm_ok :: "int \<Rightarrow> bool" where
  "imm_ok n \<longleftrightarrow> - (2 ^ 63) \<le> n \<and> n < 2 ^ 63"

definition operand_ok :: "int \<Rightarrow> ptx_operand \<Rightarrow> bool" where
  "operand_ok lo op \<longleftrightarrow>
     (case o_kind op of
        Reg \<Rightarrow> reg_ok 0 (o_reg op) \<and> op = operand0\<lparr>o_reg := o_reg op, o_negated := o_negated op\<rparr>
      | Imm \<Rightarrow> imm_ok (o_imm op) \<and> op = operand0\<lparr>o_kind := Imm, o_imm := o_imm op, o_negated := o_negated op\<rparr>
      | Mem \<Rightarrow> reg_ok lo (o_reg op) \<and> imm_ok (o_imm op) \<and>
          op = operand0\<lparr>o_kind := Mem, o_reg := o_reg op, o_imm := o_imm op, o_negated := o_negated op\<rparr>
      | Vec \<Rightarrow> o_regs op \<noteq> [] \<and> list_all (reg_ok 0) (o_regs op) \<and>
          op = operand0\<lparr>o_kind := Vec, o_regs := o_regs op, o_negated := o_negated op\<rparr>
      | Named \<Rightarrow> word_ok (o_name op) \<and> op = operand0\<lparr>o_kind := Named, o_name := o_name op, o_negated := o_negated op\<rparr>)"

definition piece_ok :: "string \<Rightarrow> bool" where
  "piece_ok p \<longleftrightarrow> p \<noteq> [] \<and> list_all (\<lambda>c. ident_char c \<and> c \<noteq> CHR ''.'') p"

definition guard_ok :: "ptx_instr \<Rightarrow> bool" where
  "guard_ok i \<longleftrightarrow>
     (if i_predName i \<noteq> [] then i_pred i = - 1 \<and> word_ok (i_predName i)
      else reg_ok 0 (i_pred i) \<or> i_pred i = - 1 \<and> \<not> i_predNeg i)"

definition instr_ok :: "ptx_instr \<Rightarrow> bool" where
  "instr_ok i \<longleftrightarrow> guard_ok i \<and> list_all piece_ok (i_mnemonic i # i_mods i) \<and> list_all (operand_ok 0) (i_ops i)"

definition print_int :: "int \<Rightarrow> string" where
  "print_int n = (if n < 0 then CHR ''-'' # to_string (nat (- n)) else to_string (nat n))"

definition print_reg :: "int \<Rightarrow> string" where
  "print_reg n = CHR ''%'' # to_string (nat n)"

fun commas :: "string list \<Rightarrow> string" where
  "commas [] = []"
| "commas [s] = s"
| "commas (s # ss) = s @ '','' @ commas ss"

definition print_operand :: "ptx_operand \<Rightarrow> string" where
  "print_operand op =
     (if o_negated op then ''!'' else []) @
     (case o_kind op of
        Reg \<Rightarrow> print_reg (o_reg op)
      | Imm \<Rightarrow> print_int (o_imm op)
      | Mem \<Rightarrow> ''['' @ print_reg (o_reg op) @ (if o_imm op < 0 then [] else ''+'') @ print_int (o_imm op) @ '']''
      | Vec \<Rightarrow> ''{'' @ commas (map print_reg (o_regs op)) @ ''}''
      | Named \<Rightarrow> o_name op)"

definition print_guard :: "ptx_instr \<Rightarrow> string" where
  "print_guard i =
     (if \<not> predicated i then []
      else ''@'' @ (if i_predNeg i then ''!'' else []) @
        (if 0 \<le> i_pred i then print_reg (i_pred i) else i_predName i) @ '' '')"

definition print_instr :: "ptx_instr \<Rightarrow> string" where
  "print_instr i =
     print_guard i @ full i @ (if i_ops i = [] then [] else '' '' @ commas (map print_operand (i_ops i))) @ '';''"

subsection \<open>Reading numbers and words back\<close>

definition stops :: "string \<Rightarrow> bool" where
  "stops r \<longleftrightarrow> r = [] \<or> \<not> word_char (hd r) \<and> hd r \<noteq> CHR ''.''"

lemma run_of:
  assumes "list_all P s" and "r = [] \<or> \<not> P (hd r)"
  shows "takeWhile P (s @ r) = s" and "dropWhile P (s @ r) = r"
proof -
  have "\<forall>c \<in> set s. P c" using assms(1) by (simp add: list_all_iff)
  moreover have "takeWhile P r = [] \<and> dropWhile P r = r" using assms(2) by (cases r) simp_all
  ultimately show "takeWhile P (s @ r) = s" "dropWhile P (s @ r) = r" by simp_all
qed

lemma digits_list: "list_all isdigit (to_string n)"
  by (simp add: list_all_iff to_string_digits)

lemma digit_kinds [simp]: "isdigit c \<Longrightarrow> isalnum c" "isdigit c \<Longrightarrow> word_char c"
  by (simp_all add: isalnum_def word_char_def)

lemma any_digit_digit: "isdigit c \<Longrightarrow> any_digit c = digit_val c \<and> any_digit c < 10"
  by (auto simp: isdigit_def any_digit_def digit_val_def Let_def)

lemma base_val_to_string: "base_val 10 (to_string n) = n"
proof -
  have "foldl (\<lambda>v c. 10 * v + any_digit c) a s = foldl (\<lambda>v c. 10 * v + digit_val c) a s" if "list_all isdigit s" for a s
    using that by (induction s arbitrary: a) (simp_all add: any_digit_digit)
  moreover have w: "takeWhile (\<lambda>c. any_digit c < 10) (to_string n) = to_string n"
    using any_digit_digit to_string_digits by (intro takeWhile_eq_all_conv [THEN iffD2]) blast
  ultimately show ?thesis
    using digits_val_to_string [of n] digits_list [of n] unfolding base_val_def digits_val_def w by metis
qed

lemma to_string_first: "0 < n \<Longrightarrow> hd (to_string n) \<noteq> CHR ''0''"
proof (induction n rule: to_string.induct)
  case (1 n)
  show ?case
  proof (cases "n < 10")
    case True
    have "digit_char n = CHR ''0'' \<Longrightarrow> n = 0"
      using of_char_digit_char [OF True] by auto
    with True 1(2) show ?thesis by (auto simp: to_string.simps [of n])
  next
    case False
    then show ?thesis using 1(1) [OF False] by (simp add: to_string.simps [of n] hd_append)
  qed
qed

lemma to_string_0: "to_string 0 = ''0''"
proof -
  have "digit_char 0 = CHR ''0''" by (simp add: digit_char_def char_of_def bit_0)
  then show ?thesis by (simp add: to_string.simps [of 0])
qed

lemma strtoll_print_int:
  assumes "imm_ok n"
  shows "strtoll (print_int n) = n"
proof -
  define v where "v = nat (if n < 0 then - n else n)"
  have sp: "dropWhile isspace (print_int n) = print_int n"
  proof (cases "n < 0")
    case True
    then show ?thesis by (simp add: print_int_def isspace_def)
  next
    case False
    then show ?thesis using dropWhile_isspace_to_string [of "nat n" "[]"] by (simp add: print_int_def)
  qed
  have val: "unsigned_val (to_string v) = v"
  proof (cases "v = 0")
    case True
    then show ?thesis by (simp add: unsigned_val_def to_string_0 base_val_def any_digit_def)
  next
    case False
    then show ?thesis using to_string_first [of v] base_val_to_string [of v] by (simp add: unsigned_val_def)
  qed
  show ?thesis
  proof (cases "n < 0")
    case True
    then have p: "print_int n = CHR ''-'' # to_string v" by (simp add: print_int_def v_def)
    show ?thesis using assms True sp val unfolding p strtoll_def Let_def by (simp add: v_def imm_ok_def)
  next
    case False
    then have p: "print_int n = to_string v" by (simp add: print_int_def v_def)
    show ?thesis using assms False sp val unfolding p strtoll_def Let_def by (simp add: v_def imm_ok_def)
  qed
qed


lemma print_int_head: "\<exists>c s. print_int n = c # s \<and> (isdigit c \<or> c = CHR ''-'')"
  using hd_to_string [of "nat n"] by (cases "to_string (nat n)") (auto simp: print_int_def)

lemma word_char_not [simp]: "\<not> word_char (CHR '','')" "\<not> word_char (CHR '';'')" "\<not> word_char (CHR ''}'')" "\<not> word_char (CHR '']'')"
  "\<not> word_char (CHR '' '')" "\<not> word_char (CHR ''+'')" "\<not> word_char (CHR ''-'')" "\<not> word_char (CHR ''.'')"
  by (simp_all add: word_char_def isalnum_def isalpha_def isdigit_def)

lemma stops_simps [simp]: "stops []" "stops (c # r) \<longleftrightarrow> \<not> word_char c \<and> c \<noteq> CHR ''.''"
  by (simp_all add: stops_def)

lemma number_text_print:
  assumes "r = [] \<or> \<not> P (hd r)" and "\<And>c. isdigit c \<Longrightarrow> P c" and "\<not> P (CHR ''-'')"
  shows "number_text P (print_int n @ r) = (print_int n, r)"
proof (cases "n < 0")
  case True
  then show ?thesis
    using run_of [of P "to_string (nat (- n))" r] assms digits_list [of "nat (- n)"]
    by (simp add: number_text_def print_int_def list_all_iff)
next
  case False
  obtain c s where c: "to_string (nat n) = c # s" by (cases "to_string (nat n)") simp_all
  have "c \<noteq> CHR ''-''" using hd_to_string_not(1) [of "nat n"] c by simp
  with False show ?thesis
    using run_of [of P "to_string (nat n)" r] assms digits_list [of "nat n"] c
    by (simp add: number_text_def print_int_def list_all_iff)
qed

lemma ws_start: "\<not> isspace c \<Longrightarrow> ws (c # s) = c # s"
  by (simp add: ws_def)

lemma peek_start: "\<not> isspace c \<Longrightarrow> peek (c # s) = c"
  by (simp add: peek_def ws_start)

lemma not_space [simp]: "\<not> isspace (CHR ''%'')" "\<not> isspace (CHR ''!'')" "\<not> isspace (CHR ''['')" "\<not> isspace (CHR ''{'')"
  "\<not> isspace (CHR '','')" "\<not> isspace (CHR ''}'')" "\<not> isspace (CHR '']'')" "\<not> isspace (CHR ''+'')" "\<not> isspace (CHR ''-'')"
  "\<not> isspace (CHR '';'')" "\<not> isspace (CHR ''@'')" "isspace (CHR '' '')"
  by (simp_all add: isspace_def)

lemma parse_reg:
  assumes "reg_ok 0 n" and "stops r"
  shows "parse_operand (print_reg n @ r) = Inr (operand0\<lparr>o_reg := n\<rparr>, r)"
proof -
  have d: "r = [] \<or> \<not> isdigit (hd r)" using assms(2) by (auto simp: stops_def)
  obtain c s where c: "to_string (nat n) = c # s" by (cases "to_string (nat n)") simp_all
  have "isdigit c" using hd_to_string [of "nat n"] c by simp
  then have w: "\<not> word_start c" by (auto simp: word_start_def isalpha_def isdigit_def)
  have "takeWhile isdigit (to_string (nat n) @ r) = to_string (nat n)" "dropWhile isdigit (to_string (nat n) @ r) = r"
    using run_of [OF digits_list d] by simp_all
  moreover have "operand0\<lparr>o_kind := Reg, o_reg := n\<rparr> = operand0\<lparr>o_reg := n\<rparr>" by (simp add: operand0_def)
  ultimately have "parse_register (to_string (nat n) @ r) = Inr (operand0\<lparr>o_reg := n\<rparr>, r)"
    using assms(1) w c digits_val_to_string [of "nat n"] by (simp add: parse_register_def atoi_def reg_ok_def nat_less_iff)
  then show ?thesis
    by (simp add: parse_operand.simps print_reg_def peek_start ws_start)
qed

lemma parse_word:
  assumes "word_ok w" and "stops r"
  shows "parse_operand (w @ r) = Inr (operand0\<lparr>o_kind := Named, o_name := w\<rparr>, r)"
proof -
  from assms(1) obtain c s where w: "w = c # s" "word_start c" by (cases w) (auto simp: word_ok_def)
  have ne: "c \<noteq> CHR ''%''" "c \<noteq> CHR ''$''" "c \<noteq> CHR ''!''" "c \<noteq> CHR ''[''" "c \<noteq> CHR ''{''" "\<not> isdigit c" "c \<noteq> CHR ''-''" "\<not> isspace c"
    using w(2) by (auto simp: word_start_def isalpha_def isdigit_def isspace_def)
  have "takeWhile word_char (w @ r) = w" "dropWhile word_char (w @ r) = r"
    using run_of [of word_char w r] assms by (auto simp: word_ok_def stops_def)
  then have "parse_named (w @ r) = (operand0\<lparr>o_kind := Named, o_name := w\<rparr>, r)" by (simp add: parse_named_def)
  then show ?thesis using ne w by (simp add: parse_operand.simps peek_start ws_start)
qed

lemma parse_immediate:
  assumes "imm_ok n" and "stops r"
  shows "parse_operand (print_int n @ r) = Inr (operand0\<lparr>o_kind := Imm, o_imm := n\<rparr>, r)"
proof -
  obtain c s where c: "print_int n = c # s" "isdigit c \<or> c = CHR ''-''" using print_int_head by blast
  have ne: "c \<noteq> CHR ''%''" "c \<noteq> CHR ''$''" "c \<noteq> CHR ''!''" "c \<noteq> CHR ''[''" "c \<noteq> CHR ''{''" "\<not> isspace c"
    using c(2) by (auto simp: isdigit_def isspace_def)
  have "number_text (\<lambda>c. isalnum c \<or> c = CHR ''.'') (print_int n @ r) = (print_int n, r)"
    using assms(2) by (intro number_text_print) (auto simp: stops_def word_char_def isalnum_def isalpha_def isdigit_def)
  then have "parse_imm (print_int n @ r) = (operand0\<lparr>o_kind := Imm, o_imm := n\<rparr>, r)"
    by (simp add: parse_imm_def strtoll_print_int [OF assms(1)])
  then show ?thesis using ne c by (simp add: parse_operand.simps peek_start ws_start)
qed

lemma parse_address:
  assumes "reg_ok 0 n" and "imm_ok m"
  shows "parse_operand (''['' @ print_reg n @ (if m < 0 then [] else ''+'') @ print_int m @ '']'' @ r) =
    Inr (operand0\<lparr>o_kind := Mem, o_reg := n, o_imm := m\<rparr>, r)"
proof -
  let ?tail = "(if m < 0 then [] else ''+'') @ print_int m @ '']'' @ r"
  have st: "stops ?tail" by (simp add: print_int_def)
  have num: "number_text isalnum (print_int m @ '']'' @ r) = (print_int m, '']'' @ r)"
    by (rule number_text_print) (auto simp: isalnum_def isalpha_def isdigit_def)
  have "parse_offset (operand0\<lparr>o_reg := n\<rparr>) ?tail = Inr (operand0\<lparr>o_kind := Mem, o_reg := n, o_imm := m\<rparr>, r)"
  proof (cases "m < 0")
    case True
    then have p: "print_int m = CHR ''-'' # to_string (nat (- m))" by (simp add: print_int_def)
    have "accept (CHR ''+'') (print_int m @ '']'' @ r) = (False, print_int m @ '']'' @ r)" "peek (print_int m @ '']'' @ r) = CHR ''-''"
      unfolding p by (simp_all add: accept_def peek_start ws_start)
    then show ?thesis using True num strtoll_print_int [OF assms(2)]
      by (simp add: parse_offset_def Let_def accept_def peek_start ws_start operand0_def)
  next
    case False
    have "accept (CHR ''+'') (''+'' @ print_int m @ '']'' @ r) = (True, print_int m @ '']'' @ r)"
      by (simp add: accept_def peek_start ws_start)
    then show ?thesis using False num strtoll_print_int [OF assms(2)]
      by (simp add: parse_offset_def Let_def accept_def peek_start ws_start operand0_def)
  qed
  then show ?thesis using parse_reg [OF assms(1) st]
    by (simp add: parse_operand.simps [of "CHR ''['' # _"] peek_start ws_start)
qed

lemma parse_register_list:
  "ns \<noteq> [] \<Longrightarrow> list_all (reg_ok 0) ns \<Longrightarrow> parse_regs ms (commas (map print_reg ns) @ ''}'' @ r) = Inr (ms @ ns, r)"
proof (induction ns arbitrary: ms)
  case (Cons n ns)
  then have n: "reg_ok 0 n" by simp
  show ?case
  proof (cases ns)
    case Nil
    then show ?thesis using parse_reg [OF n, of "''}'' @ r"]
      by (simp add: parse_regs.simps accept_def peek_start ws_start operand0_def)
  next
    case (Cons k ks)
    then have "commas (map print_reg (n # ns)) @ ''}'' @ r = print_reg n @ '','' @ commas (map print_reg ns) @ ''}'' @ r" by simp
    moreover have "parse_regs (ms @ [n]) (commas (map print_reg ns) @ ''}'' @ r) = Inr (ms @ n # ns, r)"
      using Cons.IH [of "ms @ [n]"] Cons.prems Cons by simp
    ultimately show ?thesis using parse_reg [OF n, of "'','' @ commas (map print_reg ns) @ ''}'' @ r"]
      by (simp add: parse_regs.simps [of ms] accept_def peek_start ws_start operand0_def)
  qed
qed simp


lemma parse_plain_operand:
  assumes "operand_ok 0 op" and "\<not> o_negated op" and "stops r"
  shows "parse_operand (print_operand op @ r) = Inr (op, r)"
proof (cases "o_kind op")
  case Reg
  then have "op = operand0\<lparr>o_reg := o_reg op\<rparr>" "reg_ok 0 (o_reg op)"
    using assms(1,2) by (auto simp: operand_ok_def operand0_def)
  then show ?thesis using parse_reg [OF _ assms(3)] Reg assms(2) by (simp add: print_operand_def)
next
  case Imm
  then have "op = operand0\<lparr>o_kind := Imm, o_imm := o_imm op\<rparr>" "imm_ok (o_imm op)"
    using assms(1,2) by (auto simp: operand_ok_def operand0_def)
  then show ?thesis using parse_immediate [OF _ assms(3)] Imm assms(2) by (simp add: print_operand_def)
next
  case Mem
  then have "op = operand0\<lparr>o_kind := Mem, o_reg := o_reg op, o_imm := o_imm op\<rparr>" "reg_ok 0 (o_reg op)" "imm_ok (o_imm op)"
    using assms(1,2) by (auto simp: operand_ok_def operand0_def)
  then show ?thesis using parse_address [of "o_reg op" "o_imm op" r] Mem assms(2) by (simp add: print_operand_def)
next
  case Vec
  then have "op = operand0\<lparr>o_kind := Vec, o_regs := o_regs op\<rparr>" "o_regs op \<noteq> []" "list_all (reg_ok 0) (o_regs op)"
    using assms(1,2) by (auto simp: operand_ok_def operand0_def)
  then show ?thesis using parse_register_list [of "o_regs op" "[]" r] Vec assms(2)
    by (simp add: print_operand_def parse_operand.simps [of "CHR ''{'' # _"] peek_start ws_start)
next
  case Named
  then have "op = operand0\<lparr>o_kind := Named, o_name := o_name op\<rparr>" "word_ok (o_name op)"
    using assms(1,2) by (auto simp: operand_ok_def operand0_def)
  then show ?thesis using parse_word [OF _ assms(3)] Named assms(2) by (simp add: print_operand_def)
qed

lemma parse_print_operand:
  assumes "operand_ok 0 op" and "stops r"
  shows "parse_operand (print_operand op @ r) = Inr (op, r)"
proof (cases "o_negated op")
  case True
  let ?p = "op\<lparr>o_negated := False\<rparr>"
  have "operand_ok 0 ?p" using assms(1) by (cases op) (auto simp: operand_ok_def operand0_def split: op_kind.splits)
  from parse_plain_operand [OF this _ assms(2)] have "parse_operand (print_operand ?p @ r) = Inr (?p, r)" by simp
  moreover have "print_operand op = ''!'' @ print_operand ?p" using True by (cases "o_kind op") (simp_all add: print_operand_def)
  moreover have "?p\<lparr>o_negated := True\<rparr> = op" using True by simp
  ultimately show ?thesis by (simp add: parse_operand.simps [of "CHR ''!'' # _"] peek_start ws_start)
next
  case False
  with assms show ?thesis by (intro parse_plain_operand)
qed

lemma print_operand_head:
  assumes "operand_ok 0 op"
  obtains c s where "print_operand op = c # s" "\<not> isspace c" "c \<noteq> CHR '';''"
proof -
  have "\<exists>c s. print_operand op = c # s \<and> \<not> isspace c \<and> c \<noteq> CHR '';''"
  proof (cases "o_negated op")
    case False
    show ?thesis
    proof (cases "o_kind op")
      case Imm
      obtain c s where c: "print_int (o_imm op) = c # s" "isdigit c \<or> c = CHR ''-''" using print_int_head by blast
      then show ?thesis using False Imm by (auto simp: print_operand_def isdigit_def isspace_def)
    next
      case Named
      then have "word_ok (o_name op)" using assms by (simp add: operand_ok_def)
      then obtain c s where "o_name op = c # s" "word_start c" by (cases "o_name op") (auto simp: word_ok_def)
      then show ?thesis using False Named by (auto simp: print_operand_def word_start_def isalpha_def isspace_def)
    qed (use False in \<open>simp_all add: print_operand_def print_reg_def\<close>)
  qed (simp add: print_operand_def)
  then show ?thesis using that by blast
qed

lemma parse_operand_ws: "parse_operand (ws r) = parse_operand r"
proof -
  have "ws (ws r) = ws r" by (simp add: ws_def)
  then have "peek (ws r) = peek r" by (simp add: peek_def)
  with \<open>ws (ws r) = ws r\<close> show ?thesis by (simp add: parse_operand.simps [of r] parse_operand.simps [of "ws r"])
qed

lemma parse_print_ops:
  "ops \<noteq> [] \<Longrightarrow> list_all (operand_ok 0) ops \<Longrightarrow>
   parse_ops ps (commas (map print_operand ops) @ '';'' @ r) = Inr (ps @ ops, '';'' @ r)"
proof (induction ops arbitrary: ps)
  case (Cons op ops)
  then have n: "operand_ok 0 op" by simp
  show ?case
  proof (cases ops)
    case Nil
    then show ?thesis using parse_print_operand [OF n, of "'';'' @ r"]
      by (simp add: parse_ops.simps accept_def peek_start ws_start)
  next
    case (Cons k ks)
    then have "commas (map print_operand (op # ops)) @ '';'' @ r =
        print_operand op @ '','' @ commas (map print_operand ops) @ '';'' @ r" by simp
    moreover have "parse_ops (ps @ [op]) (commas (map print_operand ops) @ '';'' @ r) = Inr (ps @ op # ops, '';'' @ r)"
      using Cons.IH [of "ps @ [op]"] Cons.prems Cons by simp
    ultimately show ?thesis using parse_print_operand [OF n, of "'','' @ commas (map print_operand ops) @ '';'' @ r"]
      by (simp add: parse_ops.simps [of ps] accept_def peek_start ws_start)
  qed
qed simp

lemma split_dots_nonempty: "split_dots s \<noteq> []"
  by (induction s) auto

lemma split_dots_piece:
  "list_all (\<lambda>c. c \<noteq> CHR ''.'') p \<Longrightarrow> split_dots (p @ s) = (p @ hd (split_dots s)) # tl (split_dots s)"
  by (induction p) (simp_all add: split_dots_nonempty)

lemma word_pieces_full:
  assumes "list_all piece_ok (i_mnemonic i # i_mods i)"
  shows "word_pieces (full i) = i_mnemonic i # i_mods i"
proof -
  have dots: "list_all piece_ok ps \<Longrightarrow> split_dots (concat (map (\<lambda>m. CHR ''.'' # m) ps)) = [] # ps" for ps
  proof (induction ps)
    case (Cons p ps)
    then have "list_all (\<lambda>c. c \<noteq> CHR ''.'') p" by (simp add: piece_ok_def list_all_iff)
    from split_dots_piece [OF this] Cons show ?case by simp
  qed simp
  have "list_all (\<lambda>c. c \<noteq> CHR ''.'') (i_mnemonic i)" using assms by (simp add: piece_ok_def list_all_iff)
  from split_dots_piece [OF this] dots assms have "split_dots (full i) = i_mnemonic i # i_mods i" by (simp add: full_def)
  then show ?thesis using assms by (auto simp: word_pieces_def piece_ok_def list_all_iff)
qed

lemma full_chars:
  assumes "list_all piece_ok (i_mnemonic i # i_mods i)"
  shows "list_all ident_char (full i)" and "full i \<noteq> []" and "hd (full i) \<noteq> CHR ''.''" and "ident_char (hd (full i))"
proof -
  show "list_all ident_char (full i)"
    using assms by (auto simp: full_def piece_ok_def list_all_iff ident_char_def)
  have "i_mnemonic i \<noteq> []" using assms by (simp add: piece_ok_def)
  then show "full i \<noteq> []" "hd (full i) \<noteq> CHR ''.''" "ident_char (hd (full i))"
    using assms by (auto simp: full_def piece_ok_def list_all_iff)
qed


lemma ident_not [simp]: "ident_char c \<Longrightarrow> \<not> isspace c" "ident_char c \<Longrightarrow> c \<noteq> CHR ''@''" "ident_char c \<Longrightarrow> c \<noteq> CHR '';''"
  "ident_char c \<Longrightarrow> c \<noteq> CHR ''{''" "ident_char c \<Longrightarrow> c \<noteq> CHR ''}''" "ident_char c \<Longrightarrow> c \<noteq> CHR ''!''"
  by (auto simp: ident_char_def isalnum_def isalpha_def isdigit_def isspace_def)

lemma ws_of_start: "s \<noteq> [] \<Longrightarrow> \<not> isspace (hd s) \<Longrightarrow> ws s = s" "s \<noteq> [] \<Longrightarrow> \<not> isspace (hd s) \<Longrightarrow> peek s = hd s"
  by (cases s; simp add: ws_start peek_start)+

lemma parse_print_guard:
  assumes "guard_ok i" and "r \<noteq> []" and "ident_char (hd r)"
  obtains s where "parse_guard (print_guard i @ r) = Inr (instr0\<lparr>i_pred := i_pred i, i_predNeg := i_predNeg i, i_predName := i_predName i\<rparr>, s)"
    and "ws s = r"
proof (cases "predicated i")
  case False
  then have "i_pred i = - 1" "i_predName i = []" "\<not> i_predNeg i"
    using assms(1) by (auto simp: predicated_def guard_ok_def reg_ok_def split: if_splits)
  moreover have "accept (CHR ''@'') r = (False, r)" using assms(2,3) ws_of_start [of r] by (simp add: accept_def)
  ultimately have "parse_guard (print_guard i @ r) = Inr (instr0\<lparr>i_pred := i_pred i, i_predNeg := i_predNeg i, i_predName := i_predName i\<rparr>, r)"
    using False by (simp add: parse_guard_def print_guard_def instr0_def)
  moreover have "ws r = r" using assms(2,3) ws_of_start by simp
  ultimately show ?thesis by (rule that)
next
  case True
  define w where "w = (if 0 \<le> i_pred i then print_reg (i_pred i) else i_predName i)"
  define op where "op = (if 0 \<le> i_pred i then operand0\<lparr>o_reg := i_pred i\<rparr> else operand0\<lparr>o_kind := Named, o_name := i_predName i\<rparr>)"
  have named: "word_ok (i_predName i)" "i_pred i = - 1" if "\<not> 0 \<le> i_pred i"
    using that True assms(1) by (auto simp: predicated_def guard_ok_def split: if_splits)
  have reg: "reg_ok 0 (i_pred i)" "i_predName i = []" if "0 \<le> i_pred i"
    using that assms(1) by (auto simp: guard_ok_def split: if_splits)
  have st: "stops ('' '' @ r)" by simp
  have op: "parse_operand (w @ '' '' @ r) = Inr (op, '' '' @ r)"
    using parse_reg [OF reg(1) st] parse_word [OF named(1) st] by (simp add: w_def op_def)
  have head: "\<exists>c t. w = c # t \<and> \<not> isspace c \<and> c \<noteq> CHR ''!''"
  proof (cases "0 \<le> i_pred i")
    case False
    from named(1) [OF this] obtain c t where "i_predName i = c # t" "word_start c" by (cases "i_predName i") (auto simp: word_ok_def)
    with False show ?thesis by (auto simp: w_def word_start_def isalpha_def isspace_def)
  qed (simp add: w_def print_reg_def)
  have "accept (CHR ''!'') ((if i_predNeg i then ''!'' else []) @ w @ '' '' @ r) = (i_predNeg i, w @ '' '' @ r)"
    using head by (auto simp: accept_def peek_start ws_start)
  moreover have "accept (CHR ''@'') (print_guard i @ r) = (True, (if i_predNeg i then ''!'' else []) @ w @ '' '' @ r)"
    using True by (simp add: print_guard_def w_def accept_def peek_start ws_start)
  ultimately have "parse_guard (print_guard i @ r) = Inr (instr0\<lparr>i_pred := i_pred i, i_predNeg := i_predNeg i, i_predName := i_predName i\<rparr>, '' '' @ r)"
    using op named(2) reg(2) by (cases "0 \<le> i_pred i") (simp_all add: parse_guard_def op_def operand0_def instr0_def)
  moreover have "ws ('' '' @ r) = r" using assms(2,3) ws_of_start [of r] by (simp add: ws_def)
  ultimately show ?thesis by (rule that)
qed

lemma parse_print_instr:
  assumes "instr_ok i"
  shows "parse_instr src (print_instr i @ r) = Inr (i, r)"
proof -
  define ops where "ops = (if i_ops i = [] then [] else '' '' @ commas (map print_operand (i_ops i)))"
  define tail where "tail = ops @ '';'' @ r"
  have pieces: "list_all piece_ok (i_mnemonic i # i_mods i)" using assms by (simp add: instr_ok_def)
  note f = full_chars [OF pieces]
  have p: "print_instr i @ r = print_guard i @ full i @ tail" by (simp add: print_instr_def ops_def tail_def)
  obtain s where g: "parse_guard (print_guard i @ full i @ tail) =
      Inr (instr0\<lparr>i_pred := i_pred i, i_predNeg := i_predNeg i, i_predName := i_predName i\<rparr>, s)" and s: "ws s = full i @ tail"
    using parse_print_guard [of i "full i @ tail"] assms f by (auto simp: instr_ok_def hd_append)
  have "\<not> ident_char (hd tail)" by (simp add: tail_def ops_def ident_char_def isalnum_def isalpha_def isdigit_def)
  with f have w: "ident s = (full i, tail)" using run_of [of ident_char "full i" tail] by (simp add: ident_def s)
  have "(if \<not> eof tail \<and> peek tail \<noteq> CHR '';'' then parse_ops [] tail else Inr ([], tail)) = Inr (i_ops i, '';'' @ r)"
  proof (cases "i_ops i")
    case Nil
    then show ?thesis by (simp add: tail_def ops_def peek_start)
  next
    case (Cons op os)
    let ?printed = "commas (map print_operand (i_ops i)) @ '';'' @ r"
    have all: "list_all (operand_ok 0) (i_ops i)" using assms by (simp add: instr_ok_def)
    then obtain c t where "print_operand op = c # t" "\<not> isspace c" "c \<noteq> CHR '';''"
      using print_operand_head [of op] Cons by auto
    then have "\<exists>t. ?printed = c # t" by (cases os) (simp_all add: Cons)
    then have ws: "ws ?printed = ?printed" "peek ?printed \<noteq> CHR '';''" "ws ?printed \<noteq> []"
      using \<open>\<not> isspace c\<close> \<open>c \<noteq> CHR '';''\<close> by (auto simp: ws_start peek_start)
    have sp: "ws tail = ?printed" using Cons ws(1) by (simp add: tail_def ops_def ws_def)
    then have "peek tail = peek ?printed" using ws(1) by (simp add: peek_def)
    moreover have "parse_ops [] tail = parse_ops [] ?printed"
      using parse_operand_ws [of tail] sp by (simp add: parse_ops.simps [of "[]"])
    ultimately show ?thesis using parse_print_ops [OF _ all, of "[]" r] ws sp Cons by (simp add: eof_def)
  qed
  then show ?thesis using f(2) unfolding p parse_instr_def
    by (simp add: g w word_pieces_full [OF pieces] accept_def peek_start ws_start eof_def instr0_def)
qed

lemma parse_loop_print:
  "list_all instr_ok ins \<Longrightarrow> out @ ins \<noteq> [] \<Longrightarrow>
   parse_loop src out (concat (map print_instr ins)) = Inr (out @ ins)"
proof (induction ins arbitrary: out)
  case Nil
  then show ?case by (simp add: parse_loop.simps [of src out "[]"] eof_def ws_def)
next
  case (Cons i ins)
  let ?r = "concat (map print_instr ins)"
  have i: "instr_ok i" using Cons.prems by simp
  then have pieces: "list_all piece_ok (i_mnemonic i # i_mods i)" by (simp add: instr_ok_def)
  obtain c t where c: "print_instr i = c # t" "c = CHR ''@'' \<or> ident_char c \<and> c \<noteq> CHR ''.''"
    using full_chars(2-4) [OF pieces] by (cases "predicated i"; cases "full i") (simp_all add: print_instr_def print_guard_def)
  have "parse_loop src out (print_instr i @ ?r) = parse_loop src (out @ [i]) ?r"
    using c parse_print_instr [OF i, of src ?r]
    by (auto simp: parse_loop.simps [of src out "c # _"] eof_def ws_start peek_start)
  then show ?case using Cons.IH [of "out @ [i]"] Cons.prems by simp
qed

text \<open>C28: the text of any non-empty list of well-formed instructions is read back as that list.\<close>

theorem parsePtxAsm_print:
  assumes "ins \<noteq> []" and "list_all instr_ok ins"
  shows "parsePtxAsm (concat (map print_instr ins)) = Inr ins"
  using parse_loop_print [OF assms(2), of "[]"] assms(1) by (simp add: parsePtxAsm_def)

definition sample_asm :: "ptx_instr list" where
  "sample_asm =
     [instr0\<lparr>i_mnemonic := ''mma'', i_mods := [''sync'', ''m16n8k16''], i_predName := ''p'', i_predNeg := True,
        i_ops := [operand0\<lparr>o_kind := Vec, o_regs := [0, 1]\<rparr>, operand0\<lparr>o_kind := Mem, o_reg := 2, o_imm := - 16\<rparr>]\<rparr>]"

theorem parsePtxAsm_print_witness: "parsePtxAsm (concat (map print_instr sample_asm)) = Inr sample_asm"
proof (rule parsePtxAsm_print)
  show "list_all instr_ok sample_asm" by code_simp
qed (simp add: sample_asm_def)

subsection \<open>What the parser returns\<close>

text \<open>A parsed instruction: as a printable one, but for an address without a base register (\<open>-1\<close>) and for a
  missing mnemonic.\<close>

definition parsed_ok :: "ptx_instr \<Rightarrow> bool" where
  "parsed_ok i \<longleftrightarrow>
     guard_ok i \<and> (i_mnemonic i = [] \<and> i_mods i = [] \<or> list_all piece_ok (i_mnemonic i # i_mods i)) \<and>
     list_all (operand_ok (- 1)) (i_ops i)"

lemma atoi_range: "atoi ds = Some n \<Longrightarrow> reg_ok 0 n"
  by (auto simp: atoi_def reg_ok_def split: if_splits)

lemma strtoll_range: "imm_ok (strtoll s)"
  by (simp add: strtoll_def imm_ok_def Let_def min_less_iff_disj)

lemma parse_named_ok: "r = c # s \<Longrightarrow> word_start c \<Longrightarrow> operand_ok lo (fst (parse_named r))"
  by (auto simp: parse_named_def operand_ok_def operand0_def word_ok_def word_char_def word_start_def isalnum_def
      list_all_iff dest: set_takeWhileD)

lemma parse_register_ok: "parse_register r = Inr (op, s) \<Longrightarrow> operand_ok lo op"
proof (cases "r \<noteq> [] \<and> word_start (hd r)")
  case True
  assume "parse_register r = Inr (op, s)"
  with True have "op = fst (parse_named r)" by (simp add: parse_register_def)
  with True show ?thesis using parse_named_ok [of r "hd r" "tl r" lo] by simp
next
  case False
  assume "parse_register r = Inr (op, s)"
  with False show ?thesis using atoi_range
    by (auto simp: parse_register_def operand_ok_def operand0_def split: if_splits option.splits)
qed

lemma operand_reg: "operand_ok (- 1) op \<Longrightarrow> reg_ok (- 1) (o_reg op)"
  by (cases op) (auto simp: operand_ok_def operand0_def reg_ok_def split: op_kind.splits)

lemma parse_offset_ok: "parse_offset base r = Inr (op, s) \<Longrightarrow> operand_ok (- 1) base \<Longrightarrow> operand_ok (- 1) op"
  using operand_reg [of base] strtoll_range
  by (auto simp: parse_offset_def Let_def operand_ok_def operand0_def imm_ok_def split: prod.splits if_splits)

lemma parse_ok:
  shows "parse_operand r = Inr (op, s) \<Longrightarrow> operand_ok (- 1) op"
    and "parse_regs ns r = Inr (ms, s) \<Longrightarrow> list_all (reg_ok 0) ns \<Longrightarrow> ms \<noteq> [] \<and> list_all (reg_ok 0) ms"
proof (induction r and ns r arbitrary: op s and ms s rule: parse_operand_parse_regs.induct)
  case (1 r0)
  define c where "c = peek r0"
  consider (reg) "c = CHR ''%'' \<or> c = CHR ''$''" | (neg) "c = CHR ''!''" | (mem) "c = CHR ''[''" | (vec) "c = CHR ''{''"
    | (imm) "c \<notin> set ''%$![{''" "isdigit c \<or> c = CHR ''-''" | (named) "c \<notin> set ''%$![{''" "\<not> isdigit c" "c \<noteq> CHR ''-''" "word_start c"
    | (none) "c \<notin> set ''%$![{''" "\<not> isdigit c" "c \<noteq> CHR ''-''" "\<not> word_start c"
    by auto
  then show ?case
  proof cases
    case reg
    then have "parse_register (tl (ws r0)) = Inr (op, s)" using 1(4) by (auto simp: parse_operand.simps [of r0] c_def [symmetric])
    then show ?thesis by (rule parse_register_ok)
  next
    case neg
    then obtain op' where o: "parse_operand (tl (ws r0)) = Inr (op', s)" "op = op'\<lparr>o_negated := True\<rparr>"
      using 1(4) by (auto simp: parse_operand.simps [of r0] c_def [symmetric] split: sum.splits)
    with 1(1) [OF refl refl _ _ o(1)] neg have "operand_ok (- 1) op'" by (simp add: c_def [symmetric])
    then show ?thesis unfolding o(2) by (cases op') (auto simp: operand_ok_def operand0_def split: op_kind.splits)
  next
    case mem
    then obtain base t where b: "parse_operand (tl (ws r0)) = Inr (base, t)" and o: "parse_offset base t = Inr (op, s)"
      using 1(4) by (auto simp: parse_operand.simps [of r0] c_def [symmetric] split: sum.splits)
    with 1(2) [OF refl refl _ _ _ b] mem have "operand_ok (- 1) base" by (simp add: c_def [symmetric])
    with o show ?thesis by (rule parse_offset_ok)
  next
    case vec
    then obtain ns where b: "parse_regs [] (tl (ws r0)) = Inr (ns, s)" "op = operand0\<lparr>o_kind := Vec, o_regs := ns\<rparr>"
      using 1(4) by (auto simp: parse_operand.simps [of r0] c_def [symmetric] split: sum.splits)
    with 1(3) [OF refl refl _ _ _ _ b(1)] vec show ?thesis by (simp add: c_def [symmetric] operand_ok_def operand0_def)
  next
    case imm
    then have "op = fst (parse_imm (ws r0))"
      using 1(4) by (auto simp: parse_operand.simps [of r0] c_def [symmetric])
    then show ?thesis using strtoll_range by (auto simp: parse_imm_def operand_ok_def operand0_def split: prod.splits)
  next
    case named
    then have p: "op = fst (parse_named (ws r0))"
      using 1(4) by (auto simp: parse_operand.simps [of r0] c_def [symmetric])
    have "c \<noteq> CHR 0x00" using named(4) by (auto simp: word_start_def isalpha_def)
    then obtain t where "ws r0 = c # t" using peek_cases [of r0] by (auto simp: c_def)
    with p named(4) show ?thesis using parse_named_ok by simp
  next
    case none
    then show ?thesis using 1(4) by (simp add: parse_operand.simps [of r0] c_def [symmetric])
  qed
next
  case (2 ns r)
  obtain e t where e: "parse_operand r = Inr (e, t)" "o_kind e = Reg"
    using 2(3) by (auto simp: parse_regs.simps [of ns r] split: sum.splits if_splits)
  obtain more u where m: "accept (CHR '','') t = (more, u)" by (cases "accept (CHR '','') t")
  have "reg_ok 0 (o_reg e)" using 2(1) [OF e(1)] e(2) by (simp add: operand_ok_def)
  with 2(4) have ns: "list_all (reg_ok 0) (ns @ [o_reg e])" by simp
  show ?case
  proof (cases more)
    case True
    then have "parse_regs (ns @ [o_reg e]) u = Inr (ms, s)" using 2(3) e m by (simp add: parse_regs.simps [of ns r])
    with 2(2) [OF e(1) refl _ refl m [symmetric] refl] e(2) True ns show ?thesis by simp
  next
    case False
    then have "ms = ns @ [o_reg e]" using 2(3) e m by (auto simp: parse_regs.simps [of ns r] split: prod.splits if_splits)
    with ns show ?thesis by simp
  qed
qed

lemma parse_guard_ok: "parse_guard r = Inr (i, s) \<Longrightarrow> guard_ok i \<and> i_mnemonic i = [] \<and> i_mods i = [] \<and> i_ops i = []"
proof -
  obtain at t where a: "accept (CHR ''@'') r = (at, t)" by (cases "accept (CHR ''@'') r")
  obtain ng u where n: "accept (CHR ''!'') t = (ng, u)" by (cases "accept (CHR ''!'') t")
  assume run: "parse_guard r = Inr (i, s)"
  show ?thesis
  proof (cases at)
    case False
    with run show ?thesis by (auto simp: parse_guard_def a guard_ok_def instr0_def)
  next
    case True
    then obtain p where p: "parse_operand u = Inr (p, s)"
      "o_kind p = Reg \<and> i = instr0\<lparr>i_pred := o_reg p, i_predNeg := ng\<rparr> \<or>
       o_kind p = Named \<and> i = instr0\<lparr>i_predName := o_name p, i_predNeg := ng\<rparr>"
      using run by (auto simp: parse_guard_def a n split: sum.splits ptx_error.splits if_splits)
    have "operand_ok (- 1) p" by (rule parse_ok(1) [OF p(1)])
    with p(2) show ?thesis by (auto simp: operand_ok_def guard_ok_def instr0_def word_ok_def)
  qed
qed

lemma parse_ops_ok: "parse_ops ops r = Inr (ps, s) \<Longrightarrow> list_all (operand_ok (- 1)) ops \<Longrightarrow> list_all (operand_ok (- 1)) ps"
proof (induction ops r arbitrary: ps s rule: parse_ops.induct)
  case (1 ops r)
  from 1(2) obtain op t where o: "parse_operand r = Inr (op, t)"
    by (auto simp: parse_ops.simps [of ops r] split: sum.splits)
  obtain more u where m: "accept (CHR '','') t = (more, u)" by (cases "accept (CHR '','') t")
  have ops: "list_all (operand_ok (- 1)) (ops @ [op])" using 1(3) parse_ok(1) [OF o] by simp
  show ?case
  proof (cases more)
    case True
    then have "parse_ops (ops @ [op]) u = Inr (ps, s)" using 1(2) by (simp add: parse_ops.simps [of ops r] o m)
    with 1(1) [OF o refl refl m [symmetric] refl] True ops show ?thesis by simp
  next
    case False
    then show ?thesis using 1(2) ops by (simp add: parse_ops.simps [of ops r] o m)
  qed
qed

lemma split_dots_ok: "list_all ident_char w \<Longrightarrow> list_all (list_all (\<lambda>c. ident_char c \<and> c \<noteq> CHR ''.'')) (split_dots w)"
proof (induction w)
  case (Cons c w)
  then show ?case using split_dots_nonempty [of w] by (cases "split_dots w") simp_all
qed simp

lemma word_pieces_ok: "list_all ident_char w \<Longrightarrow> list_all piece_ok (word_pieces w)"
  using split_dots_ok [of w] by (auto simp: word_pieces_def piece_ok_def list_all_iff)

lemma parse_instr_ok: "parse_instr src r = Inr (i, s) \<Longrightarrow> parsed_ok i"
proof -
  assume run: "parse_instr src r = Inr (i, s)"
  then obtain g t where g: "parse_guard r = Inr (g, t)" by (auto simp: parse_instr_def split: sum.splits)
  obtain w u where w: "ident t = (w, u)" by (cases "ident t")
  have "list_all ident_char w" using w by (auto simp: ident_def Let_def list_all_iff dest: set_takeWhileD)
  then have pieces: "list_all piece_ok (word_pieces w)" by (rule word_pieces_ok)
  have w0: "w \<noteq> []" using run by (auto simp: parse_instr_def g w)
  obtain ops v where ops: "(if \<not> eof u \<and> peek u \<noteq> CHR '';'' then parse_ops [] u else Inr ([], u)) = Inr (ops, v)"
    using run w0 by (cases "if \<not> eof u \<and> peek u \<noteq> CHR '';'' then parse_ops [] u else Inr ([], u)") (auto simp: parse_instr_def g w)
  then have "list_all (operand_ok (- 1)) ops" using parse_ops_ok [of "[]" u ops v] by (auto split: if_splits)
  moreover have "i = (case word_pieces w of [] \<Rightarrow> g | m # ms \<Rightarrow> g\<lparr>i_mnemonic := m, i_mods := ms\<rparr>)\<lparr>i_ops := ops\<rparr>"
    using run w0 ops by (cases "accept (CHR '';'') v") (auto simp: parse_instr_def g w Let_def split: if_splits)
  ultimately show ?thesis using parse_guard_ok [OF g] pieces
    by (cases "word_pieces w") (auto simp: parsed_ok_def guard_ok_def)
qed

lemma parse_loop_ok:
  "parse_loop src out r = Inr ins \<Longrightarrow> list_all parsed_ok out \<Longrightarrow> ins \<noteq> [] \<and> list_all parsed_ok ins"
proof (induction src out r rule: parse_loop.induct)
  case (1 src out r)
  consider (stop) "eof r" | (sep) "\<not> eof r" "peek r = CHR '';'' \<or> peek r = CHR ''{'' \<or> peek r = CHR ''}''"
    | (dir) "\<not> eof r" "peek r = CHR ''.''"
    | (ins) "\<not> eof r" "\<not> (peek r = CHR '';'' \<or> peek r = CHR ''{'' \<or> peek r = CHR ''}'')" "peek r \<noteq> CHR ''.''"
    by blast
  then show ?case
  proof cases
    case stop
    then show ?thesis using 1(4,5) by (auto simp: parse_loop.simps [of src out r] split: if_splits)
  next
    case sep
    then have "parse_loop src out (tl (ws r)) = Inr ins" using 1(4) by (auto simp: parse_loop.simps [of src out r])
    with 1(1) [OF sep] 1(5) show ?thesis by blast
  next
    case dir
    then have "parse_loop src out (skip_directive r) = Inr ins" using 1(4) by (simp add: parse_loop.simps [of src out r])
    with 1(2) [OF dir(1) _ dir(2)] dir(2) 1(5) show ?thesis by simp
  next
    case ins
    then obtain i s where i: "parse_instr src r = Inr (i, s)" "parse_loop src (out @ [i]) s = Inr ins"
      using 1(4) by (auto simp: parse_loop.simps [of src out r] split: sum.splits)
    with 1(3) [OF ins i(1) refl i(2)] parse_instr_ok [OF i(1)] 1(5) show ?thesis by simp
  qed
qed

text \<open>C27: every list of instructions the parser returns is non-empty and well-typed: register numbers and
  immediates in range, vectors of at least one register, names that are words, non-empty modifiers without
  dots, at most one guard; when in addition every address has a base register and no mnemonic is missing, the
  list is the one read back from its own text.\<close>

theorem parsePtxAsm_ok:
  assumes "parsePtxAsm src = Inr ins"
  shows "ins \<noteq> [] \<and> list_all parsed_ok ins \<and>
    (list_all (\<lambda>i. i_mnemonic i \<noteq> [] \<and> list_all (\<lambda>op. o_kind op = Mem \<longrightarrow> 0 \<le> o_reg op) (i_ops i)) ins \<longrightarrow>
       parsePtxAsm (concat (map print_instr ins)) = Inr ins)"
proof -
  have ok: "ins \<noteq> []" "list_all parsed_ok ins"
    using parse_loop_ok [of src "[]" src ins] assms by (simp_all add: parsePtxAsm_def)
  have "list_all instr_ok ins" if "list_all (\<lambda>i. i_mnemonic i \<noteq> [] \<and> list_all (\<lambda>op. o_kind op = Mem \<longrightarrow> 0 \<le> o_reg op) (i_ops i)) ins"
  proof -
    have "operand_ok 0 op" if "operand_ok (- 1) op" "o_kind op = Mem \<longrightarrow> 0 \<le> o_reg op" for op
      using that by (auto simp: operand_ok_def reg_ok_def split: op_kind.splits)
    with ok(2) that show ?thesis by (auto simp: list_all_iff parsed_ok_def instr_ok_def)
  qed
  then show ?thesis using ok parse_loop_print [of ins "[]"] by (simp add: parsePtxAsm_def)
qed

theorem parsePtxAsm_ok_witness:
  "sample_asm \<noteq> [] \<and> list_all parsed_ok sample_asm"
proof -
  have "list_all instr_ok sample_asm" by code_simp
  from parse_loop_print [OF this, of "[]"] have "parsePtxAsm (concat (map print_instr sample_asm)) = Inr sample_asm"
    by (simp add: parsePtxAsm_def sample_asm_def)
  from parsePtxAsm_ok [OF this] show ?thesis by blast
qed

text \<open>C36: a floating-point immediate in the hexadecimal form of PTX, as \<open>0f3F800000\<close>, is accepted and read as
  the integer \<open>0\<close>, whatever its digits.\<close>

theorem float_immediate_is_zero:
  assumes "list_all isalnum h"
  shows "parsePtxAsm (''mov.f32 %0, 0f'' @ h @ '';'') =
    Inr [instr0\<lparr>i_mnemonic := ''mov'', i_mods := [''f32''],
           i_ops := [operand0\<lparr>o_reg := 0\<rparr>, operand0\<lparr>o_kind := Imm, o_imm := 0\<rparr>]\<rparr>]"
proof -
  let ?num = "''0f'' @ h @ '';''"
  let ?is = "instr0\<lparr>i_mnemonic := ''mov'', i_mods := [''f32''],
           i_ops := [operand0\<lparr>o_reg := 0\<rparr>, operand0\<lparr>o_kind := Imm, o_imm := 0\<rparr>]\<rparr>"
  have "strtoll (''0f'' @ h) = 0"
    by (simp add: strtoll_def unsigned_val_def base_val_def any_digit_def isspace_def)
  moreover have "number_text (\<lambda>c. isalnum c \<or> c = CHR ''.'') ?num = (''0f'' @ h, '';'')"
  proof -
    have "isalnum (CHR ''0'')" "isalnum (CHR ''f'')" "\<not> isalnum (CHR '';'')" by (simp_all add: isalnum_def isdigit_def isalpha_def)
    with assms show ?thesis
      using run_of [of "\<lambda>c. isalnum c \<or> c = CHR ''.''" "''0f'' @ h" "'';''"] by (simp add: number_text_def list_all_iff)
  qed
  ultimately have "parse_imm ?num = (operand0\<lparr>o_kind := Imm, o_imm := 0\<rparr>, '';'')" by (simp add: parse_imm_def)
  then have num: "parse_operand ('' '' @ ?num) = Inr (operand0\<lparr>o_kind := Imm, o_imm := 0\<rparr>, '';'')"
    by (simp add: parse_operand.simps [of "CHR '' '' # _"] ws_def peek_def isspace_def isdigit_def)
  have reg: "parse_operand ('' %0'' @ '', '' @ ?num) = Inr (operand0\<lparr>o_reg := 0\<rparr>, '', '' @ ?num)"
    using parse_reg [of 0 "'', '' @ ?num"] parse_operand_ws [of "'' %0'' @ '', '' @ ?num"]
    by (simp add: print_reg_def to_string_0 reg_ok_def ws_def isspace_def)
  have ops: "parse_ops [] ('' %0'' @ '', '' @ ?num) = Inr ([operand0\<lparr>o_reg := 0\<rparr>, operand0\<lparr>o_kind := Imm, o_imm := 0\<rparr>], '';'')"
    using reg num by (simp add: parse_ops.simps accept_def peek_def ws_def isspace_def)
  have guard: "parse_guard (''mov.f32 %0, '' @ ?num) = Inr (instr0, ''mov.f32 %0, '' @ ?num)"
    by (simp add: parse_guard_def accept_def peek_def ws_def isspace_def)
  have word: "ident (''mov.f32 %0, '' @ ?num) = (''mov.f32'', '' %0'' @ '', '' @ ?num)"
    by (simp add: ident_def ws_def isspace_def ident_char_def isalnum_def isalpha_def isdigit_def)
  have pieces: "word_pieces ''mov.f32'' = [''mov'', ''f32'']" by (simp add: word_pieces_def)
  have instr: "parse_instr src (''mov.f32 %0, '' @ ?num) = Inr (?is, [])" for src
    using guard word pieces ops
    by (simp add: parse_instr_def eof_def peek_def ws_def isspace_def accept_def instr0_def)
  then show ?thesis
    by (simp add: parsePtxAsm_def parse_loop.simps [of _ _ "CHR ''m'' # _"] parse_loop.simps [of _ _ "[]"] eof_def peek_def ws_def isspace_def)
qed

theorem float_immediate_is_zero_witness:
  "parsePtxAsm ''mov.f32 %0, 0f3F800000;'' =
    Inr [instr0\<lparr>i_mnemonic := ''mov'', i_mods := [''f32''],
           i_ops := [operand0\<lparr>o_reg := 0\<rparr>, operand0\<lparr>o_kind := Imm, o_imm := 0\<rparr>]\<rparr>]"
proof -
  have "list_all isalnum ''3F800000''" by (simp add: isalnum_def isdigit_def isalpha_def)
  from float_immediate_is_zero [OF this] show ?thesis by simp
qed

end
