(* ===== verification/Pack_File.thy ===== *)
theory Pack_File
  imports Bpe Complex_Main "HOL-Library.AList"
begin

text \<open>
  The pack reader of the qwen example (\<open>pack.hpp\<close>): the JSON reader and the header of a pack file. The reader
  walks a text by position; the position is modelled by the text that is left, and \<open>None\<close> stands for every
  position past the end, where reading a character is undefined. The terminating zero that \<open>std::string\<close>
  guarantees at the end is a character. \<open>strtod\<close>, on the numbers of a header, is an argument with values in
  the rationals. Mapping the file, registering it with the runtime and prefetching are left out; a byte past
  the end of the file is an error value (the code reads the zeros that fill the last page, then faults).
  An object keeps its keys in the order of their first appearance instead of sorted; the order decides only
  which of several faulty tensors is reported.

  The lemmas show that the reader ends, that it reads back what is printed, and where it reads out of bounds.
\<close>

subsection \<open>Values\<close>

datatype json = JNull | JBool bool | JNumber rat | JString string | JArray "json list" | JObject "(string \<times> json) list"

datatype pack_error = Throw string | Out_of_bounds | Bad_cast

text \<open>The fields of the structure that its kind does not set have their initial values.\<close>

fun j_str :: "json \<Rightarrow> string" where "j_str (JString s) = s" | "j_str _ = []"
fun j_num :: "json \<Rightarrow> rat" where "j_num (JNumber q) = q" | "j_num _ = 0"
fun j_arr :: "json \<Rightarrow> json list" where "j_arr (JArray js) = js" | "j_arr _ = []"
fun j_obj :: "json \<Rightarrow> (string \<times> json) list" where "j_obj (JObject kvs) = kvs" | "j_obj _ = []"

definition json_key :: "json \<Rightarrow> string \<Rightarrow> pack_error + json" where
  "json_key j k =
     (case map_of (j_obj j) k of None \<Rightarrow> Inl (Throw (''json: missing key '' @ k)) | Some v \<Rightarrow> Inr v)"

definition json_has :: "json \<Rightarrow> string \<Rightarrow> bool" where
  "json_has j k \<longleftrightarrow> k \<in> fst ` set (j_obj j)"

definition json_index :: "json \<Rightarrow> nat \<Rightarrow> pack_error + json" where
  "json_index j i = (if i < length (j_arr j) then Inr (j_arr j ! i) else Inl (Throw ''vector''))"

text \<open>The conversions of a \<open>double\<close> to an integer type: towards zero, undefined out of range.\<close>

definition trunc :: "rat \<Rightarrow> int" where
  "trunc q = (if 0 \<le> q then \<lfloor>q\<rfloor> else \<lceil>q\<rceil>)"

definition i64 :: "json \<Rightarrow> pack_error + int" where
  "i64 j = (let v = trunc (j_num j) in if - (2 ^ 63) \<le> v \<and> v < 2 ^ 63 then Inr v else Inl Bad_cast)"

definition u64_num :: "json \<Rightarrow> pack_error + nat" where
  "u64_num j = (let v = trunc (j_num j) in if 0 \<le> v \<and> v < 2 ^ 64 then Inr (nat v) else Inl Bad_cast)"

subsection \<open>The reader\<close>

type_synonym cursor = "string option"

definition skip_ws :: "cursor \<Rightarrow> cursor" where
  "skip_ws p = map_option (dropWhile isspace) p"

text \<open>The character at the next position that is not white space, and the text behind it.\<close>

definition char_at :: "cursor \<Rightarrow> pack_error + char \<times> string" where
  "char_at p =
     (case skip_ws p of None \<Rightarrow> Inl Out_of_bounds | Some [] \<Rightarrow> Inr (CHR 0x00, []) | Some (c # r) \<Rightarrow> Inr (c, r))"

definition unescape :: "char \<Rightarrow> char" where
  "unescape e = (if e = CHR ''n'' then CHR 0x0A else if e = CHR ''t'' then CHR 0x09 else e)"

fun read_string :: "string \<Rightarrow> string \<Rightarrow> string \<times> cursor" where
  "read_string acc [] = (acc, None)"
| "read_string acc (c # r) =
     (if c = CHR 0x22 then (acc, Some r)
      else if c = CHR 0x5C then
        (case r of [] \<Rightarrow> (acc @ [CHR 0x00], None) | e # r \<Rightarrow> read_string (acc @ [unescape e]) r)
      else read_string (acc @ [c]) r)"

definition num_char :: "char \<Rightarrow> bool" where
  "num_char c \<longleftrightarrow> isdigit c \<or> c \<in> set ''-+.eE''"

definition read_scalar :: "(string \<Rightarrow> rat) \<Rightarrow> string \<Rightarrow> json \<times> cursor" where
  "read_scalar strtod s =
     (if s \<noteq> [] \<and> hd s = CHR 0x22 then (let (t, p) = read_string [] (tl s) in (JString t, p))
      else if take 4 s = ''true'' then (JBool True, Some (drop 4 s))
      else if take 5 s = ''false'' then (JBool False, Some (drop 5 s))
      else if take 4 s = ''null'' then (JNull, Some (drop 4 s))
      else (JNumber (strtod (takeWhile num_char s)), Some (dropWhile num_char s)))"

function (sequential) json_value :: "(string \<Rightarrow> rat) \<Rightarrow> cursor \<Rightarrow> pack_error + json \<times> cursor"
  and members :: "(string \<Rightarrow> rat) \<Rightarrow> (string \<times> json) list \<Rightarrow> cursor \<Rightarrow> pack_error + json \<times> cursor"
  and elements :: "(string \<Rightarrow> rat) \<Rightarrow> json list \<Rightarrow> cursor \<Rightarrow> pack_error + json \<times> cursor" where
  "json_value strtod p =
     (case skip_ws p of
        None \<Rightarrow> Inl (Throw ''json: eof'')
      | Some [] \<Rightarrow> Inl (Throw ''json: eof'')
      | Some (c # r) \<Rightarrow>
          if c = CHR ''{'' then
            (case char_at (Some r) of
               Inl e \<Rightarrow> Inl e
             | Inr (d, r') \<Rightarrow> if d = CHR ''}'' then Inr (JObject [], Some r') else members strtod [] (Some r))
          else if c = CHR ''['' then
            (case char_at (Some r) of
               Inl e \<Rightarrow> Inl e
             | Inr (d, r') \<Rightarrow> if d = CHR '']'' then Inr (JArray [], Some r') else elements strtod [] (Some r))
          else Inr (read_scalar strtod (c # r)))"
| "members strtod kvs p =
     (case json_value strtod p of
        Inl e \<Rightarrow> Inl e
      | Inr (k, p) \<Rightarrow>
          case char_at p of
            Inl e \<Rightarrow> Inl e
          | Inr (d, r) \<Rightarrow>
              if d \<noteq> CHR '':'' then Inl (Throw ''json: expected :'')
              else
                case json_value strtod (Some r) of
                  Inl e \<Rightarrow> Inl e
                | Inr (v, p) \<Rightarrow>
                    let kvs = AList.update (j_str k) v kvs in
                    case char_at p of
                      Inl e \<Rightarrow> Inl e
                    | Inr (d, r) \<Rightarrow>
                        if d = CHR '','' then members strtod kvs (Some r)
                        else if d = CHR ''}'' then Inr (JObject kvs, Some r)
                        else Inl (Throw ''json: expected , or }''))"
| "elements strtod js p =
     (case json_value strtod p of
        Inl e \<Rightarrow> Inl e
      | Inr (j, p) \<Rightarrow>
          case char_at p of
            Inl e \<Rightarrow> Inl e
          | Inr (d, r) \<Rightarrow>
              if d = CHR '','' then elements strtod (js @ [j]) (Some r)
              else if d = CHR '']'' then Inr (JArray (js @ [j]), Some r)
              else Inl (Throw ''json: expected , or ]''))"
  by pat_completeness auto

definition json_parse :: "(string \<Rightarrow> rat) \<Rightarrow> string \<Rightarrow> pack_error + json" where
  "json_parse strtod s = map_sum id fst (json_value strtod (Some s))"

subsection \<open>The reader ends\<close>

fun left :: "cursor \<Rightarrow> nat" where "left None = 0" | "left (Some r) = length r"

lemma skip_ws_left: "left (skip_ws p) \<le> left p"
  by (cases p) (simp_all add: skip_ws_def length_dropWhile_le)

lemma char_at_left: "char_at p = Inr (d, r) \<Longrightarrow> length r \<le> left p"
  using skip_ws_left [of p] by (auto simp: char_at_def split: option.splits list.splits)

lemma char_at_less: "char_at p = Inr (d, r) \<Longrightarrow> d \<noteq> CHR 0x00 \<Longrightarrow> length r < left p"
  using skip_ws_left [of p] by (auto simp: char_at_def split: option.splits list.splits)

lemma read_string_left: "read_string acc s = (t, p) \<Longrightarrow> left p \<le> length s"
  by (induction acc s rule: read_string.induct) (fastforce split: if_splits list.splits)+

lemma read_scalar_left: "read_scalar strtod s = (j, p) \<Longrightarrow> left p \<le> length s"
  using read_string_left [of "[]" "tl s"]
  by (auto simp: read_scalar_def length_dropWhile_le split: if_splits prod.splits)


abbreviation json_dom :: "(string \<Rightarrow> rat) \<times> cursor + (string \<Rightarrow> rat) \<times> (string \<times> json) list \<times> cursor + (string \<Rightarrow> rat) \<times> json list \<times> cursor \<Rightarrow> bool" where
  "json_dom \<equiv> json_value_members_elements_dom"

lemma json_left_dom:
  shows "json_dom (Inl (strtod, p)) \<Longrightarrow> json_value strtod p = Inr (j, q) \<Longrightarrow> left q \<le> left p"
    and "json_dom (Inr (Inl (strtod, kvs, p))) \<Longrightarrow> members strtod kvs p = Inr (j, q) \<Longrightarrow> left q \<le> left p"
    and "json_dom (Inr (Inr (strtod, js, p))) \<Longrightarrow> elements strtod js p = Inr (j, q) \<Longrightarrow> left q \<le> left p"
proof (induction strtod p and strtod kvs p and strtod js p arbitrary: j q and j q and j q rule: json_value_members_elements.pinduct)
  case (1 strtod p)
  from 1(1,4) obtain c r where s: "skip_ws p = Some (c # r)"
    by (auto simp: json_value.psimps split: option.splits list.splits)
  have le: "Suc (length r) \<le> left p" using skip_ws_left [of p] by (simp add: s)
  consider (obj) "c = CHR ''{''" | (arr) "c = CHR ''[''" | (scalar) "c \<noteq> CHR ''{''" "c \<noteq> CHR ''[''" by blast
  then show ?case
  proof cases
    case obj
    then obtain d t where d: "char_at (Some r) = Inr (d, t)"
      using 1(1,4) by (auto simp: json_value.psimps s split: sum.splits)
    show ?thesis
    proof (cases "d = CHR ''}''")
      case True
      then have "q = Some t" using 1(1,4) obj d by (simp add: json_value.psimps s)
      then show ?thesis using char_at_left [OF d] le by simp
    next
      case False
      then have "members strtod [] (Some r) = Inr (j, q)" using 1(1,4) obj d by (simp add: json_value.psimps s)
      from 1(2) [OF s refl obj d refl False this] le show ?thesis by simp
    qed
  next
    case arr
    then obtain d t where d: "char_at (Some r) = Inr (d, t)"
      using 1(1,4) by (auto simp: json_value.psimps s split: sum.splits)
    show ?thesis
    proof (cases "d = CHR '']''")
      case True
      then have "q = Some t" using 1(1,4) arr d by (simp add: json_value.psimps s)
      then show ?thesis using char_at_left [OF d] le by simp
    next
      case False
      then have "elements strtod [] (Some r) = Inr (j, q)" using 1(1,4) arr d by (simp add: json_value.psimps s)
      from 1(3) [OF s refl _ arr d refl False this] arr le show ?thesis by simp
    qed
  next
    case scalar
    then have "read_scalar strtod (c # r) = (j, q)" using 1(1,4) by (simp add: json_value.psimps s)
    from read_scalar_left [OF this] le show ?thesis by simp
  qed
next
  case (2 strtod kvs p)
  from 2(1,5) obtain k p1 r1 v p2 d r2
    where k: "json_value strtod p = Inr (k, p1)" and c: "char_at p1 = Inr (CHR '':'', r1)"
      and v: "json_value strtod (Some r1) = Inr (v, p2)" and d: "char_at p2 = Inr (d, r2)"
    by (auto simp: members.psimps Let_def split: sum.splits if_splits)
  have "left p1 \<le> left p" by (rule 2(2) [OF k])
  moreover have "length r1 < left p1" using char_at_less [OF c] by simp
  moreover have "left p2 \<le> length r1" using 2(3) [OF k refl c refl _ v] by simp
  moreover have "length r2 \<le> left p2" by (rule char_at_left [OF d])
  moreover have "left q \<le> length r2"
  proof (cases "d = CHR '',''")
    case True
    then have "members strtod (AList.update (j_str k) v kvs) (Some r2) = Inr (j, q)"
      using 2(1,5) k c v d by (simp add: members.psimps Let_def)
    with 2(4) [OF k refl c refl _ v refl refl d refl True] show ?thesis by simp
  next
    case False
    then have "q = Some r2" using 2(1,5) k c v d by (simp add: members.psimps Let_def split: if_splits)
    then show ?thesis by simp
  qed
  ultimately show ?case by simp
next
  case (3 strtod js p)
  from 3(1,4) obtain k p1 d r1 where k: "json_value strtod p = Inr (k, p1)" and d: "char_at p1 = Inr (d, r1)"
    by (auto simp: elements.psimps split: sum.splits)
  have "left p1 \<le> left p" by (rule 3(2) [OF k])
  moreover have "length r1 \<le> left p1" by (rule char_at_left [OF d])
  moreover have "left q \<le> length r1"
  proof (cases "d = CHR '',''")
    case True
    then have "elements strtod (js @ [k]) (Some r1) = Inr (j, q)" using 3(1,4) k d by (simp add: elements.psimps)
    with 3(3) [OF k refl d refl True] show ?thesis by simp
  next
    case False
    then have "q = Some r1" using 3(1,4) k d by (simp add: elements.psimps split: if_splits)
    then show ?thesis by simp
  qed
  ultimately show ?case by simp
qed

lemma opened_less: "skip_ws p = Some (c # r) \<Longrightarrow> length r < left p"
  using skip_ws_left [of p] by simp

lemma colon_less:
  "json_value strtod p = Inr (k, p1) \<Longrightarrow> json_dom (Inl (strtod, p)) \<Longrightarrow> char_at p1 = Inr (CHR '':'', r) \<Longrightarrow> length r < left p"
  using json_left_dom(1) [of strtod p k p1] char_at_less [of p1 "CHR '':''" r] by simp

lemma comma_less:
  "json_value strtod p = Inr (k, p1) \<Longrightarrow> json_dom (Inl (strtod, p)) \<Longrightarrow> char_at p1 = Inr (CHR '','', r) \<Longrightarrow> length r < left p"
  using json_left_dom(1) [of strtod p k p1] char_at_less [of p1 "CHR '',''" r] by simp

lemma member_less:
  "json_value strtod p = Inr (k, p1) \<Longrightarrow> json_dom (Inl (strtod, p)) \<Longrightarrow> char_at p1 = Inr (CHR '':'', r) \<Longrightarrow>
   json_value strtod (Some r) = Inr (v, p2) \<Longrightarrow> json_dom (Inl (strtod, Some r)) \<Longrightarrow> char_at p2 = Inr (CHR '','', r2) \<Longrightarrow>
   length r2 < left p"
  using colon_less [of strtod p k p1 r] comma_less [of strtod "Some r" v p2 r2] by simp

termination json_value
  by (relation "measure (\<lambda>x. case x of Inl (_, p) \<Rightarrow> 2 * left p | Inr (Inl (_, _, p)) \<Rightarrow> 2 * left p + 1 | Inr (Inr (_, _, p)) \<Rightarrow> 2 * left p + 1)")
    (auto dest: opened_less colon_less comma_less member_less)

declare json_value.simps [simp del] members.simps [simp del] elements.simps [simp del]

subsection \<open>Printed values are read back\<close>

definition print_string :: "string \<Rightarrow> string" where
  "print_string s =
     CHR 0x22 # concat (map (\<lambda>c. if c = CHR 0x22 \<or> c = CHR 0x5C then [CHR 0x5C, c] else [c]) s) @ [CHR 0x22]"

fun comma_list :: "string list \<Rightarrow> string" where
  "comma_list [] = []"
| "comma_list [s] = s"
| "comma_list (s # ss) = s @ '','' @ comma_list ss"

text \<open>\<open>pr\<close> prints a number.\<close>

primrec print_json :: "(rat \<Rightarrow> string) \<Rightarrow> json \<Rightarrow> string" where
  "print_json pr JNull = ''null''"
| "print_json pr (JBool b) = (if b then ''true'' else ''false'')"
| "print_json pr (JNumber q) = pr q"
| "print_json pr (JString s) = print_string s"
| "print_json pr (JArray js) = ''['' @ comma_list (map (print_json pr) js) @ '']''"
| "print_json pr (JObject kvs) =
     ''{'' @ comma_list (map (\<lambda>(k, v). print_string k @ '':'' @ v) (map (map_prod id (print_json pr)) kvs)) @ ''}''"

definition member_text :: "(rat \<Rightarrow> string) \<Rightarrow> string \<times> json \<Rightarrow> string" where
  "member_text pr kv = print_string (fst kv) @ '':'' @ print_json pr (snd kv)"

lemma print_object: "print_json pr (JObject kvs) = ''{'' @ comma_list (map (member_text pr) kvs) @ ''}''"
proof -
  have "map (\<lambda>(k, v). print_string k @ '':'' @ v) (map (map_prod id (print_json pr)) kvs) = map (member_text pr) kvs"
    by (auto simp: member_text_def)
  then show ?thesis by (simp only: print_json.simps)
qed

text \<open>Objects with distinct keys, as \<open>std::map\<close> has them.\<close>

primrec json_ok :: "(rat \<Rightarrow> bool) \<Rightarrow> json \<Rightarrow> bool" where
  "json_ok N JNull = True"
| "json_ok N (JBool b) = True"
| "json_ok N (JNumber q) = N q"
| "json_ok N (JString s) = True"
| "json_ok N (JArray js) = list_all (json_ok N) js"
| "json_ok N (JObject kvs) = (distinct (map fst kvs) \<and> list_all snd (map (map_prod id (json_ok N)) kvs))"

definition prints :: "(rat \<Rightarrow> bool) \<Rightarrow> (string \<Rightarrow> rat) \<Rightarrow> (rat \<Rightarrow> string) \<Rightarrow> bool" where
  "prints N strtod pr \<longleftrightarrow> (\<forall>q. N q \<longrightarrow> strtod (pr q) = q \<and> pr q \<noteq> [] \<and> list_all num_char (pr q))"

definition num_stop :: "string \<Rightarrow> bool" where
  "num_stop r \<longleftrightarrow> r = [] \<or> \<not> num_char (hd r)"

lemma num_stop_simps [simp]: "num_stop []" "num_stop (c # r) \<longleftrightarrow> \<not> num_char c"
  by (simp_all add: num_stop_def)

lemma num_char_not [simp]: "\<not> num_char (CHR '','')" "\<not> num_char (CHR '']'')" "\<not> num_char (CHR ''}'')" "\<not> num_char (CHR '':'')"
  by (simp_all add: num_char_def isdigit_def)

lemma read_print_string:
  "read_string acc (concat (map (\<lambda>c. if c = CHR 0x22 \<or> c = CHR 0x5C then [CHR 0x5C, c] else [c]) s) @ CHR 0x22 # r) = (acc @ s, Some r)"
  by (induction s arbitrary: acc) (simp_all add: unescape_def)

lemma char_at_here [simp]: "\<not> isspace c \<Longrightarrow> char_at (Some (c # r)) = Inr (c, r)"
  by (simp add: char_at_def skip_ws_def)

lemma marks_not_space [simp]: "\<not> isspace (CHR '','')" "\<not> isspace (CHR '']'')" "\<not> isspace (CHR ''}'')" "\<not> isspace (CHR '':'')"
  "\<not> isspace (CHR ''{'')" "\<not> isspace (CHR ''['')" "\<not> isspace (CHR 0x22)"
  by (simp_all add: isspace_def)

lemma value_scalar:
  "\<not> isspace c \<Longrightarrow> c \<noteq> CHR ''{'' \<Longrightarrow> c \<noteq> CHR ''['' \<Longrightarrow> json_value strtod (Some (c # r)) = Inr (read_scalar strtod (c # r))"
  by (simp add: json_value.simps skip_ws_def)

lemma value_string: "json_value strtod (Some (print_string s @ r)) = Inr (JString s, Some r)"
  using read_print_string [of "[]" s r] by (simp add: print_string_def value_scalar read_scalar_def)

lemma value_number:
  assumes "prints N strtod pr" and "N q" and "num_stop r"
  shows "json_value strtod (Some (pr q @ r)) = Inr (JNumber q, Some r)"
proof -
  have pr: "strtod (pr q) = q" "list_all num_char (pr q)" and "pr q \<noteq> []" using assms(1,2) by (auto simp: prints_def)
  then obtain c s where c: "pr q = c # s" "num_char c" by (cases "pr q") simp_all
  have "takeWhile num_char r = []" "dropWhile num_char r = r" using assms(3) by (cases r; simp)+
  then have tw: "takeWhile num_char (pr q @ r) = pr q" "dropWhile num_char (pr q @ r) = r"
    using pr(2) by (simp_all add: list_all_iff)
  have ne: "\<not> isspace c" "c \<noteq> CHR ''{''" "c \<noteq> CHR ''[''" "c \<noteq> CHR 0x22" "c \<noteq> CHR ''t''" "c \<noteq> CHR ''f''" "c \<noteq> CHR ''n''"
    using c(2) by (auto simp: num_char_def isdigit_def isspace_def)
  then have "read_scalar strtod (pr q @ r) = (JNumber q, Some r)"
    using tw pr(1) by (simp add: read_scalar_def c(1))
  then show ?thesis using ne by (simp add: c(1) value_scalar)
qed

lemma print_json_head:
  assumes "prints N strtod pr" and "json_ok N j"
  shows "\<exists>c s. print_json pr j = c # s \<and> \<not> isspace c \<and> c \<noteq> CHR '']''"
proof (cases j)
  case (JNumber q)
  have "pr q \<noteq> []" "list_all num_char (pr q)" using assms JNumber by (auto simp: prints_def)
  then show ?thesis using JNumber by (cases "pr q") (auto simp: num_char_def isdigit_def isspace_def)
qed (simp_all add: print_string_def isspace_def)

lemma read_elements:
  assumes "\<And>k r. k \<in> set ks \<Longrightarrow> num_stop r \<Longrightarrow> json_value strtod (Some (print_json pr k @ r)) = Inr (k, Some r)" and "ks \<noteq> []"
  shows "elements strtod js (Some (comma_list (map (print_json pr) ks) @ '']'' @ r)) = Inr (JArray (js @ ks), Some r)"
  using assms
proof (induction ks arbitrary: js)
  case (Cons k ks)
  show ?case
  proof (cases ks)
    case Nil
    then show ?thesis using Cons.prems(1) [of k "'']'' @ r"] by (simp add: elements.simps)
  next
    case (Cons l ls)
    let ?rest = "comma_list (map (print_json pr) ks) @ '']'' @ r"
    have "elements strtod (js @ [k]) (Some ?rest) = Inr (JArray (js @ k # ks), Some r)"
      using Cons.IH [of "js @ [k]"] Cons.prems(1) Cons by simp
    moreover have "comma_list (map (print_json pr) (k # ks)) @ '']'' @ r = print_json pr k @ '','' @ ?rest" using Cons by simp
    ultimately show ?thesis using Cons.prems(1) [of k "'','' @ ?rest"] by (simp add: elements.simps [of strtod js])
  qed
qed simp

lemma read_members:
  assumes "\<And>v r. v \<in> snd ` set kvs \<Longrightarrow> num_stop r \<Longrightarrow> json_value strtod (Some (print_json pr v @ r)) = Inr (v, Some r)"
    and "kvs \<noteq> []" and "distinct (map fst (mvs @ kvs))"
  shows "members strtod mvs (Some (comma_list (map (member_text pr) kvs) @ ''}'' @ r)) =
    Inr (JObject (mvs @ kvs), Some r)"
  using assms
proof (induction kvs arbitrary: mvs)
  case (Cons kv kvs)
  obtain k v where kv: "kv = (k, v)" by (cases kv)
  have key: "json_value strtod (Some (print_string k @ t)) = Inr (JString k, Some t)" for t by (rule value_string)
  have up: "AList.update k v mvs = mvs @ [(k, v)]"
  proof -
    have "k \<notin> fst ` set mvs" using Cons.prems(3) by (auto simp: kv)
    then show ?thesis by (induction mvs) auto
  qed
  show ?case
  proof (cases kvs)
    case Nil
    then show ?thesis using Cons.prems(1) [of v "''}'' @ r"] key [of "'':'' @ print_json pr v @ ''}'' @ r"]
      by (simp add: members.simps kv up member_text_def)
  next
    case (Cons l ls)
    let ?rest = "comma_list (map (member_text pr) kvs) @ ''}'' @ r"
    have "members strtod (mvs @ [(k, v)]) (Some ?rest) = Inr (JObject (mvs @ (k, v) # kvs), Some r)"
    proof -
      have "\<And>v r. v \<in> snd ` set kvs \<Longrightarrow> num_stop r \<Longrightarrow> json_value strtod (Some (print_json pr v @ r)) = Inr (v, Some r)"
        using Cons.prems(1) by simp
      from Cons.IH [OF this, of "mvs @ [(k, v)]"] show ?thesis using Cons.prems(3) Cons by (simp add: kv)
    qed
    moreover have "comma_list (map (member_text pr) (kv # kvs)) @ ''}'' @ r =
        print_string k @ '':'' @ print_json pr v @ '','' @ ?rest"
      using Cons by (simp add: kv member_text_def)
    ultimately show ?thesis
      using Cons.prems(1) [of v "'','' @ ?rest"] key [of "'':'' @ print_json pr v @ '','' @ ?rest"]
      by (simp add: members.simps [of strtod mvs] kv up)
  qed
qed simp

lemma value_print:
  assumes "prints N strtod pr"
  shows "json_ok N j \<Longrightarrow> num_stop r \<Longrightarrow> json_value strtod (Some (print_json pr j @ r)) = Inr (j, Some r)"
proof (induction j arbitrary: r)
  case JNull
  then show ?case by (simp add: value_scalar read_scalar_def isspace_def)
next
  case (JBool b)
  then show ?case by (simp add: value_scalar read_scalar_def isspace_def)
next
  case (JNumber q)
  then show ?case using value_number [OF assms] by simp
next
  case (JString s)
  then show ?case by (simp add: value_string)
next
  case (JArray js)
  show ?case
  proof (cases js)
    case Nil
    then show ?thesis by (simp add: json_value.simps skip_ws_def)
  next
    case (Cons k ks)
    let ?body = "comma_list (map (print_json pr) js) @ '']'' @ r"
    obtain c s where "print_json pr k = c # s" "\<not> isspace c" "c \<noteq> CHR '']''" using print_json_head [OF assms, of k] JArray.prems(1) Cons by auto
    then obtain s' where "?body = c # s'" by (cases ks) (simp_all add: Cons)
    then have "char_at (Some ?body) = Inr (c, s')" using \<open>\<not> isspace c\<close> by simp
    moreover have "elements strtod [] (Some ?body) = Inr (JArray js, Some r)"
    proof -
      have "\<And>k r. k \<in> set js \<Longrightarrow> num_stop r \<Longrightarrow> json_value strtod (Some (print_json pr k @ r)) = Inr (k, Some r)"
        using JArray by (simp add: list_all_iff)
      from read_elements [where ks = js and js = "[]" and r = r, OF this] Cons show ?thesis by (simp only: append_Nil) blast
    qed
    ultimately show ?thesis using \<open>c \<noteq> CHR '']''\<close> by (simp add: json_value.simps [of strtod "Some (CHR ''['' # _)"] skip_ws_def)
  qed
next
  case (JObject kvs)
  show ?case
  proof (cases kvs)
    case Nil
    then show ?thesis by (simp add: json_value.simps skip_ws_def)
  next
    case (Cons kv ks)
    let ?body = "comma_list (map (member_text pr) kvs) @ ''}'' @ r"
    obtain s' where "?body = CHR 0x22 # s'" by (cases ks) (simp_all add: Cons print_string_def member_text_def)
    then have "char_at (Some ?body) = Inr (CHR 0x22, s')" by simp
    moreover have "members strtod [] (Some ?body) = Inr (JObject kvs, Some r)"
    proof -
      have "json_value strtod (Some (print_json pr v @ r)) = Inr (v, Some r)" if v: "v \<in> snd ` set kvs" and "num_stop r" for v r
      proof -
        from v obtain k where k: "(k, v) \<in> set kvs" by auto
        have "json_ok N v" using JObject.prems(1) k by (auto simp: list_all_iff)
        with JObject.IH [OF k] that(2) show ?thesis by simp
      qed
      from read_members [where kvs = kvs and mvs = "[]" and r = r, OF this] JObject.prems(1) Cons show ?thesis
        by (simp only: append_Nil json_ok.simps) blast
    qed
    ultimately show ?thesis unfolding print_object by (simp add: json_value.simps [of strtod "Some (CHR ''{'' # _)"] skip_ws_def)
  qed
qed

subsection \<open>The header of a pack file\<close>

record tensor_info =
  ti_off :: nat
  ti_nbytes :: nat
  ti_dtype :: string
  ti_shape :: "int list"

fun all_of :: "('a \<Rightarrow> pack_error + 'b) \<Rightarrow> 'a list \<Rightarrow> pack_error + 'b list" where
  "all_of f [] = Inr []"
| "all_of f (x # xs) =
     (case f x of Inl e \<Rightarrow> Inl e | Inr y \<Rightarrow> (case all_of f xs of Inl e \<Rightarrow> Inl e | Inr ys \<Rightarrow> Inr (y # ys)))"

definition read_tensor :: "json \<Rightarrow> pack_error + tensor_info" where
  "read_tensor v =
     (case json_key v ''off'' of Inl e \<Rightarrow> Inl e | Inr o' \<Rightarrow>
      case u64_num o' of Inl e \<Rightarrow> Inl e | Inr off \<Rightarrow>
      case json_key v ''nbytes'' of Inl e \<Rightarrow> Inl e | Inr n \<Rightarrow>
      case u64_num n of Inl e \<Rightarrow> Inl e | Inr nbytes \<Rightarrow>
      case json_key v ''dtype'' of Inl e \<Rightarrow> Inl e | Inr d \<Rightarrow>
      case json_key v ''shape'' of Inl e \<Rightarrow> Inl e | Inr sh \<Rightarrow>
      case all_of i64 (j_arr sh) of Inl e \<Rightarrow> Inl e | Inr shape \<Rightarrow>
      Inr \<lparr>ti_off = off, ti_nbytes = nbytes, ti_dtype = j_str d, ti_shape = shape\<rparr>)"

record pack =
  config :: json
  tensors :: "(string \<times> tensor_info) list"
  contents :: string

definition read_header :: "json \<Rightarrow> string \<Rightarrow> pack_error + pack" where
  "read_header hdr file =
     (case json_key hdr ''config'' of Inl e \<Rightarrow> Inl e | Inr c \<Rightarrow>
      case json_key hdr ''tensors'' of Inl e \<Rightarrow> Inl e | Inr ts \<Rightarrow>
      case all_of (\<lambda>(k, v). map_sum id (Pair k) (read_tensor v)) (j_obj ts) of Inl e \<Rightarrow> Inl e | Inr infos \<Rightarrow>
      Inr \<lparr>config = c, tensors = infos, contents = file\<rparr>)"

text \<open>\<open>open\<close> up to the registration of the mapping; the file is the string of its bytes.\<close>

definition open_pack :: "(string \<Rightarrow> rat) \<Rightarrow> string \<Rightarrow> pack_error + pack" where
  "open_pack strtod file =
     (if length file < 8 then Inl Out_of_bounds
      else if take 8 file \<noteq> ''MVCCQ001'' then Inl (Throw ''bad pack magic'')
      else if length file < 16 then Inl Out_of_bounds
      else
        let hlen = le_val (take 8 (drop 8 file)) in
        if length file < 16 + hlen then Inl Out_of_bounds
        else
          case json_parse strtod (take hlen (drop 16 file)) of
            Inl e \<Rightarrow> Inl e
          | Inr hdr \<Rightarrow> read_header hdr file)"

definition info :: "pack \<Rightarrow> string \<Rightarrow> pack_error + tensor_info" where
  "info P name =
     (case map_of (tensors P) name of None \<Rightarrow> Inl (Throw (''pack: missing tensor '' @ name)) | Some ti \<Rightarrow> Inr ti)"

definition has :: "pack \<Rightarrow> string \<Rightarrow> bool" where
  "has P name \<longleftrightarrow> name \<in> fst ` set (tensors P)"

text \<open>The offset of a tensor in the mapping, what \<open>host\<close> and \<open>dev\<close> add to their base.\<close>

definition host :: "pack \<Rightarrow> string \<Rightarrow> pack_error + nat" where
  "host P name = map_sum id ti_off (info P name)"

subsection \<open>Written packs are read back\<close>

definition tensor_json :: "tensor_info \<Rightarrow> json" where
  "tensor_json t =
     JObject [(''dtype'', JString (ti_dtype t)), (''nbytes'', JNumber (of_nat (ti_nbytes t))),
       (''off'', JNumber (of_nat (ti_off t))), (''shape'', JArray (map (\<lambda>d. JNumber (of_int d)) (ti_shape t)))]"

definition header_json :: "json \<Rightarrow> (string \<times> tensor_info) list \<Rightarrow> json" where
  "header_json c ts = JObject [(''config'', c), (''tensors'', JObject (map (map_prod id tensor_json) ts))]"

definition write_pack :: "(rat \<Rightarrow> string) \<Rightarrow> json \<Rightarrow> (string \<times> tensor_info) list \<Rightarrow> string \<Rightarrow> string" where
  "write_pack pr c ts data =
     (let h = print_json pr (header_json c ts) in ''MVCCQ001'' @ le_bytes 8 (length h) @ h @ data)"

definition tensor_ok :: "(rat \<Rightarrow> bool) \<Rightarrow> tensor_info \<Rightarrow> bool" where
  "tensor_ok N t \<longleftrightarrow>
     N (of_nat (ti_off t)) \<and> ti_off t < 2 ^ 64 \<and> N (of_nat (ti_nbytes t)) \<and> ti_nbytes t < 2 ^ 64 \<and>
     list_all (\<lambda>d. N (of_int d) \<and> - (2 ^ 63) \<le> d \<and> d < 2 ^ 63) (ti_shape t)"

lemma trunc_of_int [simp]: "trunc (of_int z) = z" "trunc (of_nat n) = int n"
  by (simp_all add: trunc_def)

lemma all_of_map: "(\<And>x. x \<in> set xs \<Longrightarrow> f (g x) = Inr x) \<Longrightarrow> all_of f (map g xs) = Inr xs"
  by (induction xs) simp_all

lemma read_tensor_json:
  assumes "tensor_ok N t"
  shows "read_tensor (tensor_json t) = Inr t"
proof -
  have "all_of i64 (map (\<lambda>d. JNumber (of_int d)) (ti_shape t)) = Inr (ti_shape t)"
    using assms by (intro all_of_map) (simp add: i64_def tensor_ok_def list_all_iff)
  then show ?thesis using assms by (simp add: read_tensor_def tensor_json_def json_key_def u64_num_def tensor_ok_def)
qed

lemma header_json_ok:
  assumes "json_ok N c" and "distinct (map fst ts)" and "\<forall>(k, t) \<in> set ts. tensor_ok N t"
  shows "json_ok N (header_json c ts)"
proof -
  have "json_ok N (tensor_json t)" if "tensor_ok N t" for t
    using that by (simp add: tensor_json_def tensor_ok_def list_all_iff)
  with assms show ?thesis by (force simp: header_json_def list_all_iff o_def)
qed

text \<open>C30: for the numbers \<open>N\<close> that \<open>strtod\<close> reads back from their print, any printed JSON value with distinct keys, however nested and whatever its strings, is read back; in
  particular the header of a written pack, so that opening the pack gives its configuration, its tensors and
  the error for every other name.\<close>

theorem open_pack_written:
  assumes "prints N strtod pr" and "json_ok N c" and "distinct (map fst ts)" and "\<forall>(k, t) \<in> set ts. tensor_ok N t"
    and "length (print_json pr (header_json c ts)) < 2 ^ 64"
  shows "json_parse strtod (print_json pr c) = Inr c \<and>
    (\<exists>P. open_pack strtod (write_pack pr c ts data) = Inr P \<and> config P = c \<and>
      (\<forall>name. info P name =
        (case map_of ts name of None \<Rightarrow> Inl (Throw (''pack: missing tensor '' @ name)) | Some t \<Rightarrow> Inr t)))"
proof -
  define h where "h = print_json pr (header_json c ts)"
  have parse: "json_parse strtod (print_json pr j) = Inr j" if "json_ok N j" for j
    using value_print [OF assms(1) that, of "[]"] by (simp add: json_parse_def)
  have hdr: "json_parse strtod h = Inr (header_json c ts)" unfolding h_def by (rule parse) (rule header_json_ok [OF assms(2,3,4)])
  have "all_of (\<lambda>(k, v). map_sum id (Pair k) (read_tensor v)) (map (map_prod id tensor_json) ts) = Inr ts"
    using assms(4) by (intro all_of_map) (auto simp: read_tensor_json)
  then have rd: "read_header (header_json c ts) f = Inr \<lparr>config = c, tensors = ts, contents = f\<rparr>" for f
    by (simp add: read_header_def header_json_def json_key_def)
  let ?f = "write_pack pr c ts data"
  have f: "?f = ''MVCCQ001'' @ le_bytes 8 (length h) @ h @ data" by (simp add: write_pack_def h_def Let_def)
  have "le_val (le_bytes 8 (length h)) = length h" using assms(5) by (simp add: le_val_le_bytes h_def)
  then have "open_pack strtod ?f = Inr \<lparr>config = c, tensors = ts, contents = ?f\<rparr>"
    using hdr rd by (simp add: open_pack_def f)
  with parse [OF assms(2)] show ?thesis by (simp add: info_def)
qed

theorem open_pack_written_witness:
  "\<exists>P. open_pack (\<lambda>s. of_nat (digits_val s))
      (write_pack (\<lambda>q. to_string (nat \<lfloor>q\<rfloor>)) (JArray [JBool True, JNumber 28]) [(''w'', \<lparr>ti_off = 64, ti_nbytes = 8, ti_dtype = ''q4'', ti_shape = [2, 4]\<rparr>)] ''data'') = Inr P \<and>
    info P ''w'' = Inr \<lparr>ti_off = 64, ti_nbytes = 8, ti_dtype = ''q4'', ti_shape = [2, 4]\<rparr>"
proof -
  let ?N = "\<lambda>q :: rat. \<exists>n. q = of_nat n"
  let ?pr = "\<lambda>q :: rat. to_string (nat \<lfloor>q\<rfloor>)"
  let ?ts = "[(''w'', \<lparr>ti_off = 64, ti_nbytes = 8, ti_dtype = ''q4'', ti_shape = [2, 4]\<rparr>)]"
  have p: "prints ?N (\<lambda>s. of_nat (digits_val s)) ?pr"
    using to_string_digits by (auto simp: prints_def digits_val_to_string list_all_iff num_char_def)
  have n: "?N (numeral k)" for k by (intro exI [of _ "numeral k"]) simp
  have c: "json_ok ?N (JArray [JBool True, JNumber 28])" using n by simp
  have t: "\<forall>(k, t) \<in> set ?ts. tensor_ok ?N t" using n by (simp add: tensor_ok_def)
  have len: "length (print_json ?pr (header_json (JArray [JBool True, JNumber 28]) ?ts)) < 2 ^ 64"
    by (simp add: header_json_def tensor_json_def print_string_def to_string.simps)
  from open_pack_written [OF p c _ t len, of "''data''"] show ?thesis by auto
qed

text \<open>C37: a string without its closing quote is accepted at the end of the text, and inside an array makes the
  reader look at a character past the terminating zero.\<close>

theorem unterminated_string:
  assumes "CHR 0x22 \<notin> set s" and "CHR 0x5C \<notin> set s"
  shows "json_parse strtod (CHR 0x22 # s) = Inr (JString s) \<and> json_parse strtod (CHR ''['' # CHR 0x22 # s) = Inl Out_of_bounds"
proof -
  have "read_string acc s = (acc @ s, None)" for acc
    using assms by (induction s arbitrary: acc) auto
  then have "json_value strtod (Some (CHR 0x22 # s)) = Inr (JString s, None)"
    by (simp add: value_scalar read_scalar_def)
  then show ?thesis
    by (simp add: json_parse_def json_value.simps [of strtod "Some (CHR ''['' # _)"] skip_ws_def elements.simps char_at_def)
qed

theorem unterminated_string_witness: "json_parse (\<lambda>_. 0) [CHR ''['', CHR 0x22, CHR ''a''] = Inl Out_of_bounds"
  using unterminated_string [of "''a''" "\<lambda>_. 0"] by simp

end
