(* ===== verification/Coords_Fit.thy ===== *)
theory Coords_Fit
  imports Sym_Poly CppString
begin

text \<open>
  The affine fit of coordinate discovery (\<open>coords.cpp\<close>): \<open>dedupe\<close>, \<open>Fitter::fit\<close> and \<open>splitFamilies\<close>. A sample
  is a physical point and the polynomial there; the polynomials of the fit all have the type \<open>i64\<close>, and two
  of them are the same node exactly when their canonical terms are equal, so a sample holds the terms. The
  number of a node, which breaks ties, and the printer of polynomials in messages are arguments.

  The lemmas show that a fit is exact on every sample, that it succeeds exactly when the samples are affine
  and every axis that varies is sampled along itself, and that the families partition the samples.
\<close>

type_synonym sample = "int list \<times> terms"

definition poly_const :: "int \<Rightarrow> terms" where
  "poly_const c = mk_terms [([], c)]"

subsection \<open>\<open>dedupe\<close>\<close>

text \<open>The points of a sample set have one length, so that comparing the point and then the number is
  comparing the list of both.\<close>

definition dedupe :: "(terms \<Rightarrow> nat) \<Rightarrow> sample list \<Rightarrow> sample list" where
  "dedupe num S = remdups_adj (sort_key (\<lambda>s. fst s @ [int (num (snd s))]) S)"

subsection \<open>\<open>Fitter::fit\<close>\<close>

text \<open>The first sample with the least point.\<close>

definition origin :: "sample list \<Rightarrow> nat" where
  "origin S = fold (\<lambda>i k. if fst (S ! i) < fst (S ! k) then i else k) [1..<length S] 0"

text \<open>The stride along an axis that a pair of samples gives: they differ along that axis only, and the
  difference of the values is a multiple of the distance.\<close>

definition step_of :: "nat \<Rightarrow> nat \<Rightarrow> sample \<Rightarrow> sample \<Rightarrow> terms option" where
  "step_of nx a si sj =
     (let k = fst sj ! a - fst si ! a; oneAxis = list_all (\<lambda>b. b = a \<or> fst sj ! b - fst si ! b = 0) [0..<nx] in
      if \<not> oneAxis \<or> k = 0 then None
      else
        let diff = sub_terms (snd sj) (snd si) in
        if k \<noteq> 1 then
          (if list_all (\<lambda>t. snd t mod k = 0) diff then Some (mk_terms (map (\<lambda>t. (fst t, snd t div k)) diff)) else None)
        else Some diff)"

fun first_some :: "('a \<Rightarrow> 'b option) \<Rightarrow> 'a list \<Rightarrow> 'b option" where
  "first_some f [] = None"
| "first_some f (x # xs) = (case f x of None \<Rightarrow> first_some f xs | Some y \<Rightarrow> Some y)"

definition stride_of :: "nat \<Rightarrow> sample list \<Rightarrow> nat \<Rightarrow> terms option" where
  "stride_of nx S a =
     first_some (\<lambda>(i, j). if i = j then None else step_of nx a (S ! i) (S ! j))
       (List.product [0..<length S] [0..<length S])"

text \<open>\<open>base\<close> moved by the strides to the point \<open>x\<close> (\<open>add_terms\<close>), or from it (\<open>sub_terms\<close>).\<close>

definition moved :: "(terms \<Rightarrow> terms \<Rightarrow> terms) \<Rightarrow> terms option list \<Rightarrow> int list \<Rightarrow> terms \<Rightarrow> terms" where
  "moved f st x base =
     fold (\<lambda>a p. case st ! a of
         Some s \<Rightarrow> if x ! a \<noteq> 0 then f p (mul_terms s (poly_const (x ! a))) else p
       | None \<Rightarrow> p) [0..<length st] base"

definition int_text :: "int \<Rightarrow> string" where
  "int_text n = (if n < 0 then CHR ''-'' # to_string (nat (- n)) else to_string (nat n))"

definition pointName :: "string list \<Rightarrow> int list \<Rightarrow> string" where
  "pointName axisNames x =
     ''('' @ concat (map (\<lambda>a. (if a \<noteq> 0 then '','' else []) @ axisNames ! a @ ''='' @ int_text (x ! a)) [0..<length x]) @ '')''"

definition fit :: "string list \<Rightarrow> (terms \<Rightarrow> string) \<Rightarrow> sample list \<Rightarrow> string + terms \<times> terms option list" where
  "fit axisNames str S =
     (if S = [] then Inl ''no samples''
      else
        let nx = length (fst (S ! 0)); k = origin S; xo = fst (S ! k);
            st = map (stride_of nx S) [0..<nx]
        in case List.find (\<lambda>a. st ! a = None \<and> list_ex (\<lambda>s. fst s ! a \<noteq> xo ! a) S) [0..<nx] of
             Some a \<Rightarrow> Inl (''under-sampled along '' @ axisNames ! a)
           | None \<Rightarrow>
               let base = moved sub_terms st xo (snd (S ! k));
                   st = map (\<lambda>s. if s = Some [] then None else s) st
               in case List.find (\<lambda>s. moved add_terms st (fst s) base \<noteq> snd s) S of
                    Some s \<Rightarrow> Inl (''not affine in Phys at '' @ pointName axisNames (fst s) @ '': '' @ str (snd s) @
                      '' vs fitted '' @ str (moved add_terms st (fst s) base))
                  | None \<Rightarrow> Inr (base, st))"

subsection \<open>\<open>splitFamilies\<close>\<close>

definition votes :: "nat \<Rightarrow> sample list \<Rightarrow> nat \<Rightarrow> terms list" where
  "votes n S a =
     map (\<lambda>(i, j). sub_terms (snd (S ! j)) (snd (S ! i)))
       (filter (\<lambda>(i, j). i \<noteq> j \<and> list_all (\<lambda>b. fst (S ! j) ! b - fst (S ! i) ! b = (if b = a then 1 else 0)) [0..<n])
         (List.product [0..<length S] [0..<length S]))"

text \<open>The most frequent difference, of those the one with the least number.\<close>

definition best_vote :: "(terms \<Rightarrow> nat) \<Rightarrow> terms list \<Rightarrow> terms option" where
  "best_vote num vs =
     fold (\<lambda>v best. case best of
         None \<Rightarrow> Some v
       | Some w \<Rightarrow> if count_list vs w < count_list vs v \<or> count_list vs v = count_list vs w \<and> num v < num w then Some v else best)
       (remdups vs) None"

fun firsts :: "'a list \<Rightarrow> 'a list" where
  "firsts [] = []"
| "firsts (x # xs) = x # filter (\<lambda>y. y \<noteq> x) (firsts xs)"

definition splitFamilies ::
  "(terms \<Rightarrow> nat) \<Rightarrow> string list \<Rightarrow> (terms \<Rightarrow> string) \<Rightarrow> sample list \<Rightarrow> sample list list" where
  "splitFamilies num axisNames str S =
     (if length S \<le> 1 \<or> \<not> isl (fit axisNames str S) then [S]
      else
        let n = length (fst (S ! 0));
            st = map (\<lambda>a. let best = best_vote num (votes n S a) in if best = Some [] then None else best) [0..<n];
            res = (\<lambda>s. moved sub_terms st (fst s) (snd s))
        in map (\<lambda>r. filter (\<lambda>s. res s = r) S) (firsts (map res S)))"

subsection \<open>Values of moved polynomials\<close>

text \<open>The monomials of the arena are sorted lists of atoms.\<close>

definition poly_ok :: "terms \<Rightarrow> bool" where
  "poly_ok p \<longleftrightarrow> canonical p \<and> (\<forall>t \<in> set p. sorted (fst t))"

definition stride_lin :: "(mono \<Rightarrow> int) \<Rightarrow> terms option \<Rightarrow> int" where
  "stride_lin g s = (case s of None \<Rightarrow> 0 | Some p \<Rightarrow> lin g p)"

definition stride_ok :: "terms option \<Rightarrow> bool" where
  "stride_ok s \<longleftrightarrow> (case s of None \<Rightarrow> True | Some p \<Rightarrow> poly_ok p)"

lemma lin_poly_const [simp]: "lin g (poly_const c) = c * g []"
  by (simp add: poly_const_def)

lemma lin_sorted_step: "\<forall>t \<in> set s. sorted (fst t) \<Longrightarrow> lin g (mul_terms s (poly_const c)) = c * lin g s"
proof -
  assume s: "\<forall>t \<in> set s. sorted (fst t)"
  have "lin g (mul_terms s (poly_const c)) = lin (\<lambda>m. c * g (sort m)) s"
    unfolding lin_mul by (simp add: poly_const_def)
  also have "\<dots> = c * lin g s" using s by (induction s) (simp_all add: sorted_sort_id algebra_simps)
  finally show ?thesis .
qed

lemma lin_moved_add:
  assumes "list_all stride_ok st"
  shows "lin g (moved add_terms st x base) = lin g base + (\<Sum>a<length st. x ! a * stride_lin g (st ! a))"
proof -
  have "lin g (fold (\<lambda>a p. case st ! a of Some s \<Rightarrow> if x ! a \<noteq> 0 then add_terms p (mul_terms s (poly_const (x ! a))) else p | None \<Rightarrow> p) [0..<n] base)
      = lin g base + (\<Sum>a<n. x ! a * stride_lin g (st ! a))" if "n \<le> length st" for n
    using that
  proof (induction n)
    case (Suc n)
    then have "stride_ok (st ! n)" using assms by (simp add: list_all_length)
    with Suc show ?case by (auto simp: stride_lin_def stride_ok_def poly_ok_def lin_sorted_step split: option.splits)
  qed simp
  then show ?thesis by (simp add: moved_def)
qed

lemma lin_moved_sub:
  assumes "list_all stride_ok st"
  shows "lin g (moved sub_terms st x base) = lin g base - (\<Sum>a<length st. x ! a * stride_lin g (st ! a))"
proof -
  have "lin g (fold (\<lambda>a p. case st ! a of Some s \<Rightarrow> if x ! a \<noteq> 0 then sub_terms p (mul_terms s (poly_const (x ! a))) else p | None \<Rightarrow> p) [0..<n] base)
      = lin g base - (\<Sum>a<n. x ! a * stride_lin g (st ! a))" if "n \<le> length st" for n
    using that
  proof (induction n)
    case (Suc n)
    then have "stride_ok (st ! n)" using assms by (simp add: list_all_length)
    with Suc show ?case by (auto simp: stride_lin_def stride_ok_def poly_ok_def lin_sorted_step split: option.splits)
  qed simp
  then show ?thesis by (simp add: moved_def)
qed

lemma mk_terms_monos: "fst ` set (mk_terms ts) \<subseteq> fst ` set ts"
proof (cases "canonical ts")
  case False
  have "fst ` set (merge_terms (sort_key fst ts)) = fst ` set ts"
    using merge_sorted [of "sort_key fst ts"] by simp
  then show ?thesis using False by (auto simp: mk_terms_def)
qed (simp add: mk_terms_def)

lemma poly_ok_mk: "(\<And>m. m \<in> fst ` set ts \<Longrightarrow> sorted m) \<Longrightarrow> poly_ok (mk_terms ts)"
  using mk_terms_monos [of ts] unfolding poly_ok_def by (metis canonical_mk image_eqI subsetD)

lemma poly_ok_ops:
  assumes "poly_ok p" and "poly_ok q"
  shows "poly_ok (add_terms p q)" and "poly_ok (sub_terms p q)" and "poly_ok (mul_terms p q)"
proof -
  show add: "poly_ok (add_terms p q)" unfolding add_terms_def
    using assms by (intro poly_ok_mk) (auto simp: poly_ok_def)
  have "poly_ok (neg_terms q)" unfolding neg_terms_def
    using assms by (intro poly_ok_mk) (auto simp: poly_ok_def)
  then show "poly_ok (sub_terms p q)" unfolding sub_terms_def add_terms_def
    using assms by (intro poly_ok_mk) (auto simp: poly_ok_def)
  show "poly_ok (mul_terms p q)" unfolding mul_terms_def by (intro poly_ok_mk) auto
qed

lemma poly_ok_const: "poly_ok (poly_const c)"
  unfolding poly_const_def by (intro poly_ok_mk) simp

lemma poly_ok_moved:
  assumes "list_all stride_ok st" and "poly_ok base" and "f = add_terms \<or> f = sub_terms"
  shows "poly_ok (moved f st x base)"
proof -
  have "poly_ok (fold (\<lambda>a p. case st ! a of Some s \<Rightarrow> if x ! a \<noteq> 0 then f p (mul_terms s (poly_const (x ! a))) else p | None \<Rightarrow> p) [0..<n] base)"
    if "n \<le> length st" for n
    using that
  proof (induction n)
    case (Suc n)
    then have "stride_ok (st ! n)" using assms(1) by (simp add: list_all_length)
    with Suc assms(3) show ?case
      by (auto simp: stride_ok_def poly_ok_ops poly_ok_const split: option.splits)
  qed (simp add: assms(2))
  then show ?thesis by (simp add: moved_def)
qed

subsection \<open>Strides\<close>

lemma first_some_Some: "first_some f xs = Some y \<Longrightarrow> \<exists>x \<in> set xs. f x = Some y"
  by (induction xs) (auto split: option.splits)

lemma first_some_None: "first_some f xs = None \<longleftrightarrow> (\<forall>x \<in> set xs. f x = None)"
  by (induction xs) (auto split: option.splits)

text \<open>The samples lie on the affine map with this base and these strides.\<close>

definition on_map :: "nat \<Rightarrow> terms \<Rightarrow> terms option list \<Rightarrow> sample list \<Rightarrow> bool" where
  "on_map nx b st S \<longleftrightarrow>
     length st = nx \<and> poly_ok b \<and> list_all stride_ok st \<and> (\<forall>s \<in> set S. snd s = moved add_terms st (fst s) b)"

definition along :: "nat \<Rightarrow> nat \<Rightarrow> sample \<Rightarrow> sample \<Rightarrow> bool" where
  "along nx a si sj \<longleftrightarrow> fst si ! a \<noteq> fst sj ! a \<and> (\<forall>b < nx. b \<noteq> a \<longrightarrow> fst si ! b = fst sj ! b)"

text \<open>Every axis along which the samples vary has a pair of samples that differ along it only.\<close>

definition sampled :: "nat \<Rightarrow> sample list \<Rightarrow> bool" where
  "sampled nx S \<longleftrightarrow>
     (\<forall>a < nx. (\<exists>s \<in> set S. \<exists>t \<in> set S. fst s ! a \<noteq> fst t ! a) \<longrightarrow> (\<exists>s \<in> set S. \<exists>t \<in> set S. along nx a s t))"

lemma on_map_lin:
  "on_map nx b st S \<Longrightarrow> s \<in> set S \<Longrightarrow> lin g (snd s) = lin g b + (\<Sum>a<nx. fst s ! a * stride_lin g (st ! a))"
  using lin_moved_add [of st g "fst s" b] by (auto simp: on_map_def)

lemma along_difference:
  assumes "on_map nx b st S" and "si \<in> set S" and "sj \<in> set S" and "a < nx" and "along nx a si sj"
  shows "lin g (sub_terms (snd sj) (snd si)) = (fst sj ! a - fst si ! a) * stride_lin g (st ! a)"
proof -
  have "lin g (sub_terms (snd sj) (snd si)) = (\<Sum>c<nx. (fst sj ! c - fst si ! c) * stride_lin g (st ! c))"
    using on_map_lin [OF assms(1,2)] on_map_lin [OF assms(1,3)] by (simp add: sum_subtractf algebra_simps)
  also have "\<dots> = (\<Sum>c<nx. if c = a then (fst sj ! a - fst si ! a) * stride_lin g (st ! a) else 0)"
    using assms(5) by (intro sum.cong) (auto simp: along_def)
  also have "\<dots> = (fst sj ! a - fst si ! a) * stride_lin g (st ! a)" using assms(4) by simp
  finally show ?thesis .
qed

lemma lin_divided:
  "list_all (\<lambda>t. snd t mod k = 0) p \<Longrightarrow> k * lin g (map (\<lambda>t. (fst t, snd t div k)) p) = lin g p" for k :: int
proof (induction p)
  case (Cons t p)
  then have "k * (snd t div k) = snd t" by (simp add: mod_0_imp_dvd)
  with Cons show ?case by (simp add: algebra_simps)
qed simp

lemma step_of_along: "step_of nx a si sj = Some p \<Longrightarrow> a < nx \<Longrightarrow> along nx a si sj"
  by (auto simp: step_of_def along_def list_all_iff Let_def split: if_splits)

lemma step_of_lin:
  assumes "step_of nx a si sj = Some p"
  shows "(fst sj ! a - fst si ! a) * lin g p = lin g (sub_terms (snd sj) (snd si))"
proof -
  define k where "k = fst sj ! a - fst si ! a"
  have "k = 1 \<and> p = sub_terms (snd sj) (snd si) \<or>
      list_all (\<lambda>t. snd t mod k = 0) (sub_terms (snd sj) (snd si)) \<and> p = mk_terms (map (\<lambda>t. (fst t, snd t div k)) (sub_terms (snd sj) (snd si)))"
    using assms unfolding step_of_def k_def [symmetric] Let_def by (auto split: if_splits)
  then show ?thesis unfolding k_def [symmetric] using lin_divided [of k "sub_terms (snd sj) (snd si)" g] by auto
qed

lemma step_of_ok:
  assumes "step_of nx a si sj = Some p" and "poly_ok (snd si)" and "poly_ok (snd sj)"
  shows "poly_ok p"
proof -
  have d: "poly_ok (sub_terms (snd sj) (snd si))" by (rule poly_ok_ops(2) [OF assms(3,2)])
  have "poly_ok (mk_terms (map (\<lambda>t. (fst t, snd t div k)) (sub_terms (snd sj) (snd si))))" for k
    using d by (intro poly_ok_mk) (auto simp: poly_ok_def)
  with d show ?thesis using assms(1) by (auto simp: step_of_def Let_def split: if_splits)
qed

lemma step_of_exists:
  assumes "on_map nx b st S" and "si \<in> set S" and "sj \<in> set S" and "a < nx" and "along nx a si sj"
  shows "step_of nx a si sj \<noteq> None"
proof -
  define k where "k = fst sj ! a - fst si ! a"
  let ?d = "sub_terms (snd sj) (snd si)"
  have "snd t mod k = 0" if "t \<in> set ?d" for t
  proof -
    have "coef ?d (fst t) = snd t" using canonical_mem [of ?d "fst t" "snd t"] that by simp
    then have "snd t = k * stride_lin (\<lambda>n. if n = fst t then 1 else 0) (st ! a)"
      using along_difference [OF assms, of "\<lambda>n. if n = fst t then 1 else 0"] by (simp add: coef_def k_def)
    then show ?thesis by simp
  qed
  then show ?thesis using assms(5) unfolding step_of_def k_def [symmetric] Let_def
    by (auto simp: along_def list_all_iff k_def)
qed

lemma stride_of_pair:
  assumes "stride_of nx S a = Some p"
  obtains si sj where "si \<in> set S" "sj \<in> set S" "step_of nx a si sj = Some p"
proof -
  from first_some_Some [OF assms [unfolded stride_of_def]]
  obtain i j where "i < length S" "j < length S" "step_of nx a (S ! i) (S ! j) = Some p"
    by (auto split: if_splits)
  with that show ?thesis by (meson nth_mem)
qed

lemma stride_of_exists:
  assumes "step_of nx a si sj \<noteq> None" and "si \<in> set S" and "sj \<in> set S" and "a < nx"
  shows "stride_of nx S a \<noteq> None"
proof -
  obtain i j where ij: "i < length S" "j < length S" "si = S ! i" "sj = S ! j" using assms(2,3) by (metis in_set_conv_nth)
  have "along nx a si sj" using assms(1,4) step_of_along by (metis not_None_eq)
  then have "i \<noteq> j" using ij by (auto simp: along_def)
  with assms(1) ij show ?thesis unfolding stride_of_def first_some_None by force
qed

lemma stride_of_lin:
  assumes "on_map nx b st S" and "a < nx" and "stride_of nx S a = Some p"
  shows "lin g p = stride_lin g (st ! a)"
proof -
  obtain si sj where s: "si \<in> set S" "sj \<in> set S" "step_of nx a si sj = Some p" using stride_of_pair [OF assms(3)] .
  have al: "along nx a si sj" by (rule step_of_along [OF s(3) assms(2)])
  have "(fst sj ! a - fst si ! a) * lin g p = (fst sj ! a - fst si ! a) * stride_lin g (st ! a)"
    using step_of_lin [OF s(3)] along_difference [OF assms(1) s(1,2) assms(2) al] by simp
  then show ?thesis using al by (auto simp: along_def)
qed

lemma origin_less: "S \<noteq> [] \<Longrightarrow> origin S < length S"
proof -
  assume "S \<noteq> []"
  have "fold (\<lambda>i k. if fst (S ! i) < fst (S ! k) then i else k) is k < length S" if "\<forall>i \<in> set is. i < length S" "k < length S" for "is" k
    using that by (induction "is" arbitrary: k) auto
  with \<open>S \<noteq> []\<close> show ?thesis by (auto simp: origin_def)
qed

subsection \<open>The fit\<close>

definition strip_zero :: "terms option \<Rightarrow> terms option" where
  "strip_zero s = (if s = Some [] then None else s)"

lemma strip_zero_lin [simp]: "stride_lin g (strip_zero s) = stride_lin g s"
  by (simp add: strip_zero_def stride_lin_def)

lemma strip_zero_ok: "stride_ok s \<Longrightarrow> stride_ok (strip_zero s)"
  by (simp add: strip_zero_def stride_ok_def)

text \<open>The fit without its messages: the strides, the base and the check of every sample.\<close>

definition raw_strides :: "sample list \<Rightarrow> terms option list" where
  "raw_strides S = (let nx = length (fst (S ! 0)) in map (stride_of nx S) [0..<nx])"

definition fit_base :: "sample list \<Rightarrow> terms" where
  "fit_base S = moved sub_terms (raw_strides S) (fst (S ! origin S)) (snd (S ! origin S))"

lemma fit_Inr:
  "fit names str S = Inr (b, st) \<longleftrightarrow>
     S \<noteq> [] \<and> b = fit_base S \<and> st = map strip_zero (raw_strides S) \<and>
     (\<forall>a < length (fst (S ! 0)). raw_strides S ! a \<noteq> None \<or> (\<forall>s \<in> set S. fst s ! a = fst (S ! origin S) ! a)) \<and>
     (\<forall>s \<in> set S. moved add_terms st (fst s) b = snd s)"
proof -
  define R where "R = raw_strides S"
  have R: "map (stride_of (length (fst (S ! 0))) S) [0..<length (fst (S ! 0))] = R" by (simp add: R_def raw_strides_def Let_def)
  have z: "map (\<lambda>s. if s = Some [] then None else s) R = map strip_zero R" by (simp add: strip_zero_def)
  have find: "(case List.find P xs of Some a \<Rightarrow> Inl (f a) | None \<Rightarrow> r) = Inr y \<longleftrightarrow> (\<forall>x \<in> set xs. \<not> P x) \<and> r = Inr y"
    for P :: "'b \<Rightarrow> bool" and xs and f :: "'b \<Rightarrow> string" and r y
    using find_None_iff [of P xs] by (cases "List.find P xs") auto
  define B T where "B = fit_base S" and "T = map strip_zero R"
  define Q where "Q a \<longleftrightarrow> R ! a \<noteq> None \<or> (\<forall>s \<in> set S. fst s ! a = fst (S ! origin S) ! a)" for a
  define M where "M st b s \<longleftrightarrow> moved add_terms st (fst s) b = snd s" for st b and s :: sample
  have B: "moved sub_terms R (fst (S ! origin S)) (snd (S ! origin S)) = B" by (simp add: B_def fit_base_def R_def)
  show ?thesis
  proof (cases "S = []")
    case False
    then have "fit names str S = Inr (b, st) \<longleftrightarrow>
        (\<forall>a \<in> set [0..<length (fst (S ! 0))]. \<not> (R ! a = None \<and> list_ex (\<lambda>s. fst s ! a \<noteq> fst (S ! origin S) ! a) S)) \<and>
        (\<forall>s \<in> set S. \<not> moved add_terms T (fst s) B \<noteq> snd s) \<and> Inr (B, T) = (Inr (b, st) :: string + terms \<times> terms option list)"
      unfolding fit_def Let_def R z B T_def [symmetric] by (simp only: if_False find)
    also have "\<dots> \<longleftrightarrow> (\<forall>a \<in> set [0..<length (fst (S ! 0))]. Q a) \<and> (\<forall>s \<in> set S. M T B s) \<and> b = B \<and> st = T"
    proof -
      have "\<not> (R ! a = None \<and> list_ex (\<lambda>s. fst s ! a \<noteq> fst (S ! origin S) ! a) S) \<longleftrightarrow> Q a" for a
        unfolding Q_def list_ex_iff by (cases "R ! a = None") simp_all
      then show ?thesis by (simp only: M_def not_not sum.inject prod.inject) blast
    qed
    also have "\<dots> \<longleftrightarrow> b = B \<and> st = T \<and> (\<forall>a < length (fst (S ! 0)). Q a) \<and> (\<forall>s \<in> set S. M st b s)"
      by auto
    finally show ?thesis using False unfolding Q_def M_def B_def R_def T_def by (simp only: not_False_eq_True simp_thms)
  qed (simp add: fit_def)
qed

lemma length_raw [simp]: "length (raw_strides S) = length (fst (S ! 0))"
  by (simp add: raw_strides_def Let_def)

lemma raw_nth: "a < length (fst (S ! 0)) \<Longrightarrow> raw_strides S ! a = stride_of (length (fst (S ! 0))) S a"
  by (simp add: raw_strides_def Let_def)

lemma raw_ok:
  assumes "\<forall>s \<in> set S. poly_ok (snd s)"
  shows "list_all stride_ok (raw_strides S)"
proof -
  have "stride_ok (stride_of nx S a)" for nx a
  proof (cases "stride_of nx S a")
    case (Some p)
    then obtain si sj where "si \<in> set S" "sj \<in> set S" "step_of nx a si sj = Some p" by (rule stride_of_pair)
    then show ?thesis using assms Some step_of_ok by (auto simp: stride_ok_def)
  qed (simp add: stride_ok_def)
  then show ?thesis by (simp add: list_all_length raw_nth)
qed

lemma fit_map:
  assumes "fit names str S = Inr (b, st)" and "\<forall>s \<in> set S. poly_ok (snd s)"
  shows "on_map (length (fst (S ! 0))) b st S"
proof -
  from assms(1) have f: "S \<noteq> []" "b = fit_base S" "st = map strip_zero (raw_strides S)" "\<forall>s \<in> set S. moved add_terms st (fst s) b = snd s"
    unfolding fit_Inr by blast+
  have "poly_ok (snd (S ! origin S))" using assms(2) origin_less [OF f(1)] by simp
  then have "poly_ok b" unfolding f(2) fit_base_def by (intro poly_ok_moved raw_ok [OF assms(2)]) simp_all
  moreover have "list_all stride_ok st" using raw_ok [OF assms(2)] strip_zero_ok by (simp add: f(3) list_all_iff)
  ultimately show ?thesis using f(3,4) by (auto simp: on_map_def)
qed

lemma fit_exists:
  assumes "S \<noteq> []" and "\<forall>s \<in> set S. poly_ok (snd s) \<and> length (fst s) = nx" and map: "on_map nx b st S" and "sampled nx S"
  shows "\<exists>b st. fit names str S = Inr (b, st)"
proof -
  have nx: "length (fst (S ! 0)) = nx" using assms(1,2) by simp
  define k R where "k = S ! origin S" and "R = raw_strides S"
  have k: "k \<in> set S" using origin_less [OF assms(1)] by (simp add: k_def)
  have R: "list_all stride_ok R" "length R = nx" using raw_ok assms(2) nx by (simp_all add: R_def)
  have have_stride: "R ! a \<noteq> None \<or> (\<forall>s \<in> set S. fst s ! a = fst k ! a)" if a: "a < nx" for a
  proof (cases "\<forall>s \<in> set S. fst s ! a = fst k ! a")
    case False
    with k assms(4) a obtain s t where st: "s \<in> set S" "t \<in> set S" "along nx a s t" unfolding sampled_def by blast
    have "step_of nx a s t \<noteq> None" by (rule step_of_exists [OF map st(1,2) a st(3)])
    then have "stride_of nx S a \<noteq> None" by (rule stride_of_exists [OF _ st(1,2) a])
    then show ?thesis using a by (simp add: R_def raw_nth nx)
  qed simp
  have lin_R: "stride_lin g (R ! a) = stride_lin g (st ! a)" if "a < nx" "R ! a \<noteq> None" for g a
    using that stride_of_lin [OF map that(1)] by (auto simp: R_def raw_nth nx stride_lin_def)
  have "moved add_terms (map strip_zero R) (fst s) (fit_base S) = snd s" if s: "s \<in> set S" for s
  proof (rule canonical_eqI)
    have "poly_ok (fit_base S)"
      unfolding fit_base_def using assms(2) k raw_ok by (intro poly_ok_moved) (auto simp: k_def)
    then show "canonical (moved add_terms (map strip_zero R) (fst s) (fit_base S))"
      using poly_ok_moved [of "map strip_zero R" "fit_base S" add_terms "fst s"] R(1) strip_zero_ok
      by (simp add: poly_ok_def list_all_iff)
    show "canonical (snd s)" using assms(2) s by (simp add: poly_ok_def)
    fix g
    have "lin g (moved add_terms (map strip_zero R) (fst s) (fit_base S))
        = lin g (snd k) - (\<Sum>a<nx. fst k ! a * stride_lin g (R ! a)) + (\<Sum>a<nx. fst s ! a * stride_lin g (R ! a))"
      using R strip_zero_ok by (simp add: lin_moved_add lin_moved_sub fit_base_def k_def R_def list_all_iff)
    also have "\<dots> = lin g (snd k) + (\<Sum>a<nx. (fst s ! a - fst k ! a) * stride_lin g (R ! a))"
      by (simp add: sum_subtractf algebra_simps)
    also have "(\<Sum>a<nx. (fst s ! a - fst k ! a) * stride_lin g (R ! a)) = (\<Sum>a<nx. (fst s ! a - fst k ! a) * stride_lin g (st ! a))"
    proof (rule sum.cong)
      fix a assume "a \<in> {..<nx}"
      then show "(fst s ! a - fst k ! a) * stride_lin g (R ! a) = (fst s ! a - fst k ! a) * stride_lin g (st ! a)"
        using have_stride [of a] lin_R [of a g] s by auto
    qed simp
    also have "lin g (snd k) + (\<Sum>a<nx. (fst s ! a - fst k ! a) * stride_lin g (st ! a)) = lin g (snd s)"
      using on_map_lin [OF map k] on_map_lin [OF map s] by (simp add: sum_subtractf algebra_simps)
    finally show "lin g (moved add_terms (map strip_zero R) (fst s) (fit_base S)) = lin g (snd s)" .
  qed
  then have "fit names str S = Inr (fit_base S, map strip_zero R)"
    using assms(1) have_stride unfolding fit_Inr R_def [symmetric] k_def [symmetric] nx by blast
  then show ?thesis by blast
qed

lemma fit_sampled:
  assumes "fit names str S = Inr (b, st)" and "\<forall>s \<in> set S. length (fst s) = nx"
  shows "sampled nx S"
  unfolding sampled_def
proof (intro allI impI)
  fix a assume a: "a < nx" and vary: "\<exists>s \<in> set S. \<exists>t \<in> set S. fst s ! a \<noteq> fst t ! a"
  have f: "S \<noteq> []" "raw_strides S ! a = None \<Longrightarrow> s \<in> set S \<Longrightarrow> fst s ! a = fst (S ! origin S) ! a" for s
    using assms(1) a assms(2) unfolding fit_Inr by auto
  have nx: "length (fst (S ! 0)) = nx" using f(1) assms(2) by simp
  have "raw_strides S ! a \<noteq> None" using vary f(2) by metis
  then obtain p where "stride_of nx S a = Some p" using a by (auto simp: raw_nth nx)
  then obtain si sj where "si \<in> set S" "sj \<in> set S" "step_of nx a si sj = Some p" by (rule stride_of_pair)
  with step_of_along [OF _ a] show "\<exists>s \<in> set S. \<exists>t \<in> set S. along nx a s t" by blast
qed

text \<open>C29: the fit succeeds exactly when the samples lie on an affine map over the axes and every axis along which
  they vary has two samples that differ along it alone.\<close>

theorem fit_iff_affine:
  assumes "S \<noteq> []" and "\<forall>s \<in> set S. poly_ok (snd s) \<and> length (fst s) = nx"
  shows "(\<exists>b st. fit names str S = Inr (b, st)) \<longleftrightarrow> (\<exists>b st. on_map nx b st S) \<and> sampled nx S"
proof
  assume "\<exists>b st. fit names str S = Inr (b, st)"
  then obtain b st where f: "fit names str S = Inr (b, st)" by blast
  have "length (fst (S ! 0)) = nx" using assms by simp
  then show "(\<exists>b st. on_map nx b st S) \<and> sampled nx S"
    using fit_map [OF f] fit_sampled [OF f] assms(2) by blast
qed (use fit_exists [OF assms] in blast)

definition demo_samples :: "sample list" where
  "demo_samples = [([1, 0], [([], 4), ([0], 1)]), ([0, 0], [([0], 1)]), ([0, 2], [([0], 1), ([1], 2)])]"

theorem fit_iff_affine_witness:
  "(\<exists>b st. on_map 2 b st demo_samples) \<and> sampled 2 demo_samples"
proof -
  have ok: "\<forall>s \<in> set demo_samples. poly_ok (snd s) \<and> length (fst s) = 2" by (simp add: demo_samples_def poly_ok_def)
  have "\<exists>b st. fit [] (\<lambda>_. []) demo_samples = Inr (b, st)"
  proof -
    have "\<not> isl (fit [] (\<lambda>_. []) demo_samples)" by code_simp
    then show ?thesis by (cases "fit [] (\<lambda>_. []) demo_samples") auto
  qed
  moreover have "demo_samples \<noteq> []" by (simp add: demo_samples_def)
  ultimately show ?thesis using fit_iff_affine [OF _ ok] by blast
qed

subsection \<open>The families\<close>

lemma pval_moved_sub:
  "pval V (moved sub_terms st x base) =
    pval V base - (\<Sum>a<length st. x ! a * (case st ! a of None \<Rightarrow> 0 | Some p \<Rightarrow> pval V p))"
proof -
  have "pval V (fold (\<lambda>a p. case st ! a of Some s \<Rightarrow> if x ! a \<noteq> 0 then sub_terms p (mul_terms s (poly_const (x ! a))) else p | None \<Rightarrow> p) [0..<n] base)
      = pval V base - (\<Sum>a<n. x ! a * (case st ! a of None \<Rightarrow> 0 | Some p \<Rightarrow> pval V p))" for n
    by (induction n) (auto simp: poly_const_def split: option.splits)
  then show ?thesis by (simp add: moved_def)
qed

lemma set_firsts [simp]: "set (firsts xs) = set xs"
  by (induction xs) auto

lemma distinct_firsts: "distinct (firsts xs)"
  by (induction xs) simp_all

lemma groups_mset:
  "distinct rs \<Longrightarrow> f ` set S \<subseteq> set rs \<Longrightarrow> mset (concat (map (\<lambda>r. filter (\<lambda>s. f s = r) S) rs)) = mset S"
proof (induction rs arbitrary: S)
  case (Cons r rs)
  let ?T = "filter (\<lambda>s. f s \<noteq> r) S"
  have "filter (\<lambda>s. f s = q) S = filter (\<lambda>s. f s = q) ?T" if "q \<in> set rs" for q
  proof -
    have "q \<noteq> r" using that Cons.prems(1) by auto
    then have "filter (\<lambda>s. f s = q) S = filter (\<lambda>s. f s \<noteq> r \<and> f s = q) S" by (intro filter_cong) auto
    then show ?thesis by (simp only: filter_filter)
  qed
  then have "map (\<lambda>q. filter (\<lambda>s. f s = q) S) rs = map (\<lambda>q. filter (\<lambda>s. f s = q) ?T) rs" by simp
  moreover have "mset (concat (map (\<lambda>q. filter (\<lambda>s. f s = q) ?T) rs)) = mset ?T"
    using Cons.prems by (intro Cons.IH) auto
  ultimately have "mset (concat (map (\<lambda>q. filter (\<lambda>s. f s = q) S) rs)) = mset ?T" by (simp only:)
  then have "mset (concat (map (\<lambda>q. filter (\<lambda>s. f s = q) S) (r # rs))) = mset (filter (\<lambda>s. f s = r) S) + mset ?T"
    by (simp only: list.map concat.simps mset_append)
  then show ?case by (simp add: multiset_partition [of "mset S" "\<lambda>s. f s = r", symmetric])
qed simp

text \<open>The families are not empty and together they are the samples; when the samples do not fit as one
  affine map, the samples of one family differ by common strides only.\<close>

lemma families_partition:
  assumes "S \<noteq> []"
  shows "mset (concat (splitFamilies num names str S)) = mset S \<and> [] \<notin> set (splitFamilies num names str S) \<and>
    (isl (fit names str S) \<and> 1 < length S \<longrightarrow>
      (\<exists>st. length st = length (fst (S ! 0)) \<and> (\<forall>F \<in> set (splitFamilies num names str S). \<exists>r. \<forall>s \<in> set F. \<forall>V.
         pval V (snd s) = pval V r + (\<Sum>a<length st. fst s ! a * (case st ! a of None \<Rightarrow> 0 | Some p \<Rightarrow> pval V p)))))"
proof (cases "length S \<le> 1 \<or> \<not> isl (fit names str S)")
  case True
  then show ?thesis using assms by (auto simp: splitFamilies_def)
next
  case False
  define st where "st = map (\<lambda>a. let best = best_vote num (votes (length (fst (S ! 0))) S a) in if best = Some [] then None else best) [0..<length (fst (S ! 0))]"
  define res where "res = (\<lambda>s. moved sub_terms st (fst s) (snd s))"
  have fam: "splitFamilies num names str S = map (\<lambda>r. filter (\<lambda>s. res s = r) S) (firsts (map res S))"
    using False by (simp add: splitFamilies_def st_def res_def Let_def)
  have "mset (concat (splitFamilies num names str S)) = mset S"
    unfolding fam by (rule groups_mset) (simp_all add: distinct_firsts)
  moreover have "[] \<notin> set (splitFamilies num names str S)"
    by (auto simp: fam filter_empty_conv eq_commute [of "[]"])
  moreover have "\<forall>F \<in> set (splitFamilies num names str S). \<exists>r. \<forall>s \<in> set F. \<forall>V.
      pval V (snd s) = pval V r + (\<Sum>a<length st. fst s ! a * (case st ! a of None \<Rightarrow> 0 | Some p \<Rightarrow> pval V p))"
  proof
    fix F assume "F \<in> set (splitFamilies num names str S)"
    then obtain r where "F = filter (\<lambda>s. res s = r) S" by (auto simp: fam)
    then have "\<forall>s \<in> set F. moved sub_terms st (fst s) (snd s) = r" by (simp add: res_def)
    then show "\<exists>r. \<forall>s \<in> set F. \<forall>V. pval V (snd s) = pval V r + (\<Sum>a<length st. fst s ! a * (case st ! a of None \<Rightarrow> 0 | Some p \<Rightarrow> pval V p))"
      using pval_moved_sub [where st = st] by (intro exI [of _ r]) force
  qed
  moreover have "length st = length (fst (S ! 0))" by (simp add: st_def)
  ultimately show ?thesis by blast
qed

theorem families_partition_witness:
  "mset (concat (splitFamilies length [] (\<lambda>_. []) demo_samples)) = mset demo_samples"
proof -
  have "demo_samples \<noteq> []" by (simp add: demo_samples_def)
  from families_partition [OF this, of length "[]" "\<lambda>_. []"] show ?thesis by blast
qed

end
