(* ===== verification/Device_Props.thy ===== *)
theory Device_Props
  imports CppString
begin

text \<open>
  The device properties the runtime reports (\<open>cpp/mvcc-metal/mvcc_props.cpp\<close>): the members of
  \<open>struct cudaDeviceProp\<close> (\<open>include/driver_types.h\<close>) in order with their types, their place in memory under
  the rules of the 64-bit ABI, and \<open>mvcc_fill_device_prop\<close>, which clears the structure and assigns members.
  A filled structure is the list of values of every member, one for each element of an array; in memory it is
  their bytes, least significant first, at the addresses of the layout.

  The lemmas show that the members lie one after the other on their alignments, that every member is filled
  with values of its type, and that a reader of the bytes gets each value back; the theorem evaluates what is
  read at which address.
\<close>

subsection \<open>The structure\<close>

datatype ctype = CChar | CUuid | CInt | CUInt | CSizeT

text \<open>A member: its name, its type, the length of its array.\<close>

type_synonym member = "string \<times> ctype \<times> nat"

definition cudaDeviceProp :: "member list" where
  "cudaDeviceProp =
     [(''name'', CChar, 256), (''uuid'', CUuid, 1), (''luid'', CChar, 8), (''luidDeviceNodeMask'', CUInt, 1),
     (''totalGlobalMem'', CSizeT, 1), (''sharedMemPerBlock'', CSizeT, 1), (''regsPerBlock'', CInt, 1),
     (''warpSize'', CInt, 1), (''memPitch'', CSizeT, 1), (''maxThreadsPerBlock'', CInt, 1), (''maxThreadsDim'', CInt, 3),
     (''maxGridSize'', CInt, 3), (''clockRate'', CInt, 1), (''totalConstMem'', CSizeT, 1), (''major'', CInt, 1),
     (''minor'', CInt, 1), (''textureAlignment'', CSizeT, 1), (''texturePitchAlignment'', CSizeT, 1),
     (''deviceOverlap'', CInt, 1), (''multiProcessorCount'', CInt, 1), (''kernelExecTimeoutEnabled'', CInt, 1),
     (''integrated'', CInt, 1), (''canMapHostMemory'', CInt, 1), (''computeMode'', CInt, 1), (''maxTexture1D'', CInt, 1),
     (''maxTexture1DMipmap'', CInt, 1), (''maxTexture1DLinear'', CInt, 1), (''maxTexture2D'', CInt, 2),
     (''maxTexture2DMipmap'', CInt, 2), (''maxTexture2DLinear'', CInt, 3), (''maxTexture2DGather'', CInt, 2),
     (''maxTexture3D'', CInt, 3), (''maxTexture3DAlt'', CInt, 3), (''maxTextureCubemap'', CInt, 1),
     (''maxTexture1DLayered'', CInt, 2), (''maxTexture2DLayered'', CInt, 3), (''maxTextureCubemapLayered'', CInt, 2),
     (''maxSurface1D'', CInt, 1), (''maxSurface2D'', CInt, 2), (''maxSurface3D'', CInt, 3),
     (''maxSurface1DLayered'', CInt, 2), (''maxSurface2DLayered'', CInt, 3), (''maxSurfaceCubemap'', CInt, 1),
     (''maxSurfaceCubemapLayered'', CInt, 2), (''surfaceAlignment'', CSizeT, 1), (''concurrentKernels'', CInt, 1),
     (''ECCEnabled'', CInt, 1), (''pciBusID'', CInt, 1), (''pciDeviceID'', CInt, 1), (''pciDomainID'', CInt, 1),
     (''tccDriver'', CInt, 1), (''asyncEngineCount'', CInt, 1), (''unifiedAddressing'', CInt, 1),
     (''memoryClockRate'', CInt, 1), (''memoryBusWidth'', CInt, 1), (''l2CacheSize'', CInt, 1),
     (''persistingL2CacheMaxSize'', CInt, 1), (''maxThreadsPerMultiProcessor'', CInt, 1),
     (''streamPrioritiesSupported'', CInt, 1), (''globalL1CacheSupported'', CInt, 1),
     (''localL1CacheSupported'', CInt, 1), (''sharedMemPerMultiprocessor'', CSizeT, 1),
     (''regsPerMultiprocessor'', CInt, 1), (''managedMemory'', CInt, 1), (''isMultiGpuBoard'', CInt, 1),
     (''multiGpuBoardGroupID'', CInt, 1), (''hostNativeAtomicSupported'', CInt, 1),
     (''singleToDoublePrecisionPerfRatio'', CInt, 1), (''pageableMemoryAccess'', CInt, 1),
     (''concurrentManagedAccess'', CInt, 1), (''computePreemptionSupported'', CInt, 1),
     (''canUseHostPointerForRegisteredMem'', CInt, 1), (''cooperativeLaunch'', CInt, 1),
     (''cooperativeMultiDeviceLaunch'', CInt, 1), (''sharedMemPerBlockOptin'', CSizeT, 1),
     (''pageableMemoryAccessUsesHostPageTables'', CInt, 1), (''directManagedMemAccessFromHost'', CInt, 1),
     (''maxBlocksPerMultiProcessor'', CInt, 1), (''accessPolicyMaxWindowSize'', CInt, 1),
     (''reservedSharedMemPerBlock'', CSizeT, 1), (''hostRegisterSupported'', CInt, 1),
     (''sparseCudaArraySupported'', CInt, 1), (''hostRegisterReadOnlySupported'', CInt, 1),
     (''timelineSemaphoreInteropSupported'', CInt, 1), (''memoryPoolsSupported'', CInt, 1),
     (''gpuDirectRDMASupported'', CInt, 1), (''gpuDirectRDMAFlushWritesOptions'', CUInt, 1),
     (''gpuDirectRDMAWritesOrdering'', CInt, 1), (''memoryPoolSupportedHandleTypes'', CUInt, 1),
     (''deferredMappingCudaArraySupported'', CInt, 1), (''ipcEventSupported'', CInt, 1), (''clusterLaunch'', CInt, 1),
     (''unifiedFunctionPointers'', CInt, 1), (''reserved'', CInt, 63)]"

fun size_of :: "ctype \<Rightarrow> nat" where
  "size_of CChar = 1" | "size_of CUuid = 16" | "size_of CInt = 4" | "size_of CUInt = 4" | "size_of CSizeT = 8"

fun align_of :: "ctype \<Rightarrow> nat" where
  "align_of CChar = 1" | "align_of CUuid = 1" | "align_of CInt = 4" | "align_of CUInt = 4" | "align_of CSizeT = 8"

definition round_to :: "nat \<Rightarrow> nat \<Rightarrow> nat" where
  "round_to a n = (n + a - 1) div a * a"

text \<open>The first byte and the number of bytes of every member, from the offset \<open>o\<close> on.\<close>

fun layout :: "nat \<Rightarrow> member list \<Rightarrow> (string \<times> nat \<times> nat) list" where
  "layout k [] = []"
| "layout k ((nm, t, n) # ms) = (let k = round_to (align_of t) k in (nm, k, size_of t * n) # layout (k + size_of t * n) ms)"

definition struct_align :: "member list \<Rightarrow> nat" where
  "struct_align ms = foldr (\<lambda>(nm, t, n). max (align_of t)) ms 1"

definition struct_size :: "member list \<Rightarrow> nat" where
  "struct_size ms = round_to (struct_align ms) (fold (\<lambda>(nm, k, b) e. k + b) (layout 0 ms) 0)"

subsection \<open>The facts and the fill\<close>

record device_facts =
  df_name :: string
  total_mem :: u64
  core_count :: u32
  max_tg_mem :: u32
  max_threads_per_core :: u32
  df_major :: u32
  df_minor :: u32
  registry_id :: u64

type_synonym device_prop = "string \<Rightarrow> int list"

text \<open>The elements of a member; a \<open>cudaUUID_t\<close> has sixteen.\<close>

fun elements_of :: "ctype \<Rightarrow> nat \<Rightarrow> nat" where
  "elements_of CUuid n = 16 * n" | "elements_of t n = n"

definition zeroed :: "member list \<Rightarrow> device_prop" where
  "zeroed ms nm = (case map_of ms nm of None \<Rightarrow> [] | Some (t, n) \<Rightarrow> replicate (elements_of t n) 0)"

text \<open>A \<open>char\<close> is signed on the platform.\<close>

definition char_val :: "char \<Rightarrow> int" where
  "char_val c = (let n = int (of_char c) in if n < 128 then n else n - 256)"

text \<open>\<open>strncpy(p->name, f->name, n)\<close> into cleared memory of \<open>n + 1\<close> bytes; the source ends at its
  first zero.\<close>

definition strncpy_cleared :: "string \<Rightarrow> nat \<Rightarrow> int list" where
  "strncpy_cleared s n =
     (let t = take n (takeWhile (\<lambda>c. c \<noteq> CHR 0x00) s) in map char_val t @ replicate (n + 1 - length t) 0)"

definition le_char :: "u64 \<Rightarrow> nat \<Rightarrow> int" where
  "le_char v i = char_val (char_of (unat (drop_bit (8 * i) v) mod 256))"

definition fact_props :: "device_facts \<Rightarrow> (string \<times> int list) list" where
  "fact_props f =
     [(''name'', strncpy_cleared (df_name f) 255),
      (''uuid'', map (le_char (registry_id f)) [0..<8] @ replicate 8 0),
      (''totalGlobalMem'', [uint (total_mem f)]), (''major'', [sint (df_major f)]), (''minor'', [sint (df_minor f)]),
      (''multiProcessorCount'', [sint (core_count f)]),
      (''maxThreadsPerMultiProcessor'', [sint (max_threads_per_core f)])]"

definition constant_props :: "(string \<times> int list) list" where
  "constant_props =
     [(''sharedMemPerBlock'', [49152]), (''sharedMemPerBlockOptin'', [232448]),
     (''sharedMemPerMultiprocessor'', [233472]), (''reservedSharedMemPerBlock'', [0]), (''regsPerBlock'', [65536]),
     (''regsPerMultiprocessor'', [65536]), (''warpSize'', [32]), (''memPitch'', [2147483647]),
     (''maxThreadsPerBlock'', [1024]), (''maxThreadsDim'', [1024, 1024, 1024]),
     (''maxGridSize'', [2147483647, 65535, 65535]), (''clockRate'', [1400000]), (''totalConstMem'', [65536]),
     (''textureAlignment'', [512]), (''texturePitchAlignment'', [32]), (''deviceOverlap'', [1]),
     (''kernelExecTimeoutEnabled'', [0]), (''integrated'', [1]), (''canMapHostMemory'', [1]), (''computeMode'', [0]),
     (''concurrentKernels'', [1]), (''ECCEnabled'', [0]), (''asyncEngineCount'', [1]), (''unifiedAddressing'', [1]),
     (''memoryClockRate'', [0]), (''memoryBusWidth'', [0]), (''l2CacheSize'', [25165824]),
     (''persistingL2CacheMaxSize'', [0]), (''streamPrioritiesSupported'', [0]), (''globalL1CacheSupported'', [1]),
     (''localL1CacheSupported'', [1]), (''managedMemory'', [1]), (''isMultiGpuBoard'', [0]),
     (''hostNativeAtomicSupported'', [1]), (''singleToDoublePrecisionPerfRatio'', [0]),
     (''pageableMemoryAccess'', [0]), (''concurrentManagedAccess'', [1]), (''computePreemptionSupported'', [1]),
     (''canUseHostPointerForRegisteredMem'', [0]), (''cooperativeLaunch'', [0]),
     (''maxBlocksPerMultiProcessor'', [32]), (''accessPolicyMaxWindowSize'', [0]), (''hostRegisterSupported'', [1]),
     (''memoryPoolsSupported'', [0])]"

text \<open>The assignments are to different members, so their order does not matter.\<close>

definition mvcc_fill_device_prop :: "device_facts \<Rightarrow> device_prop" where
  "mvcc_fill_device_prop f =
     fold (\<lambda>(nm, v) p. p(nm := v)) (fact_props f @ constant_props) (zeroed cudaDeviceProp)"

subsection \<open>Places in memory\<close>

lemma round_to_spec: "0 < a \<Longrightarrow> n \<le> round_to a n \<and> a dvd round_to a n"
proof -
  assume a: "0 < a"
  have "n + a - 1 < (n + a - 1) div a * a + a" using a dividend_less_div_times [of a "n + a - 1"] by simp
  then have "n \<le> (n + a - 1) div a * a" using a by linarith
  then show ?thesis by (simp add: round_to_def)
qed

lemma align_pos [simp]: "0 < align_of t"
  by (cases t) simp_all

definition placed :: "nat \<Rightarrow> (string \<times> nat \<times> nat) list \<Rightarrow> bool" where
  "placed k ls \<longleftrightarrow> (\<forall>(nm, o', b) \<in> set ls. k \<le> o') \<and> sorted_wrt (\<lambda>x y. fst (snd x) + snd (snd x) \<le> fst (snd y)) ls"

lemma layout_placed: "placed k (layout k ms)"
proof (induction ms arbitrary: k)
  case (Cons m ms)
  obtain nm t n where m: "m = (nm, t, n)" by (cases m)
  let ?k = "round_to (align_of t) k"
  have "k \<le> ?k" using round_to_spec by simp
  moreover have "placed (?k + size_of t * n) (layout (?k + size_of t * n) ms)" by (rule Cons)
  ultimately show ?case by (fastforce simp: m placed_def Let_def)
qed (simp add: placed_def)

lemma layout_names: "map fst (layout k ms) = map fst ms"
  by (induction k ms rule: layout.induct) (simp_all add: Let_def)

lemma layout_aligned: "list_all2 (\<lambda>(nm, t, n) (nm', k', b). align_of t dvd k' \<and> b = size_of t * n) ms (layout k ms)"
  by (induction k ms rule: layout.induct) (simp_all add: Let_def round_to_spec)

lemma end_of_layout:
  "fold (\<lambda>(nm, k, b) e. k + b) (layout k ms) k = fold (\<lambda>(nm, t, n) k. round_to (align_of t) k + size_of t * n) ms k"
proof -
  have "fold (\<lambda>(nm, k, b) e. k + b) (layout k ms) e = (if ms = [] then e else fold (\<lambda>(nm, t, n) k. round_to (align_of t) k + size_of t * n) ms k)" for e
    by (induction k ms arbitrary: e rule: layout.induct) (auto simp: Let_def)
  then show ?thesis by simp
qed

text \<open>Whatever the members of a structure, they are laid out in order without overlap, each on its alignment
  and with the bytes of its type; \<open>cudaDeviceProp\<close> takes 1032 bytes.\<close>

lemma device_prop_layout:
  "map fst (layout 0 ms) = map fst ms \<and> placed 0 (layout 0 ms) \<and>
   list_all2 (\<lambda>(nm, t, n) (nm', k, b). align_of t dvd k \<and> b = size_of t * n) ms (layout 0 ms) \<and>
   struct_size cudaDeviceProp = 1032"
proof (intro conjI)
  show "struct_size cudaDeviceProp = 1032"
    unfolding struct_size_def end_of_layout
    by (simp add: struct_align_def cudaDeviceProp_def round_to_def)
qed (rule layout_names layout_placed layout_aligned)+

subsection \<open>The filled structure\<close>

fun in_type :: "ctype \<Rightarrow> int \<Rightarrow> bool" where
  "in_type CChar v = (- 128 \<le> v \<and> v < 128)"
| "in_type CUuid v = (- 128 \<le> v \<and> v < 128)"
| "in_type CInt v = (- 2147483648 \<le> v \<and> v < 2147483648)"
| "in_type CUInt v = (0 \<le> v \<and> v < 4294967296)"
| "in_type CSizeT v = (0 \<le> v \<and> v < 18446744073709551616)"

definition typed :: "string \<Rightarrow> int list \<Rightarrow> bool" where
  "typed nm v =
     (case map_of cudaDeviceProp nm of None \<Rightarrow> False
      | Some (t, n) \<Rightarrow> length v = elements_of t n \<and> list_all (in_type t) v)"

lemma signed_byte:
  "0 \<le> n \<Longrightarrow> n < 256 \<Longrightarrow> - 128 \<le> (if n < 128 then n else n - 256) \<and> (if n < 128 then n else n - 256) < 128 \<and>
    ((if n < 128 then n else n - 256) = 0 \<longleftrightarrow> n = 0)" for n :: int
  by auto

lemma char_val_range: "- 128 \<le> char_val c \<and> char_val c < 128"
proof -
  have "of_char c < (256 :: nat)" by (rule nat_of_char_less_256)
  then have "int (of_char c) < 256" by linarith
  then show ?thesis unfolding char_val_def Let_def using signed_byte [of "int (of_char c)"] by (simp only: of_nat_0_le_iff simp_thms)
qed

lemma char_val_zero: "char_val c = 0 \<longleftrightarrow> c = CHR 0x00"
proof -
  have "of_char c < (256 :: nat)" by (rule nat_of_char_less_256)
  moreover have "of_char c = (0 :: nat) \<longleftrightarrow> c = CHR 0x00" using of_char_eq_iff [of c "CHR 0x00"] by simp
  ultimately have "int (of_char c) < 256" "int (of_char c) = 0 \<longleftrightarrow> c = CHR 0x00" by linarith+
  then show ?thesis unfolding char_val_def Let_def using signed_byte [of "int (of_char c)"] by (simp only: of_nat_0_le_iff simp_thms)
qed

lemma constant_typed: "list_all (\<lambda>(nm, v). typed nm v) constant_props"
  by code_simp

lemma sint_u32: "- 2147483648 \<le> sint (x :: u32) \<and> sint x < 2147483648"
  using sint_greater_eq [of x] sint_less [of x] by simp

lemma uint_u64: "0 \<le> uint (x :: u64) \<and> uint x < 18446744073709551616"
  using unsigned_less [of x] by simp

lemma fact_typed: "list_all (\<lambda>(nm, v). typed nm v) (fact_props f)"
proof -
  have m: "map_of cudaDeviceProp ''name'' = Some (CChar, 256)" "map_of cudaDeviceProp ''uuid'' = Some (CUuid, 1)"
    "map_of cudaDeviceProp ''totalGlobalMem'' = Some (CSizeT, 1)" "map_of cudaDeviceProp ''major'' = Some (CInt, 1)"
    "map_of cudaDeviceProp ''minor'' = Some (CInt, 1)" "map_of cudaDeviceProp ''multiProcessorCount'' = Some (CInt, 1)"
    "map_of cudaDeviceProp ''maxThreadsPerMultiProcessor'' = Some (CInt, 1)"
    by code_simp+
  have "length (strncpy_cleared (df_name f) 255) = 256" by (simp add: strncpy_cleared_def Let_def)
  moreover have "list_all (in_type CChar) (strncpy_cleared (df_name f) 255)"
    using char_val_range by (simp add: strncpy_cleared_def Let_def list_all_iff)
  moreover have "list_all (in_type CUuid) (map (le_char (registry_id f)) [0..<8] @ replicate 8 0)"
    using char_val_range by (auto simp: list_all_iff le_char_def)
  ultimately show ?thesis using sint_u32 uint_u64 by (simp add: fact_props_def typed_def m)
qed

lemma assign_value:
  "distinct (map fst kvs) \<Longrightarrow> fold (\<lambda>(nm, v) p. p(nm := v)) kvs p nm = (case map_of kvs nm of None \<Rightarrow> p nm | Some v \<Rightarrow> v)"
proof (induction kvs arbitrary: p)
  case (Cons kv kvs)
  obtain k v where kv: "kv = (k, v)" by (cases kv)
  have "map_of kvs k = None" using Cons.prems by (simp add: kv map_of_eq_None_iff)
  with Cons show ?case by (auto simp: kv split: option.splits)
qed simp

lemma names_distinct: "distinct (map fst (fact_props f @ constant_props))"
proof -
  have "map fst (fact_props f @ constant_props) =
      [''name'', ''uuid'', ''totalGlobalMem'', ''major'', ''minor'', ''multiProcessorCount'', ''maxThreadsPerMultiProcessor''] @ map fst constant_props"
    by (simp add: fact_props_def)
  moreover have "distinct ([''name'', ''uuid'', ''totalGlobalMem'', ''major'', ''minor'', ''multiProcessorCount'', ''maxThreadsPerMultiProcessor''] @ map fst constant_props)"
    by code_simp
  ultimately show ?thesis by (simp only:)
qed

lemma zeroed_typed: "map_of cudaDeviceProp nm \<noteq> None \<Longrightarrow> typed nm (zeroed cudaDeviceProp nm)"
proof -
  assume "map_of cudaDeviceProp nm \<noteq> None"
  then obtain t n where m: "map_of cudaDeviceProp nm = Some (t, n)" by auto
  have "in_type t 0" by (cases t) simp_all
  with m show ?thesis by (simp add: typed_def zeroed_def list_all_iff)
qed

text \<open>Every member of the filled structure has as many elements as in the declaration, each in the range of
  its type; the members that are not assigned are zero.\<close>

lemma fill_value:
  "mvcc_fill_device_prop f nm =
     (case map_of (fact_props f @ constant_props) nm of None \<Rightarrow> zeroed cudaDeviceProp nm | Some v \<Rightarrow> v)"
  unfolding mvcc_fill_device_prop_def by (rule assign_value [OF names_distinct])

lemma fill_typed: "map_of cudaDeviceProp nm \<noteq> None \<Longrightarrow> typed nm (mvcc_fill_device_prop f nm)"
proof (cases "map_of (fact_props f @ constant_props) nm")
  case None
  then have "mvcc_fill_device_prop f nm = zeroed cudaDeviceProp nm" by (simp only: fill_value option.case)
  moreover assume "map_of cudaDeviceProp nm \<noteq> None"
  ultimately show ?thesis using zeroed_typed by simp
next
  case (Some v)
  then have "(nm, v) \<in> set (fact_props f @ constant_props)" by (rule map_of_SomeD)
  moreover have "list_all (\<lambda>(nm, v). typed nm v) (fact_props f @ constant_props)"
    using fact_typed constant_typed by simp
  moreover have "mvcc_fill_device_prop f nm = v" using Some by (simp only: fill_value option.case)
  ultimately show ?thesis unfolding list_all_iff by auto
qed

subsection \<open>The bytes of the structure\<close>

text \<open>A value in two's complement, least significant byte first, and what a program reads back.\<close>

definition byte_list :: "nat \<Rightarrow> int \<Rightarrow> int list" where
  "byte_list n v = map (\<lambda>i. v div 256 ^ i mod 256) [0..<n]"

definition bytes_value :: "int list \<Rightarrow> int" where
  "bytes_value bs = foldr (\<lambda>b v. b + 256 * v) bs 0"

definition to_signed :: "nat \<Rightarrow> int \<Rightarrow> int" where
  "to_signed n v = (if v < 2 ^ (8 * n - 1) then v else v - 2 ^ (8 * n))"

fun unit_size :: "ctype \<Rightarrow> nat" where
  "unit_size CUuid = 1" | "unit_size t = size_of t"

definition member_bytes :: "ctype \<Rightarrow> int list \<Rightarrow> int list" where
  "member_bytes t vs = concat (map (byte_list (unit_size t)) vs)"

fun memory :: "nat \<Rightarrow> member list \<Rightarrow> device_prop \<Rightarrow> int list" where
  "memory k [] p = []"
| "memory k ((nm, t, n) # ms) p =
     (let k' = round_to (align_of t) k
      in replicate (k' - k) 0 @ member_bytes t (p nm) @ memory (k' + size_of t * n) ms p)"

definition filled_memory :: "device_facts \<Rightarrow> int list" where
  "filled_memory f = memory 0 cudaDeviceProp (mvcc_fill_device_prop f)"

fun read_at :: "ctype \<Rightarrow> int list \<Rightarrow> nat \<Rightarrow> int" where
  "read_at CChar m k = to_signed 1 (bytes_value (take 1 (drop k m)))"
| "read_at CUuid m k = to_signed 1 (bytes_value (take 1 (drop k m)))"
| "read_at CInt m k = to_signed 4 (bytes_value (take 4 (drop k m)))"
| "read_at CUInt m k = bytes_value (take 4 (drop k m))"
| "read_at CSizeT m k = bytes_value (take 8 (drop k m))"

text \<open>The terminated string at an address.\<close>

definition c_string :: "int list \<Rightarrow> nat \<Rightarrow> string" where
  "c_string m k = map (\<lambda>b. char_of (nat b)) (takeWhile (\<lambda>b. b \<noteq> 0) (drop k m))"

lemma byte_list_Suc: "byte_list (Suc n) v = v mod 256 # byte_list n (v div 256)"
proof -
  have "v div 256 ^ Suc i mod 256 = v div 256 div 256 ^ i mod 256" for i
    by (simp add: zdiv_zmult2_eq [symmetric] mult.commute)
  then show ?thesis
    by (simp add: byte_list_def upt_conv_Cons map_Suc_upt [symmetric] o_def del: upt_Suc power_Suc)
qed

lemma length_byte_list [simp]: "length (byte_list n v) = n"
  by (simp add: byte_list_def)

lemma bytes_value_list: "bytes_value (byte_list n v) = v mod 256 ^ n"
proof (induction n arbitrary: v)
  case 0
  then show ?case by (simp add: bytes_value_def byte_list_def)
next
  case (Suc n)
  have "bytes_value (b # bs) = b + 256 * bytes_value bs" for b bs by (simp add: bytes_value_def)
  then show ?case by (simp add: byte_list_Suc Suc.IH zmod_zmult2_eq)
qed

lemma to_signed_mod:
  assumes "0 < n" and "- (2 ^ (8 * n - 1)) \<le> v" and "v < 2 ^ (8 * n - 1)"
  shows "to_signed n (v mod 256 ^ n) = v"
proof -
  have e: "(256 :: int) ^ n = 2 ^ (8 * n)" by (simp add: power_mult)
  have h: "(2 :: int) ^ (8 * n) = 2 * 2 ^ (8 * n - 1)"
    using assms(1) by (simp add: power_Suc [symmetric] del: power_Suc)
  show ?thesis
  proof (cases "0 \<le> v")
    case True
    then have "v mod 256 ^ n = v" using assms(3) unfolding e h by (intro mod_pos_pos_trivial) auto
    then show ?thesis using assms(3) by (simp add: to_signed_def)
  next
    case False
    then have "(v + 256 ^ n) mod 256 ^ n = v + 256 ^ n" using assms(2) unfolding e h by (intro mod_pos_pos_trivial) auto
    then have m: "v mod 256 ^ n = v + 2 ^ (8 * n)" by (simp only: mod_add_self2 e)
    have "2 ^ (8 * n - 1) \<le> v + 2 ^ (8 * n)" using assms(2) unfolding h by linarith
    then show ?thesis unfolding m by (simp add: to_signed_def)
  qed
qed

lemma length_member_bytes: "length (member_bytes t vs) = unit_size t * length vs"
  by (induction vs) (simp_all add: member_bytes_def)

lemma elem_bytes: "unit_size t * elements_of t n = size_of t * n"
  by (cases t) simp_all

lemma member_element:
  "j < length vs \<Longrightarrow> take (unit_size t) (drop (unit_size t * j) (member_bytes t vs)) = byte_list (unit_size t) (vs ! j)"
proof (induction vs arbitrary: j)
  case (Cons v vs)
  have c: "member_bytes t (v # vs) = byte_list (unit_size t) v @ member_bytes t vs" by (simp add: member_bytes_def)
  show ?case
  proof (cases j)
    case (Suc i)
    with Cons show ?thesis by (simp add: c)
  qed (simp add: c)
qed simp

text \<open>A member lies in memory where \<open>layout\<close> places it.\<close>

lemma memory_place:
  assumes "list_all (\<lambda>(nm, t, n). length (p nm) = elements_of t n) ms" and "(nm, k', b) \<in> set (layout k ms)"
  shows "k \<le> k' \<and> (\<exists>t' n'. (nm, t', n') \<in> set ms \<and> take b (drop (k' - k) (memory k ms p)) = member_bytes t' (p nm))"
  using assms
proof (induction k ms p rule: memory.induct)
  case (2 k m t n ms p)
  let ?k = "round_to (align_of t) k"
  have up: "k \<le> ?k" using round_to_spec by simp
  have len: "length (member_bytes t (p m)) = size_of t * n"
    using 2(2) by (simp add: length_member_bytes elem_bytes)
  show ?case
  proof (cases "(nm, k', b) \<in> set (layout (?k + size_of t * n) ms)")
    case True
    with 2(1) [OF refl] 2(2) have ih: "?k + size_of t * n \<le> k'" "\<exists>t' n'. (nm, t', n') \<in> set ms \<and>
        take b (drop (k' - (?k + size_of t * n)) (memory (?k + size_of t * n) ms p)) = member_bytes t' (p nm)"
      by simp_all
    have "drop (k' - k) (memory k ((m, t, n) # ms) p) = drop (k' - (?k + size_of t * n)) (memory (?k + size_of t * n) ms p)"
      using up ih(1) by (simp add: Let_def len)
    with up ih show ?thesis by auto
  next
    case False
    with 2(3) have "nm = m" "k' = ?k" "b = size_of t * n" by (simp_all add: Let_def)
    moreover from this up have "take b (drop (k' - k) (memory k ((m, t, n) # ms) p)) = member_bytes t (p nm)"
      by (simp add: Let_def len)
    ultimately show ?thesis using up by auto
  qed
qed simp

lemma read_bytes:
  assumes "in_type t v" and "take (unit_size t) (drop k m) = byte_list (unit_size t) v"
  shows "read_at t m k = v"
  using assms to_signed_mod [of 1 v] to_signed_mod [of 4 v] by (cases t) (simp_all add: bytes_value_list)

text \<open>The names of the members differ, since their keys do.\<close>

definition name_key :: "string \<Rightarrow> int" where
  "name_key s = foldl (\<lambda>a c. (3 * a + of_char c) mod 751) 0 s"

lemma member_names: "distinct (map fst cudaDeviceProp)"
proof -
  have "distinct (map name_key (map fst cudaDeviceProp))" by code_simp
  then show ?thesis by (simp only: distinct_map)
qed

lemma fill_lengths:
  "list_all (\<lambda>(nm, t, n). length (mvcc_fill_device_prop f nm) = elements_of t n) cudaDeviceProp"
proof -
  note d = member_names
  have "length (mvcc_fill_device_prop f nm) = elements_of t n" if "(nm, t, n) \<in> set cudaDeviceProp" for nm t n
    using fill_typed [of nm f] map_of_is_SomeI [OF d that] by (simp add: typed_def)
  then show ?thesis by (auto simp: list_all_iff)
qed

text \<open>Reading an element of a member at its address returns the value of the member.\<close>

lemma read_member:
  assumes "map_of cudaDeviceProp nm = Some (t, n)" and "map_of (layout 0 cudaDeviceProp) nm = Some (k, b)"
    and "j < elements_of t n"
  shows "read_at t (filled_memory f) (k + unit_size t * j) = mvcc_fill_device_prop f nm ! j"
proof -
  note d = member_names
  let ?v = "mvcc_fill_device_prop f nm"
  from memory_place [OF fill_lengths map_of_SomeD [OF assms(2)], of f] obtain t' n' where
    "(nm, t', n') \<in> set cudaDeviceProp" "take b (drop k (filled_memory f)) = member_bytes t' ?v"
    unfolding filled_memory_def diff_zero by blast
  with map_of_is_SomeI [OF d this(1)] assms(1) have m: "take b (drop k (filled_memory f)) = member_bytes t ?v" by simp
  from fill_typed [of nm f] assms(1) have ty: "length ?v = elements_of t n" "list_all (in_type t) ?v"
    by (simp_all add: typed_def)
  have "byte_list (unit_size t) (?v ! j) = take (unit_size t) (drop (unit_size t * j) (take b (drop k (filled_memory f))))"
    using member_element [of j ?v t] assms(3) ty(1) by (simp only: m)
  also have "\<dots> = take (min (unit_size t) (b - unit_size t * j)) (drop (k + unit_size t * j) (filled_memory f))"
    by (simp add: drop_take add.commute)
  finally have e: "byte_list (unit_size t) (?v ! j) = \<dots>" .
  then have "unit_size t = length (take (min (unit_size t) (b - unit_size t * j)) (drop (k + unit_size t * j) (filled_memory f)))"
    by (metis length_byte_list)
  then have "min (unit_size t) (b - unit_size t * j) = unit_size t" by simp
  with e have "take (unit_size t) (drop (k + unit_size t * j) (filled_memory f)) = byte_list (unit_size t) (?v ! j)" by simp
  moreover have "in_type t (?v ! j)" using ty assms(3) by (simp add: list_all_length)
  ultimately show ?thesis by (intro read_bytes)
qed


text \<open>The reads of the members with given values, in the order of memory: type, address, value.\<close>

fun elements_at :: "ctype \<Rightarrow> nat \<Rightarrow> int list \<Rightarrow> (ctype \<times> nat \<times> int) list" where
  "elements_at t k [] = []"
| "elements_at t k (v # vs) = (t, k, v) # elements_at t (k + unit_size t) vs"

fun values_at :: "(ctype \<times> int list option) list \<Rightarrow> nat list \<Rightarrow> (ctype \<times> nat \<times> int) list" where
  "values_at ((t, Some vs) # xs) (k # ks) = elements_at t k vs @ values_at xs ks"
| "values_at ((t, None) # xs) (k # ks) = values_at xs ks"
| "values_at _ _ = []"

definition member_values :: "(member \<Rightarrow> int list option) \<Rightarrow> (ctype \<times> int list option) list" where
  "member_values p = map (\<lambda>(nm, t, n). (t, p (nm, t, n))) cudaDeviceProp"

definition offsets :: "nat list" where
  "offsets = map (\<lambda>(nm, k, b). k) (layout 0 cudaDeviceProp)"

lemma layout_zip:
  "((nm, t, n), (nm', k, b)) \<in> set (zip cudaDeviceProp (layout 0 cudaDeviceProp)) \<Longrightarrow>
     map_of cudaDeviceProp nm = Some (t, n) \<and> map_of (layout 0 cudaDeviceProp) nm = Some (k, b)"
proof -
  note d = member_names
  assume "((nm, t, n), (nm', k, b)) \<in> set (zip cudaDeviceProp (layout 0 cudaDeviceProp))"
  then obtain i where i: "i < length cudaDeviceProp" "i < length (layout 0 cudaDeviceProp)"
    "cudaDeviceProp ! i = (nm, t, n)" "layout 0 cudaDeviceProp ! i = (nm', k, b)"
    by (auto simp: set_zip)
  have "fst (layout 0 cudaDeviceProp ! i) = fst (cudaDeviceProp ! i)"
    using layout_names [of 0 cudaDeviceProp] i(1,2) by (metis nth_map)
  then have "nm' = nm" using i(3,4) by simp
  then have "(nm, k, b) \<in> set (layout 0 cudaDeviceProp)" using i(2,4) by (metis nth_mem)
  moreover have "(nm, t, n) \<in> set cudaDeviceProp" using i(1,3) by (metis nth_mem)
  moreover have "distinct (map fst (layout 0 cudaDeviceProp))" using d by (simp only: layout_names)
  ultimately show ?thesis using d by (simp only: map_of_eq_Some_iff)
qed

text \<open>A read of memory that gives \<open>v\<close>.\<close>

definition reads_as :: "int list \<Rightarrow> ctype \<times> nat \<times> int \<Rightarrow> bool" where
  "reads_as m = (\<lambda>(t, k, v). read_at t m k = v)"

lemma elements_read:
  "(\<And>j. j < length vs \<Longrightarrow> read_at t m (k + unit_size t * j) = vs ! j) \<Longrightarrow> list_all (reads_as m) (elements_at t k vs)"
proof (induction vs arbitrary: k)
  case (Cons v vs)
  have "read_at t m (k + unit_size t + unit_size t * j) = vs ! j" if "j < length vs" for j
    using Cons.prems [of "Suc j"] that by (simp add: add.assoc)
  with Cons.IH Cons.prems [of 0] show ?case by (simp add: reads_as_def)
qed simp

lemma values_read:
  "list_all2 (\<lambda>(t, w) k. \<forall>vs. w = Some vs \<longrightarrow> (\<forall>j < length vs. read_at t m (k + unit_size t * j) = vs ! j)) xs ks \<Longrightarrow>
   list_all (reads_as m) (values_at xs ks)"
  by (induction xs ks rule: values_at.induct) (auto intro: elements_read)

lemma reads_members:
  assumes "\<And>nm t n vs. map_of cudaDeviceProp nm = Some (t, n) \<Longrightarrow> p (nm, t, n) = Some vs \<Longrightarrow> mvcc_fill_device_prop f nm = vs"
  shows "list_all (reads_as (filled_memory f)) (values_at (member_values p) offsets)"
proof (rule values_read)
  let ?R = "\<lambda>(nm, t, n) (nm', k, b). \<forall>vs. p (nm, t, n) = Some vs \<longrightarrow>
      (\<forall>j < length vs. read_at t (filled_memory f) (k + unit_size t * j) = vs ! j)"
  have "read_at t (filled_memory f) (k + unit_size t * j) = vs ! j"
    if "((nm, t, n), (nm', k, b)) \<in> set (zip cudaDeviceProp (layout 0 cudaDeviceProp))" "p (nm, t, n) = Some vs"
      "j < length vs" for nm t n nm' k b vs j
  proof -
    note z = layout_zip [OF that(1)]
    then have v: "mvcc_fill_device_prop f nm = vs" using assms [OF _ that(2)] by blast
    then have "length vs = elements_of t n" using fill_typed [of nm f] z by (simp add: typed_def)
    with read_member [of nm t n k b j f] z that(3) v show ?thesis by simp
  qed
  moreover have "length cudaDeviceProp = length (layout 0 cudaDeviceProp)"
    by (metis layout_names length_map)
  ultimately have "list_all2 ?R cudaDeviceProp (layout 0 cudaDeviceProp)"
    by (auto simp: list_all2_iff)
  then have "list_all2 (\<lambda>x y. \<forall>vs. p x = Some vs \<longrightarrow>
      (\<forall>j < length vs. read_at (fst (snd x)) (filled_memory f) (fst (snd y) + unit_size (fst (snd x)) * j) = vs ! j))
      cudaDeviceProp (layout 0 cudaDeviceProp)"
    by (rule list_all2_mono) auto
  then show "list_all2 (\<lambda>(t, w) k. \<forall>vs. w = Some vs \<longrightarrow> (\<forall>j < length vs. read_at t (filled_memory f) (k + unit_size t * j) = vs ! j))
      (member_values p) offsets"
    by (simp add: member_values_def offsets_def list_all2_map1 list_all2_map2 case_prod_beta)
qed

definition assigned :: "string list" where
  "assigned = [''name'', ''uuid'', ''totalGlobalMem'', ''major'', ''minor'', ''multiProcessorCount'',
     ''maxThreadsPerMultiProcessor''] @ map fst constant_props"

lemma reads_constants:
  "list_all (reads_as (filled_memory f)) (values_at (member_values (\<lambda>(nm, t, n). map_of constant_props nm)) offsets)"
proof (rule reads_members, unfold prod.case)
  fix nm :: string and vs :: "int list"
  assume "map_of constant_props nm = Some vs"
  then have "(nm, vs) \<in> set (fact_props f @ constant_props)" using map_of_SomeD by fastforce
  from map_of_is_SomeI [OF names_distinct this] show "mvcc_fill_device_prop f nm = vs"
    by (simp only: fill_value option.case)
qed

lemma reads_zero:
  "list_all (reads_as (filled_memory f))
     (values_at (member_values (\<lambda>(nm, t, n). if nm \<in> set assigned then None else Some (replicate (elements_of t n) 0)))
       offsets)"
proof (rule reads_members, unfold prod.case)
  fix nm t n and vs :: "int list"
  assume m: "map_of cudaDeviceProp nm = Some (t, n)"
    and "(if nm \<in> set assigned then None else Some (replicate (elements_of t n) 0)) = Some vs"
  then have a: "nm \<notin> set assigned" "vs = replicate (elements_of t n) 0" by (simp_all split: if_splits)
  then have "map_of (fact_props f @ constant_props) nm = None"
    unfolding map_of_eq_None_iff assigned_def fact_props_def by auto
  then show "mvcc_fill_device_prop f nm = vs" by (simp only: fill_value option.case zeroed_def m prod.case a(2))
qed

text \<open>The addresses, the constants and the zeros, evaluated.\<close>

fun placed_at :: "nat \<Rightarrow> member list \<Rightarrow> nat list \<Rightarrow> bool" where
  "placed_at k ((nm, t, n) # ms) (k' # ks) = (k' = round_to (align_of t) k \<and> placed_at (k' + size_of t * n) ms ks)"
| "placed_at k [] [] = True"
| "placed_at _ _ _ = False"

lemma placed_at_layout: "placed_at k ms ks \<Longrightarrow> map (\<lambda>(nm, k, b). k) (layout k ms) = ks"
  by (induction k ms ks rule: placed_at.induct) (auto simp: Let_def)

lemma offsets_device:
  "offsets =
     [0, 256, 272, 280, 288, 296, 304, 308, 312, 320, 324, 336, 348, 352, 360, 364, 368, 376, 384, 388, 392,
      396, 400, 404, 408, 412, 416, 420, 428, 436, 448, 456, 468, 480, 484, 492, 504, 512, 516, 524, 536, 544,
      556, 560, 568, 576, 580, 584, 588, 592, 596, 600, 604, 608, 612, 616, 620, 624, 628, 632, 636, 640, 648,
      652, 656, 660, 664, 668, 672, 676, 680, 684, 688, 692, 696, 704, 708, 712, 716, 720, 728, 732, 736, 740,
      744, 748, 752, 756, 760, 764, 768, 772, 776, 780]"
  unfolding offsets_def by (rule placed_at_layout) (simp add: cudaDeviceProp_def round_to_def)

lemma constant_values:
  "member_values (\<lambda>(nm, t, n). map_of constant_props nm) =
     [(CChar, None), (CUuid, None), (CChar, None), (CUInt, None), (CSizeT, None), (CSizeT, Some [49152]),
      (CInt, Some [65536]), (CInt, Some [32]), (CSizeT, Some [2147483647]), (CInt, Some [1024]),
      (CInt, Some [1024, 1024, 1024]), (CInt, Some [2147483647, 65535, 65535]), (CInt, Some [1400000]),
      (CSizeT, Some [65536]), (CInt, None), (CInt, None), (CSizeT, Some [512]), (CSizeT, Some [32]),
      (CInt, Some [1]), (CInt, None), (CInt, Some [0]), (CInt, Some [1]), (CInt, Some [1]), (CInt, Some [0]),
      (CInt, None), (CInt, None), (CInt, None), (CInt, None), (CInt, None), (CInt, None), (CInt, None),
      (CInt, None), (CInt, None), (CInt, None), (CInt, None), (CInt, None), (CInt, None), (CInt, None),
      (CInt, None), (CInt, None), (CInt, None), (CInt, None), (CInt, None), (CInt, None), (CSizeT, None),
      (CInt, Some [1]), (CInt, Some [0]), (CInt, None), (CInt, None), (CInt, None), (CInt, None),
      (CInt, Some [1]), (CInt, Some [1]), (CInt, Some [0]), (CInt, Some [0]), (CInt, Some [25165824]),
      (CInt, Some [0]), (CInt, None), (CInt, Some [0]), (CInt, Some [1]), (CInt, Some [1]),
      (CSizeT, Some [233472]), (CInt, Some [65536]), (CInt, Some [1]), (CInt, Some [0]), (CInt, None),
      (CInt, Some [1]), (CInt, Some [0]), (CInt, Some [0]), (CInt, Some [1]), (CInt, Some [1]),
      (CInt, Some [0]), (CInt, Some [0]), (CInt, None), (CSizeT, Some [232448]), (CInt, None), (CInt, None),
      (CInt, Some [32]), (CInt, Some [0]), (CSizeT, Some [0]), (CInt, Some [1]), (CInt, None), (CInt, None),
      (CInt, None), (CInt, Some [0]), (CInt, None), (CUInt, None), (CInt, None), (CUInt, None), (CInt, None),
      (CInt, None), (CInt, None), (CInt, None), (CInt, None)]"
  by code_simp

lemma zero_values:
  "member_values (\<lambda>(nm, t, n). if nm \<in> set assigned then None else Some (replicate (elements_of t n) 0)) =
     [(CChar, None), (CUuid, None), (CChar, Some [0, 0, 0, 0, 0, 0, 0, 0]), (CUInt, Some [0]), (CSizeT, None),
      (CSizeT, None), (CInt, None), (CInt, None), (CSizeT, None), (CInt, None), (CInt, None), (CInt, None),
      (CInt, None), (CSizeT, None), (CInt, None), (CInt, None), (CSizeT, None), (CSizeT, None), (CInt, None),
      (CInt, None), (CInt, None), (CInt, None), (CInt, None), (CInt, None), (CInt, Some [0]), (CInt, Some [0]),
      (CInt, Some [0]), (CInt, Some [0, 0]), (CInt, Some [0, 0]), (CInt, Some [0, 0, 0]), (CInt, Some [0, 0]),
      (CInt, Some [0, 0, 0]), (CInt, Some [0, 0, 0]), (CInt, Some [0]), (CInt, Some [0, 0]),
      (CInt, Some [0, 0, 0]), (CInt, Some [0, 0]), (CInt, Some [0]), (CInt, Some [0, 0]),
      (CInt, Some [0, 0, 0]), (CInt, Some [0, 0]), (CInt, Some [0, 0, 0]), (CInt, Some [0]),
      (CInt, Some [0, 0]), (CSizeT, Some [0]), (CInt, None), (CInt, None), (CInt, Some [0]), (CInt, Some [0]),
      (CInt, Some [0]), (CInt, Some [0]), (CInt, None), (CInt, None), (CInt, None), (CInt, None), (CInt, None),
      (CInt, None), (CInt, None), (CInt, None), (CInt, None), (CInt, None), (CSizeT, None), (CInt, None),
      (CInt, None), (CInt, None), (CInt, Some [0]), (CInt, None), (CInt, None), (CInt, None), (CInt, None),
      (CInt, None), (CInt, None), (CInt, None), (CInt, Some [0]), (CSizeT, None), (CInt, Some [0]),
      (CInt, Some [0]), (CInt, None), (CInt, None), (CSizeT, None), (CInt, None), (CInt, Some [0]),
      (CInt, Some [0]), (CInt, Some [0]), (CInt, None), (CInt, Some [0]), (CUInt, Some [0]), (CInt, Some [0]),
      (CUInt, Some [0]), (CInt, Some [0]), (CInt, Some [0]), (CInt, Some [0]), (CInt, Some [0]), (CInt, Some [0
      , 0, 0, 0, 0, 0, 0, 0, 0, 0, 0, 0, 0, 0, 0, 0, 0, 0, 0, 0, 0, 0, 0, 0, 0, 0, 0, 0, 0, 0, 0, 0, 0, 0, 0, 0
      , 0, 0, 0, 0, 0, 0, 0, 0, 0, 0, 0, 0, 0, 0, 0, 0, 0, 0, 0, 0, 0, 0, 0, 0, 0, 0, 0])]"
  by code_simp

lemma constant_reads:
  "values_at (member_values (\<lambda>(nm, t, n). map_of constant_props nm)) offsets =
     [(CSizeT, 296, 49152), (CInt, 304, 65536), (CInt, 308, 32), (CSizeT, 312, 2147483647), (CInt, 320, 1024),
      (CInt, 324, 1024), (CInt, 328, 1024), (CInt, 332, 1024), (CInt, 336, 2147483647), (CInt, 340, 65535),
      (CInt, 344, 65535), (CInt, 348, 1400000), (CSizeT, 352, 65536), (CSizeT, 368, 512), (CSizeT, 376, 32),
      (CInt, 384, 1), (CInt, 392, 0), (CInt, 396, 1), (CInt, 400, 1), (CInt, 404, 0), (CInt, 576, 1),
      (CInt, 580, 0), (CInt, 600, 1), (CInt, 604, 1), (CInt, 608, 0), (CInt, 612, 0), (CInt, 616, 25165824),
      (CInt, 620, 0), (CInt, 628, 0), (CInt, 632, 1), (CInt, 636, 1), (CSizeT, 640, 233472),
      (CInt, 648, 65536), (CInt, 652, 1), (CInt, 656, 0), (CInt, 664, 1), (CInt, 668, 0), (CInt, 672, 0),
      (CInt, 676, 1), (CInt, 680, 1), (CInt, 684, 0), (CInt, 688, 0), (CSizeT, 696, 232448), (CInt, 712, 32),
      (CInt, 716, 0), (CSizeT, 720, 0), (CInt, 728, 1), (CInt, 744, 0)]"
  by (simp add: constant_values offsets_device)

lemma zero_reads:
  "list_all (\<lambda>k. read_at CChar (filled_memory f) k = 0) [272..<280] \<and>
   list_all (\<lambda>k. read_at CUInt (filled_memory f) k = 0) [280, 752, 760] \<and> read_at CSizeT (filled_memory f) 568 = 0 \<and>
   list_all (\<lambda>k. read_at CInt (filled_memory f) k = 0)
     (map ((*) 4) ([102..<142] @ [146..<150] @ [165, 173, 176, 177] @ [183..<186] @ [187, 189] @ [191..<258]))"
  using reads_zero [of f] unfolding zero_values offsets_device
  by (simp add: reads_as_def upt_rec_numeral del: read_at.simps)

lemma fact_values:
  "member_values (\<lambda>(nm, t, n). map_of [(''totalGlobalMem'', [a]), (''major'', [b]), (''minor'', [c]),
       (''multiProcessorCount'', [d]), (''maxThreadsPerMultiProcessor'', [e])] nm) =
     [(CChar, None), (CUuid, None), (CChar, None), (CUInt, None), (CSizeT, Some [a]), (CSizeT, None),
      (CInt, None), (CInt, None), (CSizeT, None), (CInt, None), (CInt, None), (CInt, None), (CInt, None),
      (CSizeT, None), (CInt, Some [b]), (CInt, Some [c]), (CSizeT, None), (CSizeT, None), (CInt, None),
      (CInt, Some [d]), (CInt, None), (CInt, None), (CInt, None), (CInt, None), (CInt, None), (CInt, None),
      (CInt, None), (CInt, None), (CInt, None), (CInt, None), (CInt, None), (CInt, None), (CInt, None),
      (CInt, None), (CInt, None), (CInt, None), (CInt, None), (CInt, None), (CInt, None), (CInt, None),
      (CInt, None), (CInt, None), (CInt, None), (CInt, None), (CSizeT, None), (CInt, None), (CInt, None),
      (CInt, None), (CInt, None), (CInt, None), (CInt, None), (CInt, None), (CInt, None), (CInt, None),
      (CInt, None), (CInt, None), (CInt, None), (CInt, Some [e]), (CInt, None), (CInt, None), (CInt, None),
      (CSizeT, None), (CInt, None), (CInt, None), (CInt, None), (CInt, None), (CInt, None), (CInt, None),
      (CInt, None), (CInt, None), (CInt, None), (CInt, None), (CInt, None), (CInt, None), (CSizeT, None),
      (CInt, None), (CInt, None), (CInt, None), (CInt, None), (CSizeT, None), (CInt, None), (CInt, None),
      (CInt, None), (CInt, None), (CInt, None), (CInt, None), (CUInt, None), (CInt, None), (CUInt, None),
      (CInt, None), (CInt, None), (CInt, None), (CInt, None), (CInt, None)]"
  by code_simp

lemma facts_read:
  "read_at CSizeT (filled_memory f) 288 = uint (total_mem f)"
  "read_at CInt (filled_memory f) 360 = sint (df_major f)" "read_at CInt (filled_memory f) 364 = sint (df_minor f)"
  "read_at CInt (filled_memory f) 388 = sint (core_count f)"
  "read_at CInt (filled_memory f) 624 = sint (max_threads_per_core f)"
proof -
  let ?kvs = "[(''totalGlobalMem'', [uint (total_mem f)]), (''major'', [sint (df_major f)]), (''minor'', [sint (df_minor f)]),
      (''multiProcessorCount'', [sint (core_count f)]), (''maxThreadsPerMultiProcessor'', [sint (max_threads_per_core f)])]"
  have "list_all (reads_as (filled_memory f)) (values_at (member_values (\<lambda>(nm, t, n). map_of ?kvs nm)) offsets)"
  proof (rule reads_members, unfold prod.case)
    fix nm :: string and vs :: "int list"
    assume "map_of ?kvs nm = Some vs"
    then have "(nm, vs) \<in> set (fact_props f @ constant_props)"
      unfolding fact_props_def using map_of_SomeD by fastforce
    from map_of_is_SomeI [OF names_distinct this] show "mvcc_fill_device_prop f nm = vs"
      by (simp only: fill_value option.case)
  qed
  then have "list_all (reads_as (filled_memory f))
     [(CSizeT, 288, uint (total_mem f)), (CInt, 360, sint (df_major f)), (CInt, 364, sint (df_minor f)),
      (CInt, 388, sint (core_count f)), (CInt, 624, sint (max_threads_per_core f))]"
    unfolding fact_values offsets_device by simp
  then show "read_at CSizeT (filled_memory f) 288 = uint (total_mem f)"
    "read_at CInt (filled_memory f) 360 = sint (df_major f)" "read_at CInt (filled_memory f) 364 = sint (df_minor f)"
    "read_at CInt (filled_memory f) 388 = sint (core_count f)"
    "read_at CInt (filled_memory f) 624 = sint (max_threads_per_core f)"
    by (simp_all add: reads_as_def del: read_at.simps)
qed

subsection \<open>The name and the number of the device\<close>

lemma byte_list_1: "byte_list 1 v = [v mod 256]"
  by (simp add: byte_list_def)

lemma byte_bytes: "unit_size t = 1 \<Longrightarrow> member_bytes t vs = map (\<lambda>v. v mod 256) vs"
  by (induction vs) (simp_all add: member_bytes_def byte_list_def)

lemma char_val_byte: "char_val c mod 256 = int (of_char c)"
proof -
  have "of_char c < (256 :: nat)" by (rule nat_of_char_less_256)
  then have l: "int (of_char c) < 256" by linarith
  have "(n - 256) mod 256 = n mod 256" for n :: int using mod_add_self2 [of "n - 256" 256] by simp
  then show ?thesis using l by (simp add: char_val_def Let_def)
qed

lemma le_char_byte: "le_char v i mod 256 = uint v div 256 ^ i mod 256"
proof -
  have "int (unat (drop_bit (8 * i) v)) = uint v div 256 ^ i"
    by (simp add: unat_drop_bit_div zdiv_int power_mult)
  then have "int (unat (drop_bit (8 * i) v) mod 256) = uint v div 256 ^ i mod 256" by (simp add: zmod_int)
  then show ?thesis by (simp add: le_char_def char_val_byte)
qed

lemma memory_start:
  "\<exists>r. filled_memory f = map (\<lambda>v. v mod 256) (strncpy_cleared (df_name f) 255) @
     byte_list 8 (uint (registry_id f)) @ replicate 8 0 @ r"
proof -
  have d: "cudaDeviceProp = (''name'', CChar, 256) # (''uuid'', CUuid, 1) # drop 2 cudaDeviceProp"
    by (simp add: cudaDeviceProp_def)
  have "mvcc_fill_device_prop f ''name'' = strncpy_cleared (df_name f) 255"
    "mvcc_fill_device_prop f ''uuid'' = map (le_char (registry_id f)) [0..<8] @ replicate 8 0"
    by (simp_all add: fill_value fact_props_def map_add_def)
  moreover have "map (\<lambda>v. v mod 256) (map (le_char (registry_id f)) [0..<8]) = byte_list 8 (uint (registry_id f))"
    unfolding byte_list_def by (simp add: le_char_byte del: upt_Suc)
  ultimately show ?thesis
    unfolding filled_memory_def by (subst d) (simp add: Let_def round_to_def byte_bytes del: upt_Suc)
qed

lemma name_read: "c_string (filled_memory f) 0 = take 255 (takeWhile (\<lambda>c. c \<noteq> CHR 0x00) (df_name f))"
proof -
  let ?t = "take 255 (takeWhile (\<lambda>c. c \<noteq> CHR 0x00) (df_name f))"
  obtain r where r: "filled_memory f = map (\<lambda>v. v mod 256) (strncpy_cleared (df_name f) 255) @ r"
    using memory_start [of f] by auto
  have "256 - length ?t = Suc (255 - length ?t)" by simp
  then have "strncpy_cleared (df_name f) 255 = map char_val ?t @ 0 # replicate (255 - length ?t) 0"
    by (simp add: strncpy_cleared_def Let_def)
  then have m: "filled_memory f = map (\<lambda>c. int (of_char c)) ?t @ 0 # replicate (255 - length ?t) 0 @ r"
    by (simp add: r char_val_byte)
  have nz: "int (of_char c) \<noteq> 0" if "c \<in> set ?t" for c
  proof -
    have "c \<noteq> CHR 0x00" using in_set_takeD [OF that] by (auto dest: set_takeWhileD)
    then have "char_val c \<noteq> 0" by (simp add: char_val_zero)
    then show ?thesis by (cases "of_char c = (0 :: nat)") (simp_all add: char_val_def Let_def)
  qed
  have "takeWhile (\<lambda>b. b \<noteq> 0) (filled_memory f) = map (\<lambda>c. int (of_char c)) ?t"
    unfolding m using nz by (subst takeWhile_append2) fastforce+
  then show ?thesis by (simp add: c_string_def o_def)
qed

lemma number_read:
  "read_at CSizeT (filled_memory f) 256 = uint (registry_id f)" "take 8 (drop 264 (filled_memory f)) = replicate 8 0"
proof -
  obtain r where r: "filled_memory f = map (\<lambda>v. v mod 256) (strncpy_cleared (df_name f) 255) @
      byte_list 8 (uint (registry_id f)) @ replicate 8 0 @ r"
    using memory_start by blast
  have l: "length (strncpy_cleared (df_name f) 255) = 256" by (simp add: strncpy_cleared_def Let_def)
  have "uint (registry_id f) mod 256 ^ 8 = uint (registry_id f)"
    using uint_u64 [of "registry_id f"] by simp
  then show "read_at CSizeT (filled_memory f) 256 = uint (registry_id f)"
    by (simp add: r l bytes_value_list)
  show "take 8 (drop 264 (filled_memory f)) = replicate 8 0"
    by (simp add: r l)
qed

lemma memory_length:
  "list_all (\<lambda>(nm, t, n). length (p nm) = elements_of t n) ms \<Longrightarrow>
   k + length (memory k ms p) = fold (\<lambda>(nm, t, n) k. round_to (align_of t) k + size_of t * n) ms k"
proof (induction k ms p rule: memory.induct)
  case (2 k nm t n ms p)
  have "k \<le> round_to (align_of t) k" using round_to_spec by simp
  with 2(1) [OF refl] 2(2) show ?case by (simp add: Let_def length_member_bytes elem_bytes)
qed simp

subsection \<open>Reading the filled structure\<close>

text \<open>C34: a program that reads the filled structure at the addresses of its members, byte by byte and in the types
  of the declaration, gets the device back: at 0 the name, cut to 255 characters and terminated; at 256 the
  registry number, as the first eight bytes of the identifier (the others are zero); at 288 the memory; at
  360 and 364 the version, in this order; at 388 the cores; at 624 the threads of a core. The constants come out
  as a list of address and value: 32 threads in a warp (308), at most 1024 in a block (320) and along
  each of its axes (324), grids of 2147483647 by 65535 by 65535 blocks (336), 48, 227 and 228 KB of
  shared memory (296, 696, 640), 24 MB of cache (616), and so on. Every other member reads as zero.\<close>

theorem device_prop_filled:
  "length (filled_memory f) = 1032 \<and>
   c_string (filled_memory f) 0 = take 255 (takeWhile (\<lambda>c. c \<noteq> CHR 0x00) (df_name f)) \<and>
   read_at CSizeT (filled_memory f) 256 = uint (registry_id f) \<and>
   take 8 (drop 264 (filled_memory f)) = replicate 8 0 \<and>
   read_at CSizeT (filled_memory f) 288 = uint (total_mem f) \<and>
   read_at CInt (filled_memory f) 360 = sint (df_major f) \<and>
   read_at CInt (filled_memory f) 364 = sint (df_minor f) \<and>
   read_at CInt (filled_memory f) 388 = sint (core_count f) \<and>
   read_at CInt (filled_memory f) 624 = sint (max_threads_per_core f) \<and>
   list_all (\<lambda>(k, v). read_at CSizeT (filled_memory f) k = v)
     [(296, 49152), (312, 2147483647), (352, 65536), (368, 512), (376, 32), (640, 233472), (696, 232448),
      (720, 0)] \<and>
   list_all (\<lambda>(k, v). read_at CInt (filled_memory f) k = v)
     [(304, 65536), (308, 32), (320, 1024), (324, 1024), (328, 1024), (332, 1024), (336, 2147483647),
      (340, 65535), (344, 65535), (348, 1400000), (384, 1), (392, 0), (396, 1), (400, 1), (404, 0), (576, 1),
      (580, 0), (600, 1), (604, 1), (608, 0), (612, 0), (616, 25165824), (620, 0), (628, 0), (632, 1),
      (636, 1), (648, 65536), (652, 1), (656, 0), (664, 1), (668, 0), (672, 0), (676, 1), (680, 1), (684, 0),
      (688, 0), (712, 32), (716, 0), (728, 1), (744, 0)] \<and>
   list_all (\<lambda>k. read_at CChar (filled_memory f) k = 0) [272..<280] \<and>
   list_all (\<lambda>k. read_at CUInt (filled_memory f) k = 0) [280, 752, 760] \<and> read_at CSizeT (filled_memory f) 568 = 0 \<and>
   list_all (\<lambda>k. read_at CInt (filled_memory f) k = 0)
     (map ((*) 4) ([102..<142] @ [146..<150] @ [165, 173, 176, 177] @ [183..<186] @ [187, 189] @ [191..<258]))"
proof (intro conjI)
  note c = reads_constants [of f, unfolded constant_reads]
  show "list_all (\<lambda>(k, v). read_at CSizeT (filled_memory f) k = v)
     [(296, 49152), (312, 2147483647), (352, 65536), (368, 512), (376, 32), (640, 233472), (696, 232448),
      (720, 0)]"
    using c by (simp add: reads_as_def del: read_at.simps)
  show "list_all (\<lambda>(k, v). read_at CInt (filled_memory f) k = v)
     [(304, 65536), (308, 32), (320, 1024), (324, 1024), (328, 1024), (332, 1024), (336, 2147483647),
      (340, 65535), (344, 65535), (348, 1400000), (384, 1), (392, 0), (396, 1), (400, 1), (404, 0), (576, 1),
      (580, 0), (600, 1), (604, 1), (608, 0), (612, 0), (616, 25165824), (620, 0), (628, 0), (632, 1),
      (636, 1), (648, 65536), (652, 1), (656, 0), (664, 1), (668, 0), (672, 0), (676, 1), (680, 1), (684, 0),
      (688, 0), (712, 32), (716, 0), (728, 1), (744, 0)]"
    using c by (simp add: reads_as_def del: read_at.simps)
  have "length (filled_memory f) = fold (\<lambda>(nm, t, n) k. round_to (align_of t) k + size_of t * n) cudaDeviceProp 0"
    using memory_length [OF fill_lengths [of f], of 0] by (simp add: filled_memory_def)
  then show "length (filled_memory f) = 1032"
    by (simp add: cudaDeviceProp_def round_to_def)
qed (simp_all only: name_read number_read facts_read zero_reads simp_thms)

end
