(* ===== verification/Spec2Isabelle.thy ===== *)
theory Spec2Isabelle
  imports Philox Bpe Engine Sym_Conditions_Runs Narrow_Float Hash_Hunt Ptx_Asm Pack_File Coords_Fit Device_Props
begin

text \<open>
  A verification development for \<open>mvcc\<close>, a compiler and runtime that run CUDA programs on Apple GPUs.

  \<^bold>\<open>The program.\<close> The core is \<open>cpp/mvcc-llvm\<close>. A kernel in LLVM IR is run by a symbolic executor
  (\<open>symexec.cpp\<close>), whose expressions are polynomials over atoms and conditions in a normal form. From the
  addresses it records, coordinate discovery (\<open>coords.cpp\<close>) fits affine maps; signatures and tensor recovery
  turn them into a program of the semantic tile IR (\<open>stir.cpp\<close>). A schedule says how such a program is mapped
  to the GPU (\<open>schedule.cpp\<close>): the source schedule is read off the program, edits change it, the cost model
  predicts a time, the search returns the cheapest candidates, the legality checker (\<open>legality.cpp\<close>) refuses
  those that would change the result, and the engine (\<open>engine.cpp\<close>) chooses one, by measurement where there
  is one. Kernels that are not recovered are translated instruction by instruction; the inline PTX in them is
  parsed by \<open>ptx_asm.cpp\<close>. Beside the compiler are the device headers of \<open>include\<close> (random numbers, narrow
  floating-point formats) and two examples, a language model and a hash search.

  \<^bold>\<open>Theories.\<close> In the order of the imports; every theory opens with what it holds.

  \<^item> \<open>Prelude\<close>, \<open>CppString\<close>: words of 32 and 64 bits as numbers; \<open>std::string\<close> as the list of its bytes,
    \<open>to_string\<close>, \<open>stoul\<close> with its exceptions, tokens of a stream.
  \<^item> \<open>Philox\<close> (\<open>include/curand_kernel.h\<close>, \<open>cpp/mvcc-metal/curand_host.cpp\<close>): the state as a record, the block
    function, the 128-bit counter with its carries, \<open>skipahead\<close>, \<open>curand\<close>. The specification is a position in
    the output stream of the key; every operation moves it as documented.
  \<^item> \<open>Stir_Program\<close> (\<open>stir.h\<close>, parts of \<open>stir.cpp\<close>, \<open>sig.h\<close> and \<open>sig.cpp\<close>): the program as data, the permissions an
    algebra grants, the programs of \<open>namespace direct\<close>, monomials. Polynomials and instructions are type
    parameters.
  \<^item> \<open>Schedule\<close>, \<open>Schedule_Text\<close>, \<open>Double\<close>, \<open>Schedule_Search\<close> (\<open>schedule.h\<close>, \<open>schedule.cpp\<close>): the schedule object,
    \<open>wellFormed\<close> against a declarative specification, \<open>sourceSchedule\<close>, the edits; \<open>dump\<close> and \<open>parse\<close> as a round
    trip; \<open>costOf\<close> on rationals rounded to 53 bits after every operation; \<open>candidates\<close> with \<open>std::sort\<close> as an
    argument under its contract. The text that identifies a schedule determines its cost, so nothing cheaper
    than the window is lost.
  \<^item> \<open>Legality\<close> (\<open>legality.cpp\<close>): the obligations as steps on a result, their meaning as predicates; the checker
    accepts exactly the schedules that violate none of what it tests, and never looks at storage; graphs of kernels and the reader of graph files.
  \<^item> \<open>Engine\<close> (\<open>engine.cpp\<close>): targets, the choice among the candidates, the data base of measurements, the
    reports and commands. It is the client of the search and of the checker.
  \<^item> \<open>Sym_Poly\<close>, \<open>Sym_Arena\<close>, \<open>Sym_Facts\<close>, \<open>Sym_Groups\<close> (\<open>symexec.cpp\<close>): the polynomials and their canonical form,
    the table of atoms with \<open>binop\<close>, casts and \<open>cmp\<close>, the decisions on literals, and the test for conjunctions
    without a solution. Expressions are values, as hash consing makes equal nodes one pointer. The lemmas
    are soundness statements: for every valuation of the atoms the node has the value of the instruction,
    modulo its width, and no satisfiable path is dropped.
  \<^item> \<open>Sym_Conditions\<close>, \<open>Sym_Literals\<close>, \<open>Sym_Conditions_Right\<close>, \<open>Sym_Conditions_Calls\<close>, \<open>Sym_Conditions_Runs\<close>
    (\<open>symexec.cpp\<close>): path conditions in disjunctive normal form, simplified as they are built (\<open>notb\<close>, \<open>andb\<close>, \<open>orb\<close>
    with the resolution of clauses, \<open>implies\<close>, \<open>disjoint\<close>, \<open>given\<close>) and joins replaced by guards (\<open>factor\<close>,
    \<open>expandGuard\<close>), on a state with the memo tables and the depth counters. The functions call each other; each
    takes the functions it calls as a record, the locale \<open>condition_calls\<close> is their contract, and the knot
    \<open>calls_at n\<close> satisfies it at every depth: what they return has the value of the connective, and what they
    find to hold does. Negated literals are literals again and implication between literals has no cycles.
  \<^item> \<open>Coords_Fit\<close> (\<open>coords.cpp\<close>): \<open>dedupe\<close>, the affine fit over samples and the split into families, on the
    polynomials of \<open>Sym_Poly\<close>. A fit succeeds exactly on affine, sufficiently sampled sets.
  \<^item> \<open>Ptx_Asm\<close> (\<open>ptx_asm.cpp\<close>): lexer and parser with error values; what it returns is well-typed, and what is
    printed is read back.
  \<^item> \<open>Narrow_Float\<close> (\<open>include/cuda_fp8.h\<close>, \<open>cuda_bf16.h\<close>): conversions on bit patterns; the branch-free one is the
    reference one, FP8 values survive a round trip, the roundings to bfloat16 are the promised neighbours.
  \<^item> \<open>Device_Props\<close> (\<open>include/driver_types.h\<close>, \<open>cpp/mvcc-metal/mvcc_props.cpp\<close>): the members of \<open>cudaDeviceProp\<close> with
    their places in memory, and the fill from the facts of the device: a reader of its bytes gets the facts and the
    constants back.
  \<^item> \<open>Utf8\<close>, \<open>Tokenizer\<close>, \<open>Bpe\<close> (\<open>examples/qwen/tokenizer.hpp\<close>): UTF-8 with offsets, the pre-tokenizer as the regular
    expression it replaces, the merge loop, \<open>encode\<close>, \<open>decode\<close>, the vocabulary file.
  \<^item> \<open>Pack_File\<close> (\<open>examples/qwen/pack.hpp\<close>): the JSON reader with positions past the end made explicit, and the
    header of a pack.
  \<^item> \<open>Hash_Hunt\<close> (\<open>examples/hashhunt/md5.hpp\<close>, \<open>hashhunt_cpu.cpp\<close>): MD5 of a short message, the digits of a
    candidate, the search divided among threads, the program with its arguments and exit code.

  \<^bold>\<open>Conventions.\<close> A struct is a record, an enumeration a datatype, \<open>unsigned\<close> and \<open>uint64_t\<close> are words where
  they wrap, \<open>int\<close> and \<open>int64_t\<close> are integers where the language leaves overflow undefined; the statements that
  need a bound say so. Exceptions, refusals and undefined behaviour are error values. A loop that can run
  for ever in the code is a partial function with \<open>None\<close> for no result (\<open>encode\<close> on a special token without
  text, \<open>cmp\<close> on an equality with an out-of-range constant); every other loop is total, by structure or with a
  termination proof. Fuel is used in one place: \<open>calls_at n\<close> bounds the nesting of the calls between the
  functions on conditions. A deeper knot returns what a shallower one does, conjunctions of comparisons
  return at depth three, and the statements that rest on a result say so. The parsers of \<open>Ptx_Asm\<close> and \<open>Pack_File\<close> recurse on what an inner
  call left; their termination rests on the lemma that a call consumes.

  \<^bold>\<open>Code outside the repository\<close> is an argument: \<open>std::sort\<close> under the contract of every sort, \<open>atof\<close>, \<open>strtod\<close>, the
  text of a \<open>double\<close>, files and environment variables by their content, the numbers of nodes that break ties.

  \<^bold>\<open>Where the code falls short.\<close> Some theorems state behaviour the code does not mean to have: a comparison that
  never returns and a remainder folded as if the divisor were signed (\<open>Sym_Arena\<close>), a floating-point immediate
  read as zero (\<open>Ptx_Asm\<close>), a read past the end of a buffer (\<open>Pack_File\<close>), an obligation both failed and discharged and
  one of which half is never tested (\<open>Legality\<close>: the comment of L4 asks for a producer on the same lane when a value is kept
  in a register, and the report does not depend on storage at all), a table that keeps the answers given at a depth limit (\<open>Sym_Conditions_Runs\<close>), axes that are never bound (\<open>Schedule\<close>).

  \<^bold>\<open>Not modelled.\<close> Of the symbolic executor: floating-point operations, \<open>ite\<close>, bytes and memory, rewriting, and the
  execution of LLVM instructions. Of coordinate discovery: uniformity, abstraction of opaque
  nodes, the Hermite normal form and the assembly of the result. Of \<open>sig.cpp\<close> and \<open>stir.cpp\<close>: the classification of
  loops and the construction of a program from LLVM. The passes over LLVM modules (\<open>emit.cpp\<close>, \<open>msl_emitter.cpp\<close>,
  \<open>msl_guarded.cpp\<close>, \<open>staging_elim.cpp\<close>, \<open>tensor_recovery.cpp\<close>, \<open>dot_recovery.cpp\<close>, \<open>wide_vectors.cpp\<close>,
  \<open>nvptx_convergence.cpp\<close>, \<open>ir2msl.cpp\<close>) need a semantics of LLVM and of the Metal language. The float draws of
  the random number header, the arithmetic of the half-precision classes, the GPU kernels of the examples,
  the Metal runtime, the Rust crates, the tests and the tools are left out.
\<close>

end
